(* ===== verification/Prelude.thy ===== *)
theory Prelude
  imports Main "HOL-Library.Word"
begin

text \<open>
  Shared vocabulary of the development: the C integer types of the wasm32 target
  (\<open>u8\<close>, \<open>u16\<close>, \<open>u32\<close>, \<open>u64\<close> as words of that width), memory as a total function
  from offsets to bytes, and the generic facts about words, lists and lookups that
  the component theories use through the collections \<open>word_bits\<close> and \<open>mem_simps\<close>.
\<close>

unbundle bit_operations_syntax

type_synonym u8 = "8 word"
type_synonym u16 = "16 word"
type_synonym u32 = "32 word"
type_synonym u64 = "64 word"

text \<open>The bytes at and after a pointer: \<open>p i\<close> is the C expression \<open>p[i]\<close>.\<close>

type_synonym mem = "nat \<Rightarrow> u8"

text \<open>Result codes of the engine.\<close>

definition SQLITE_OK :: nat where "SQLITE_OK = 0"
definition SQLITE_NOMEM :: nat where "SQLITE_NOMEM = 7"

named_theorems word_bits \<open>bit-level facts about words\<close>
named_theorems mem_simps \<open>facts about reading memory after writes\<close>

section \<open>Bits of words\<close>

lemma bit_u8_oob [word_bits]: "8 \<le> n \<Longrightarrow> bit (a :: u8) n = False"
  by (auto dest: bit_imp_le_length)

lemma bit_u16_oob [word_bits]: "16 \<le> n \<Longrightarrow> bit (a :: u16) n = False"
  by (auto dest: bit_imp_le_length)

lemma bit_u32_oob [word_bits]: "32 \<le> n \<Longrightarrow> bit (a :: u32) n = False"
  by (auto dest: bit_imp_le_length)

lemma bit_u64_oob [word_bits]: "64 \<le> n \<Longrightarrow> bit (a :: u64) n = False"
  by (auto dest: bit_imp_le_length)

lemma drop_bit_u64_oob: "64 \<le> n \<Longrightarrow> drop_bit n (a :: u64) = 0"
  by (rule bit_word_eqI) (simp add: bit_simps word_bits)

lemma sint_u8_nonneg [word_bits]: "0 \<le> sint (a :: u8) \<longleftrightarrow> \<not> bit a 7"
  using bit_last_iff [of a] by (simp add: not_less)

lemma less_8_cases:
  assumes "n < (8::nat)"
  shows "n = 0 \<or> n = 1 \<or> n = 2 \<or> n = 3 \<or> n = 4 \<or> n = 5 \<or> n = 6 \<or> n = 7"
  using assms by auto

lemma eq_of_bits_lt_8:
  fixes x y :: "8 word"
  assumes "list_all (\<lambda>n. bit x n = bit y n) [0..<8]"
  shows "x = y"
  using assms by (intro bit_word_eqI) (auto simp: list_all_iff)

lemma eq_of_bits_lt_32:
  fixes x y :: "32 word"
  assumes "list_all (\<lambda>n. bit x n = bit y n) [0..<32]"
  shows "x = y"
  using assms by (intro bit_word_eqI) (auto simp: list_all_iff)

lemma eq_of_bits_lt_64:
  fixes x y :: "64 word"
  assumes "list_all (\<lambda>n. bit x n = bit y n) [0..<64]"
  shows "x = y"
  using assms by (intro bit_word_eqI) (auto simp: list_all_iff)

section \<open>Memory\<close>

text \<open>\<open>at p k\<close> is the pointer \<open>p + k\<close>; \<open>wr p xs\<close> is memory after the bytes \<open>xs\<close> are stored from \<open>p\<close> on.\<close>

definition at :: "mem \<Rightarrow> nat \<Rightarrow> mem" where
  "at p k = (\<lambda>i. p (k + i))"

definition wr :: "mem \<Rightarrow> u8 list \<Rightarrow> mem" where
  "wr p xs = (\<lambda>k. if k < length xs then xs ! k else p k)"

lemma at_0 [mem_simps]: "at p 0 = p"
  by (simp add: at_def)

lemma at_at [mem_simps]: "at (at p j) k = at p (j + k)"
  by (simp add: at_def add.assoc)

lemma wr_Nil [mem_simps]: "wr p [] = p"
  by (simp add: wr_def)


lemma wr_nth [mem_simps]: "k < length xs \<Longrightarrow> wr p xs k = xs ! k"
  by (simp add: wr_def)

lemma wr_beyond [mem_simps]: "length xs \<le> k \<Longrightarrow> wr p xs k = p k"
  by (simp add: wr_def)

lemma wr_same: "\<forall>j < length xs. p j = xs ! j \<Longrightarrow> wr p xs = p"
  by (simp add: wr_def fun_eq_iff)

lemma sint_u32: "sint (w :: u32) = (if uint w < 2 ^ 31 then uint w else uint w - 2 ^ 32)"
proof -
  define n where "n = uint w"
  have n: "0 \<le> n" "n < 2 ^ 32" using uint_bounded [of w] by (auto simp: n_def)
  have "sint w = (n + 2 ^ 31) mod 2 ^ 32 - 2 ^ 31"
    by (simp add: n_def sint_uint signed_take_bit_eq_take_bit_shift take_bit_eq_mod)
  also have "(n + 2 ^ 31) mod 2 ^ 32 = (if n < 2 ^ 31 then n + 2 ^ 31 else n - 2 ^ 31)"
  proof (cases "n < 2 ^ 31")
    case False
    have "(n - 2 ^ 31 + 2 ^ 32) mod 2 ^ 32 = n - 2 ^ 31"
      using n False by (subst mod_add_self2) (simp add: mod_pos_pos_trivial)
    then show ?thesis using False by (simp add: add.commute)
  qed (use n in \<open>simp add: mod_pos_pos_trivial\<close>)
  finally show ?thesis unfolding n_def by (auto split: if_splits)
qed

lemma sint_u64: "sint (w :: u64) = (if uint w < 2 ^ 63 then uint w else uint w - 2 ^ 64)"
proof -
  define n where "n = uint w"
  have n: "0 \<le> n" "n < 2 ^ 64" using uint_bounded [of w] by (auto simp: n_def)
  have "sint w = (n + 2 ^ 63) mod 2 ^ 64 - 2 ^ 63"
    by (simp add: n_def sint_uint signed_take_bit_eq_take_bit_shift take_bit_eq_mod)
  also have "(n + 2 ^ 63) mod 2 ^ 64 = (if n < 2 ^ 63 then n + 2 ^ 63 else n - 2 ^ 63)"
  proof (cases "n < 2 ^ 63")
    case False
    have "(n - 2 ^ 63 + 2 ^ 64) mod 2 ^ 64 = n - 2 ^ 63"
      using n False by (subst mod_add_self2) (simp add: mod_pos_pos_trivial)
    then show ?thesis using False by (simp add: add.commute)
  qed (use n in \<open>simp add: mod_pos_pos_trivial\<close>)
  finally show ?thesis unfolding n_def by (auto split: if_splits)
qed

lemma unat_uminus: "unat (- w) = (if w = 0 then 0 else 2 ^ LENGTH('n) - unat w)" for w :: "'n::len word"
proof -
  have "w \<noteq> 0 \<Longrightarrow> - w = of_nat (2 ^ LENGTH('n) - unat w)"
    by (simp add: of_nat_diff unsigned_less less_imp_le)
  moreover have "w \<noteq> 0 \<Longrightarrow> 2 ^ LENGTH('n) - unat w < 2 ^ LENGTH('n)"
    by (simp add: unat_gt_0)
  ultimately show ?thesis by (auto simp: unat_of_nat)
qed

end
