(* ===== verification/Varint.thy ===== *)
theory Varint
  imports Prelude
begin

text \<open>
  Variable-length integers and big-endian words of SQLite's file format
  (\<open>sqlite3.c\<close>, section util.c).  A writer updates the memory behind its pointer argument
  and returns it with the number of bytes written; a reader returns the number of bytes
  consumed with the value.  \<open>getVarintRef\<close> is the byte-by-byte reading of the format
  comment; the unrolled, mask-based \<open>sqlite3GetVarint\<close> is proved equal to it, and the
  round trip, frame and locality laws are collected in the locale \<open>varint_codec\<close>.
\<close>

section \<open>Writing\<close>

lemma drop_bit_7_less:
  "drop_bit 7 (v :: u64) \<noteq> 0 \<Longrightarrow> unat (drop_bit 7 v) < unat v"
proof -
  assume a: "drop_bit 7 v \<noteq> 0"
  then have "unat v div 2 ^ 7 \<noteq> 0"
    by (metis unat_drop_bit_eq drop_bit_eq_div unat_eq_zero)
  then have "unat v div 2 ^ 7 < unat v" by simp
  then show ?thesis
    by (simp only: unat_drop_bit_eq drop_bit_eq_div [of 7 "unat v"])
qed

text \<open>The loop \<open>for(i=7; i>=0; i--)\<close> of the nine-byte case; the counter is \<open>i+1\<close>.\<close>

fun putVarint64_hi :: "mem \<Rightarrow> u64 \<Rightarrow> nat \<Rightarrow> mem" where
  "putVarint64_hi p v 0 = p"
| "putVarint64_hi p v (Suc i) =
     putVarint64_hi (p(i := ucast ((v AND 0x7f) OR 0x80))) (drop_bit 7 v) i"

text \<open>The \<open>do ... while( v!=0 )\<close> loop that fills \<open>buf\<close>; \<open>n\<close> is its length.\<close>

function putVarint64_buf :: "u8 list \<Rightarrow> u64 \<Rightarrow> u8 list" where
  "putVarint64_buf buf v =
    (let buf = buf @ [ucast ((v AND 0x7f) OR 0x80)]; v = drop_bit 7 v
     in if v \<noteq> 0 then putVarint64_buf buf v else buf)"
  by pat_completeness auto
termination
  by (relation "measure (\<lambda>(buf, v). unat v)") (auto intro: drop_bit_7_less)

declare putVarint64_buf.simps [simp del]

text \<open>The copy loop \<open>for(i=0, j=n-1; j>=0; j--, i++)\<close>; the counter is \<open>j+1\<close>.\<close>

fun putVarint64_copy :: "mem \<Rightarrow> u8 list \<Rightarrow> nat \<Rightarrow> nat \<Rightarrow> mem" where
  "putVarint64_copy p buf i 0 = p"
| "putVarint64_copy p buf i (Suc j) = putVarint64_copy (p(i := buf ! j)) buf (Suc i) j"

definition putVarint64 :: "mem \<Rightarrow> u64 \<Rightarrow> mem \<times> nat" where
  "putVarint64 p v =
    (if v AND push_bit 32 0xff000000 \<noteq> 0 then
       (let p = p(8 := ucast v); v = drop_bit 8 v in (putVarint64_hi p v 8, 9))
     else
       (let buf = putVarint64_buf [] v;
            n = length buf;
            buf = buf[0 := buf ! 0 AND 0x7f]
        in (putVarint64_copy p buf 0 n, n)))"

definition sqlite3PutVarint :: "mem \<Rightarrow> u64 \<Rightarrow> mem \<times> nat" where
  "sqlite3PutVarint p v =
    (if v \<le> 0x7f then (p(0 := ucast (v AND 0x7f)), 1)
     else if v \<le> 0x3fff then
       (p(0 := ucast ((drop_bit 7 v AND 0x7f) OR 0x80), 1 := ucast (v AND 0x7f)), 2)
     else putVarint64 p v)"

function sqlite3VarintLen_loop :: "nat \<Rightarrow> u64 \<Rightarrow> nat" where
  "sqlite3VarintLen_loop i v =
    (let v = drop_bit 7 v in if v \<noteq> 0 then sqlite3VarintLen_loop (i + 1) v else i)"
  by pat_completeness auto
termination
  by (relation "measure (\<lambda>(i, v). unat v)") (auto intro: drop_bit_7_less)

declare sqlite3VarintLen_loop.simps [simp del]

definition sqlite3VarintLen :: "u64 \<Rightarrow> nat" where
  "sqlite3VarintLen v = sqlite3VarintLen_loop 1 v"

section \<open>Reading\<close>

definition SLOT_2_0 :: u32 where "SLOT_2_0 = 0x001fc07f"
definition SLOT_4_2_0 :: u32 where "SLOT_4_2_0 = 0xf01fc07f"

definition sqlite3GetVarint :: "mem \<Rightarrow> nat \<times> u64" where
  "sqlite3GetVarint p =
    (if 0 \<le> sint (p 0) then (1, ucast (p 0))
     else if 0 \<le> sint (p 1) then
       (2, ucast ((push_bit 7 (ucast (p 0 AND 0x7f)) :: u32) OR ucast (p 1)))
     else
     let a = push_bit 14 (ucast (p 0)) :: u32;
         b = ucast (p 1) :: u32;
         a = a OR ucast (p 2)
     in if a AND 0x80 = 0 then
       (let a = a AND SLOT_2_0; b = b AND 0x7f; b = push_bit 7 b; a = a OR b
        in (3, ucast a))
     else
     let a = a AND SLOT_2_0;
         b = push_bit 14 b; b = b OR ucast (p 3)
     in if b AND 0x80 = 0 then
       (let b = b AND SLOT_2_0; a = push_bit 7 a; a = a OR b in (4, ucast a))
     else
     let b = b AND SLOT_2_0; s = a;
         a = push_bit 14 a; a = a OR ucast (p 4)
     in if a AND 0x80 = 0 then
       (let b = push_bit 7 b; a = a OR b; s = drop_bit 18 s
        in (5, push_bit 32 (ucast s) OR ucast a))
     else
     let s = push_bit 7 s; s = s OR b;
         b = push_bit 14 b; b = b OR ucast (p 5)
     in if b AND 0x80 = 0 then
       (let a = a AND SLOT_2_0; a = push_bit 7 a; a = a OR b; s = drop_bit 18 s
        in (6, push_bit 32 (ucast s) OR ucast a))
     else
     let a = push_bit 14 a; a = a OR ucast (p 6)
     in if a AND 0x80 = 0 then
       (let a = a AND SLOT_4_2_0; b = b AND SLOT_2_0; b = push_bit 7 b; a = a OR b;
            s = drop_bit 11 s
        in (7, push_bit 32 (ucast s) OR ucast a))
     else
     let a = a AND SLOT_2_0;
         b = push_bit 14 b; b = b OR ucast (p 7)
     in if b AND 0x80 = 0 then
       (let b = b AND SLOT_4_2_0; a = push_bit 7 a; a = a OR b; s = drop_bit 4 s
        in (8, push_bit 32 (ucast s) OR ucast a))
     else
     let a = push_bit 15 a; a = a OR ucast (p 8);
         b = b AND SLOT_2_0; b = push_bit 8 b; a = a OR b;
         s = push_bit 4 s;
         b = ucast (p 4); b = b AND 0x7f; b = drop_bit 3 b; s = s OR b
     in (9, push_bit 32 (ucast s) OR ucast a))"

text \<open>The format read one byte at a time: \<open>i\<close> bytes are consumed, \<open>acc\<close> holds their value.\<close>

function getVarintRef :: "mem \<Rightarrow> nat \<Rightarrow> u64 \<Rightarrow> nat \<times> u64" where
  "getVarintRef p i acc =
    (if 8 \<le> i then (9, push_bit 8 acc OR ucast (p 8))
     else if \<not> bit (p i) 7 then (i + 1, push_bit 7 acc OR ucast (p i))
     else getVarintRef p (i + 1) (push_bit 7 acc OR ucast (p i AND 0x7f)))"
  by pat_completeness auto
termination by (relation "measure (\<lambda>(p, i, acc). 8 - i)") auto

declare getVarintRef.simps [simp del]

section \<open>The value of a byte sequence\<close>

definition vfold :: "u8 list \<Rightarrow> u64 \<Rightarrow> u64" where
  "vfold xs acc = fold (\<lambda>x a. push_bit 7 a OR ucast (x AND 0x7f)) xs acc"

lemma vfold_simps [simp]:
  "vfold [] acc = acc"
  "vfold (x # xs) acc = vfold xs (push_bit 7 acc OR ucast (x AND 0x7f))"
  "vfold (xs @ [x]) acc = push_bit 7 (vfold xs acc) OR ucast (x AND 0x7f)"
  by (simp_all add: vfold_def)

lemma getVarintRef_run:
  "\<forall>k < length xs. p (i + k) = xs ! k \<and> bit (xs ! k) 7 \<Longrightarrow> i + length xs \<le> 8 \<Longrightarrow>
   getVarintRef p i acc = getVarintRef p (i + length xs) (vfold xs acc)"
proof (induction xs arbitrary: i acc)
  case (Cons x xs)
  from Cons.prems(1) have x: "p i = x" "bit x 7" by auto
  have "\<forall>k < length xs. p (i + 1 + k) = xs ! k \<and> bit (xs ! k) 7"
    using Cons.prems(1) by auto
  with Cons.IH [of "i + 1"] Cons.prems(2) have
    "getVarintRef p (i + 1) (push_bit 7 acc OR ucast (x AND 0x7f))
      = getVarintRef p (i + length (x # xs)) (vfold (x # xs) acc)" by simp
  with x Cons.prems(2) show ?case by (subst getVarintRef.simps) simp
qed simp

lemma digit_byte [simp]:
  "bit (ucast ((v AND 0x7f) OR 0x80 :: u64) :: u8) 7"
  "ucast ((ucast ((v AND 0x7f) OR 0x80 :: u64) :: u8) AND 0x7f) = v AND 0x7f"
  "\<not> bit ((ucast ((v AND 0x7f) OR 0x80 :: u64) :: u8) AND 0x7f) 7"
  "ucast (((ucast ((v AND 0x7f) OR 0x80 :: u64) :: u8) AND 0x7f) AND 0x7f) = v AND 0x7f"
  by (simp add: bit_simps,
     (rule eq_of_bits_lt_64, simp add: upt_rec word_bits bit_simps numeral_2_eq_2 [symmetric]),
     simp add: bit_simps,
     (rule eq_of_bits_lt_64, simp add: upt_rec word_bits bit_simps numeral_2_eq_2 [symmetric]))

lemma mask_7: "0x7f = (mask 7 :: u64)"
  by (simp add: mask_eq_exp_minus_1)

lemma join_7: "push_bit 7 (drop_bit 7 v AND mask n) OR (v AND 0x7f) = (v :: u64) AND mask (n + 7)"
  unfolding mask_7
proof (rule bit_word_eqI)
  fix m assume "m < LENGTH(64)"
  then show "bit (push_bit 7 (drop_bit 7 v AND mask n) OR v AND mask 7) m = bit (v AND mask (n + 7)) m"
    by (cases "7 \<le> m") (auto simp add: bit_simps)
qed

lemma join_7_all [simp]: "push_bit 7 (drop_bit 7 v) OR (v AND 0x7f) = (v :: u64)"
  unfolding mask_7
proof (rule bit_word_eqI)
  fix m assume "m < LENGTH(64)"
  then show "bit (push_bit 7 (drop_bit 7 v) OR v AND mask 7) m = bit v m"
    by (cases "7 \<le> m") (auto simp add: bit_simps)
qed

lemma low_7: "drop_bit 7 v = 0 \<Longrightarrow> v AND 0x7f = (v :: u64)"
  using join_7_all [of v] by simp

lemma low_7': "drop_bit 7 v = 0 \<Longrightarrow> ucast ((ucast (v OR 0x80) :: u8) AND 0x7f) = (v :: u64)"
  using digit_byte(2) [of v] low_7 [of v] by simp

lemma buf_append: "putVarint64_buf (xs @ buf) v = xs @ putVarint64_buf buf v"
proof (induction buf v rule: putVarint64_buf.induct)
  case (1 buf v)
  then show ?case
    by (subst (1 2) putVarint64_buf.simps) (simp add: Let_def)
qed

lemma buf_step:
  "putVarint64_buf [] v = ucast ((v AND 0x7f) OR 0x80) #
     (if drop_bit 7 v = 0 then [] else putVarint64_buf [] (drop_bit 7 v))"
  by (subst putVarint64_buf.simps)
     (use buf_append [of "[ucast ((v AND 0x7f) OR 0x80)]" "[]" "drop_bit 7 v"] in \<open>simp add: Let_def\<close>)

lemma u64_induct_7:
  assumes "\<And>v :: u64. (drop_bit 7 v \<noteq> 0 \<Longrightarrow> P (drop_bit 7 v)) \<Longrightarrow> P v"
  shows "P v"
proof (induction v rule: measure_induct_rule [of unat])
  case (less v)
  show ?case by (rule assms) (rule less, rule drop_bit_7_less)
qed

lemma buf_nonempty [simp]: "putVarint64_buf [] v \<noteq> []"
  by (subst buf_step) (rule list.distinct)

lemma buf_flags: "\<forall>b \<in> set (putVarint64_buf [] v). bit b 7"
proof (induction v rule: u64_induct_7)
  case (1 v)
  then show ?case using buf_step [of v] by (cases "drop_bit 7 v = 0") auto
qed

lemma buf_value: "vfold (rev (putVarint64_buf [] v)) 0 = v"
proof (induction v rule: u64_induct_7)
  case (1 v)
  then show ?case
    using buf_step [of v] by (cases "drop_bit 7 v = 0") (auto simp: low_7 low_7')
qed

lemma buf_length_le: "drop_bit (7 * Suc m) v = 0 \<Longrightarrow> length (putVarint64_buf [] v) \<le> Suc m"
proof (induction m arbitrary: v)
  case 0
  then show ?case by (subst buf_step) simp
next
  case (Suc m)
  then have "drop_bit (7 * Suc m) (drop_bit 7 v) = 0" by (simp add: add.commute)
  from Suc.IH [OF this] show ?case by (subst buf_step) simp
qed

lemma buf_length_drop: "length (putVarint64_buf [] v) \<le> m \<Longrightarrow> drop_bit (7 * m) v = 0"
proof (induction m arbitrary: v)
  case (Suc m)
  show ?case
  proof (cases "drop_bit 7 v = 0")
    case True
    have "drop_bit (7 * Suc m) v = drop_bit (7 * m) (drop_bit 7 v)" by (simp add: add.commute)
    with True show ?thesis by simp
  next
    case False
    then have "drop_bit (7 * m) (drop_bit 7 v) = 0"
      using Suc buf_step [of v] by (intro Suc.IH) simp
    then show ?thesis by (simp add: add.commute)
  qed
qed simp

lemma VarintLen_loop_eq:
  "sqlite3VarintLen_loop i v = i + length (putVarint64_buf [] v) - 1"
proof (induction i v rule: sqlite3VarintLen_loop.induct)
  case (1 i v)
  then show ?case
    by (subst sqlite3VarintLen_loop.simps, subst buf_step) (simp add: Let_def buf_nonempty)
qed

definition hi_bytes :: "nat \<Rightarrow> u64 \<Rightarrow> u8 list" where
  "hi_bytes n v = map (\<lambda>k. ucast ((drop_bit (7 * (n - 1 - k)) v AND 0x7f) OR 0x80)) [0..<n]"

lemma hi_bytes_Suc:
  "hi_bytes (Suc n) v = hi_bytes n (drop_bit 7 v) @ [ucast ((v AND 0x7f) OR 0x80)]"
proof -
  have "7 * (n - k) = 7 * (n - Suc k) + 7" if "k < n" for k
    using that by simp
  then show ?thesis by (auto simp: hi_bytes_def)
qed

lemma hi_bytes_0 [simp]: "hi_bytes 0 v = []"
  by (simp add: hi_bytes_def)

lemma length_hi_bytes [simp]: "length (hi_bytes n v) = n"
  by (simp add: hi_bytes_def)

lemma hi_bytes_flags: "\<forall>b \<in> set (hi_bytes n v). bit b 7"
  by (auto simp: hi_bytes_def)

lemma hi_bytes_value: "vfold (hi_bytes n v) 0 = v AND mask (7 * n)"
proof (induction n arbitrary: v)
  case (Suc n)
  then show ?case using join_7 [of v "7 * n"] by (simp add: hi_bytes_Suc add.commute)
qed simp

lemma hi_eq: "putVarint64_hi p v n = wr p (hi_bytes n v)"
proof (induction n arbitrary: p v)
  case (Suc n)
  show ?case
    by (auto simp: Suc wr_def hi_bytes_Suc nth_append fun_eq_iff)
qed (simp add: wr_def)

lemma copy_eq:
  "putVarint64_copy p buf i j k = (if i \<le> k \<and> k < i + j then buf ! (i + j - 1 - k) else p k)"
proof (induction j arbitrary: p i)
  case (Suc j)
  show ?case by (auto simp: Suc.IH not_less less_Suc_eq_le)
qed auto

definition varint_bytes :: "u64 \<Rightarrow> u8 list" where
  "varint_bytes v =
    (if v AND push_bit 32 0xff000000 \<noteq> 0 then hi_bytes 8 (drop_bit 8 v) @ [ucast v]
     else rev ((putVarint64_buf [] v)[0 := putVarint64_buf [] v ! 0 AND 0x7f]))"

lemma putVarint64_eq: "putVarint64 p v = (wr p (varint_bytes v), length (varint_bytes v))"
  by (auto simp: putVarint64_def varint_bytes_def Let_def hi_eq wr_def copy_eq fun_eq_iff
      nth_append rev_nth)

lemma hi_mask: "v AND push_bit 32 0xff000000 = 0 \<longleftrightarrow> drop_bit 56 (v :: u64) = 0"
proof -
  have m: "push_bit 32 0xff000000 = (push_bit 56 (mask 8) :: u64)"
    by (simp add: mask_eq_exp_minus_1)
  have "v AND push_bit 56 (mask 8) = push_bit 56 (drop_bit 56 v)"
    by (rule eq_of_bits_lt_64) (simp add: upt_rec word_bits bit_simps numeral_2_eq_2 [symmetric])
  moreover have "push_bit 56 (drop_bit 56 v) = 0 \<longleftrightarrow> drop_bit 56 v = 0"
  proof
    assume "push_bit 56 (drop_bit 56 v) = 0"
    then have "drop_bit 56 (push_bit 56 (drop_bit 56 v)) = 0" by simp
    moreover have "drop_bit 56 (push_bit 56 (drop_bit 56 v)) = drop_bit 56 v"
      by (rule eq_of_bits_lt_64) (simp add: upt_rec word_bits bit_simps numeral_2_eq_2 [symmetric])
    ultimately show "drop_bit 56 v = 0" by simp
  qed simp
  ultimately show ?thesis by (simp only: m)
qed

lemma join_8: "push_bit 8 (drop_bit 8 v AND mask 56) OR ucast (ucast v :: u8) = (v :: u64)"
proof (rule bit_word_eqI)
  fix m assume "m < LENGTH(64)"
  then show "bit (push_bit 8 (drop_bit 8 v AND mask 56) OR ucast (ucast v :: u8)) m = bit v m"
    by (cases "8 \<le> m") (auto simp add: bit_simps)
qed

lemma getVarint_varint_bytes:
  "getVarintRef (wr p (varint_bytes v)) 0 0 = (length (varint_bytes v), v)"
proof (cases "drop_bit 56 v = 0")
  case True
  then have vb: "varint_bytes v = rev ((putVarint64_buf [] v)[0 := putVarint64_buf [] v ! 0 AND 0x7f])"
    unfolding varint_bytes_def hi_mask by simp
  obtain y ys where buf: "putVarint64_buf [] v = y # ys" "y = ucast ((v AND 0x7f) OR 0x80)"
    using buf_step [of v] by metis
  have len: "length ys \<le> 7" using buf_length_le [of 7 v] True buf by simp
  have flags: "\<forall>b \<in> set ys. bit b 7" using buf_flags [of v] buf by simp
  have b: "varint_bytes v = rev ys @ [y AND 0x7f]" by (simp add: vb buf)
  have "getVarintRef (wr p (varint_bytes v)) 0 0
      = getVarintRef (wr p (varint_bytes v)) (0 + length (rev ys)) (vfold (rev ys) 0)"
    using flags len by (intro getVarintRef_run) (auto simp: b wr_def nth_append rev_nth)
  also have "\<dots> = (length ys + 1, push_bit 7 (vfold (rev ys) 0) OR ucast (y AND 0x7f))"
    using len by (subst getVarintRef.simps) (simp add: b wr_def nth_append buf(2))
  also have "push_bit 7 (vfold (rev ys) 0) OR ucast (y AND 0x7f) = v"
    using buf_value [of v] by (simp add: buf(1))
  finally show ?thesis by (simp add: b)
next
  case False
  then have b: "varint_bytes v = hi_bytes 8 (drop_bit 8 v) @ [ucast v]"
    unfolding varint_bytes_def hi_mask by simp
  have "getVarintRef (wr p (varint_bytes v)) 0 0
      = getVarintRef (wr p (varint_bytes v)) (0 + length (hi_bytes 8 (drop_bit 8 v)))
          (vfold (hi_bytes 8 (drop_bit 8 v)) 0)"
    using hi_bytes_flags [of 8 "drop_bit 8 v"]
    by (intro getVarintRef_run) (auto simp: b wr_def nth_append all_set_conv_all_nth)
  also have "\<dots> = (9, push_bit 8 (drop_bit 8 v AND mask 56) OR ucast (ucast v :: u8))"
    by (subst getVarintRef.simps) (simp add: hi_bytes_value b wr_def nth_append)
  finally show ?thesis by (simp only: join_8) (simp add: b)
qed

section \<open>The unrolled reader computes the reference\<close>

lemma and_80_iff: "(w :: u32) AND 0x80 = 0 \<longleftrightarrow> \<not> bit w 7"
proof
  assume a: "w AND 0x80 = 0"
  have "bit (w AND 0x80) 7 = bit w 7" by (simp add: bit_simps)
  then show "\<not> bit w 7" by (simp add: a)
next
  assume "\<not> bit w 7"
  then show "w AND 0x80 = 0"
    by (intro eq_of_bits_lt_32) (simp add: upt_rec bit_simps word_bits numeral_2_eq_2 [symmetric])
qed

lemma getVarint_eq_ref: "sqlite3GetVarint p = getVarintRef p 0 0"
proof -
  note defs = numeral_2_eq_2 [symmetric] sqlite3GetVarint_def Let_def and_80_iff word_bits getVarintRef.simps bit_simps SLOT_2_0_def SLOT_4_2_0_def
  consider "\<not> bit (p 0) 7" | "bit (p 0) 7" "\<not> bit (p 1) 7" | "bit (p 0) 7" "bit (p 1) 7" "\<not> bit (p 2) 7"
    | "bit (p 0) 7" "bit (p 1) 7" "bit (p 2) 7" "\<not> bit (p 3) 7"
    | "bit (p 0) 7" "bit (p 1) 7" "bit (p 2) 7" "bit (p 3) 7" "\<not> bit (p 4) 7"
    | "bit (p 0) 7" "bit (p 1) 7" "bit (p 2) 7" "bit (p 3) 7" "bit (p 4) 7" "\<not> bit (p 5) 7"
    | "bit (p 0) 7" "bit (p 1) 7" "bit (p 2) 7" "bit (p 3) 7" "bit (p 4) 7" "bit (p 5) 7" "\<not> bit (p 6) 7"
    | "bit (p 0) 7" "bit (p 1) 7" "bit (p 2) 7" "bit (p 3) 7" "bit (p 4) 7" "bit (p 5) 7" "bit (p 6) 7" "\<not> bit (p 7) 7"
    | "bit (p 0) 7" "bit (p 1) 7" "bit (p 2) 7" "bit (p 3) 7" "bit (p 4) 7" "bit (p 5) 7" "bit (p 6) 7" "bit (p 7) 7"
    by blast
  then show ?thesis
    by cases (simp add: defs; (rule eq_of_bits_lt_64)?; (simp add: upt_rec word_bits bit_simps numeral_2_eq_2 [symmetric])?)+
qed
lemma bytes_le_7f: "v \<le> 0x7f \<Longrightarrow> varint_bytes v = [ucast (v AND 0x7f)]"
proof -
  assume "v \<le> 0x7f"
  then have "unat v \<le> 127" by (simp add: word_le_nat_alt)
  then have "unat v div 2 ^ 7 = 0" by simp
  then have d: "drop_bit 7 v = 0"
    by (simp only: unat_eq_zero [symmetric] unat_drop_bit_eq drop_bit_eq_div [of 7 "unat v"])
  have "drop_bit 56 v = drop_bit 49 (drop_bit 7 v)" by simp
  then have h: "drop_bit 56 v = 0" by (simp only: d drop_bit_of_0)
  have "(ucast ((v AND 0x7f) OR 0x80) :: u8) AND 0x7f = ucast (v AND 0x7f)"
    by (rule eq_of_bits_lt_8) (simp add: upt_rec word_bits bit_simps numeral_2_eq_2 [symmetric])
  then show ?thesis
    unfolding varint_bytes_def hi_mask using h d buf_step [of v] by simp
qed

lemma bytes_le_3fff:
  "0x7f < v \<Longrightarrow> v \<le> 0x3fff \<Longrightarrow>
   varint_bytes v = [ucast ((drop_bit 7 v AND 0x7f) OR 0x80), ucast (v AND 0x7f)]"
proof -
  assume "0x7f < v" "v \<le> 0x3fff"
  then have u: "127 < unat v" "unat v \<le> 0x3fff"
    by (simp_all add: word_le_nat_alt word_less_nat_alt)
  have dd: "drop_bit 7 (drop_bit 7 v) = drop_bit 14 v" by simp
  from u have "unat v div 2 ^ 7 \<noteq> 0" "unat v div 2 ^ 14 = 0" by simp_all
  then have d: "drop_bit 7 v \<noteq> 0" "drop_bit 14 v = 0"
    by (simp_all only: unat_eq_zero [symmetric] unat_drop_bit_eq drop_bit_eq_div [of _ "unat v"]
        not_False_eq_True)
  have "drop_bit 56 v = drop_bit 42 (drop_bit 14 v)" by simp
  then have h: "drop_bit 56 v = 0" by (simp only: d drop_bit_of_0)
  have "(ucast ((v AND 0x7f) OR 0x80) :: u8) AND 0x7f = ucast (v AND 0x7f)"
    by (rule eq_of_bits_lt_8) (simp add: upt_rec word_bits bit_simps numeral_2_eq_2 [symmetric])
  then show ?thesis
    unfolding varint_bytes_def hi_mask using h d buf_step [of v] buf_step [of "drop_bit 7 v"]
    by (simp add: dd)
qed

lemma putVarint_eq: "sqlite3PutVarint p v = (wr p (varint_bytes v), length (varint_bytes v))"
proof -
  consider "v \<le> 0x7f" | "0x7f < v" "v \<le> 0x3fff" | "\<not> v \<le> 0x7f" "\<not> v \<le> 0x3fff"
    by (metis not_le)
  then show ?thesis
  proof cases
    case 1
    then show ?thesis by (auto simp: sqlite3PutVarint_def bytes_le_7f wr_def)
  next
    case 2
    then have "\<not> v \<le> 0x7f" by simp
    with 2 show ?thesis
      by (auto simp: sqlite3PutVarint_def bytes_le_3fff wr_def fun_eq_iff less_Suc_eq)
  next
    case 3
    then show ?thesis by (simp add: sqlite3PutVarint_def putVarint64_eq)
  qed
qed

section \<open>The 32-bit reader and the single-byte macros\<close>

definition sqlite3GetVarint32 :: "mem \<Rightarrow> nat \<times> u32" where
  "sqlite3GetVarint32 p =
    (if p 1 AND 0x80 = 0 then
       (2, push_bit 7 (ucast (p 0 AND 0x7f)) OR ucast (p 1))
     else if p 2 AND 0x80 = 0 then
       (3, push_bit 14 (ucast (p 0 AND 0x7f)) OR push_bit 7 (ucast (p 1 AND 0x7f)) OR ucast (p 2))
     else
       (let (n, v64) = sqlite3GetVarint p
        in if v64 AND 0xffffffff \<noteq> v64 then (n, 0xffffffff) else (n, ucast v64)))"

definition getVarint32 :: "mem \<Rightarrow> nat \<times> u32" where
  "getVarint32 A = (if A 0 < 0x80 then (1, ucast (A 0)) else sqlite3GetVarint32 A)"

definition putVarint32 :: "mem \<Rightarrow> u32 \<Rightarrow> mem \<times> nat" where
  "putVarint32 A B = (if B < 0x80 then (A(0 := ucast B), 1) else sqlite3PutVarint A (ucast B))"

lemma and_80_u8: "(w :: u8) AND 0x80 = 0 \<longleftrightarrow> \<not> bit w 7"
proof
  assume a: "w AND 0x80 = 0"
  have "bit (w AND 0x80) 7 = bit w 7" by (simp add: bit_simps)
  then show "\<not> bit w 7" by (simp add: a)
next
  assume "\<not> bit w 7"
  then show "w AND 0x80 = 0"
    by (intro eq_of_bits_lt_8) (simp add: upt_rec bit_simps word_bits numeral_2_eq_2 [symmetric])
qed

lemma less_80_u8: "(w :: u8) < 0x80 \<longleftrightarrow> \<not> bit w 7"
proof -
  have b: "bit w 7 = odd (unat w div 2 ^ 7)"
    using bit_iff_odd [of "unat w" 7] by (simp add: bit_unsigned_iff)
  have "unat w < 256" using unsigned_less [of w] by simp
  then have "unat w div 128 = (if unat w < 128 then 0 else 1)"
    by (auto intro: div_nat_eqI)
  with b show ?thesis by (simp add: word_less_nat_alt)
qed

lemma getVarintRef_bounds: "i \<le> 8 \<Longrightarrow> i < fst (getVarintRef p i acc) \<and> fst (getVarintRef p i acc) \<le> 9"
proof (induction p i acc rule: getVarintRef.induct)
  case (1 p i acc)
  then show ?case
    by (cases "i = 8") (auto simp: getVarintRef.simps [of p i acc] getVarintRef.simps [of p 8])
qed

lemma getVarintRef_local:
  "i \<le> 8 \<Longrightarrow> \<forall>j < fst (getVarintRef p i acc). q j = p j \<Longrightarrow>
   getVarintRef q i acc = getVarintRef p i acc"
proof (induction p i acc rule: getVarintRef.induct)
  case (1 p i acc)
  have q: "q i = p i"
    using 1 getVarintRef_bounds [of i p acc] by simp
  show ?case
  proof (cases "i = 8")
    case True
    then show ?thesis using q
      by (simp add: getVarintRef.simps [of p 8] getVarintRef.simps [of q 8])
  next
    case False
    then show ?thesis using 1 q
      by (auto simp: getVarintRef.simps [of p i acc] getVarintRef.simps [of q i acc])
  qed
qed

lemma getVarint32_eq:
  "getVarint32 p = (let (n, v) = sqlite3GetVarint p
     in (n, if v AND 0xffffffff \<noteq> v then 0xffffffff else ucast v))"
proof -
  note step = getVarintRef.simps [of p 0 0] getVarintRef.simps [of p "Suc 0"] getVarintRef.simps [of p 2]
  consider "\<not> bit (p 0) 7" | "bit (p 0) 7" "\<not> bit (p 1) 7" | "bit (p 0) 7" "bit (p 1) 7" "\<not> bit (p 2) 7"
    | "bit (p 0) 7" "bit (p 1) 7" "bit (p 2) 7" by blast
  then show ?thesis
  proof cases
    case 4
    then show ?thesis
      by (simp add: getVarint32_def sqlite3GetVarint32_def less_80_u8 and_80_u8 split: prod.splits)
  next
    case 1
    have "ucast (p 0) AND 0xffffffff = (ucast (p 0) :: u64)"
      by (rule eq_of_bits_lt_64) (simp add: upt_rec word_bits bit_simps numeral_2_eq_2 [symmetric])
    moreover have "(ucast (p 0) :: u32) = ucast (ucast (p 0) :: u64)"
      by (rule eq_of_bits_lt_32) (simp add: upt_rec word_bits bit_simps numeral_2_eq_2 [symmetric])
    ultimately show ?thesis using 1
      by (simp add: getVarint32_def less_80_u8 getVarint_eq_ref step)
  next
    case 2
    have "(push_bit 7 (ucast (p 0 AND 0x7f)) OR ucast (p 1)) AND 0xffffffff
        = (push_bit 7 (ucast (p 0 AND 0x7f)) OR ucast (p 1) :: u64)"
      by (rule eq_of_bits_lt_64) (simp add: upt_rec word_bits bit_simps numeral_2_eq_2 [symmetric])
    moreover have "(push_bit 7 (ucast (p 0 AND 0x7f)) OR ucast (p 1) :: u32)
        = ucast (push_bit 7 (ucast (p 0 AND 0x7f)) OR ucast (p 1) :: u64)"
      by (rule eq_of_bits_lt_32) (simp add: upt_rec word_bits bit_simps numeral_2_eq_2 [symmetric])
    ultimately show ?thesis using 2
      by (simp add: getVarint32_def sqlite3GetVarint32_def less_80_u8 and_80_u8 getVarint_eq_ref step)
  next
    case 3
    let ?v = "push_bit 7 (push_bit 7 (ucast (p 0 AND 0x7f)) OR ucast (p 1 AND 0x7f)) OR ucast (p 2) :: u64"
    have "?v AND 0xffffffff = ?v"
      by (rule eq_of_bits_lt_64) (simp add: upt_rec word_bits bit_simps numeral_2_eq_2 [symmetric])
    moreover have "(push_bit 14 (ucast (p 0 AND 0x7f)) OR push_bit 7 (ucast (p 1 AND 0x7f)) OR ucast (p 2) :: u32)
        = ucast ?v"
      by (rule eq_of_bits_lt_32) (simp add: upt_rec word_bits bit_simps numeral_2_eq_2 [symmetric])
    ultimately show ?thesis using 3
      by (simp add: getVarint32_def sqlite3GetVarint32_def less_80_u8 and_80_u8 getVarint_eq_ref step
          numeral_2_eq_2 [symmetric])
  qed
qed

section \<open>Four-byte big-endian words\<close>

definition sqlite3Get4byte :: "mem \<Rightarrow> u32" where
  "sqlite3Get4byte p =
    (((push_bit 24 (ucast (p 0)) OR push_bit 16 (ucast (p 1))) OR push_bit 8 (ucast (p 2)))
      OR ucast (p 3))"

definition sqlite3Put4byte :: "mem \<Rightarrow> u32 \<Rightarrow> mem" where
  "sqlite3Put4byte p v =
    p(0 := ucast (drop_bit 24 v), 1 := ucast (drop_bit 16 v), 2 := ucast (drop_bit 8 v), 3 := ucast v)"

section \<open>The contract of the codec\<close>

locale varint_codec =
  fixes put :: "mem \<Rightarrow> u64 \<Rightarrow> mem \<times> nat"
    and get :: "mem \<Rightarrow> nat \<times> u64"
    and enc :: "u64 \<Rightarrow> u8 list"
  assumes put_writes: "put p v = (wr p (enc v), length (enc v))"
    and get_enc: "get (wr p (enc v)) = (length (enc v), v)"
    and get_local: "\<forall>j < fst (get p). q j = p j \<Longrightarrow> get q = get p"
begin

lemma get_prefix: "\<forall>j < length (enc v). q j = enc v ! j \<Longrightarrow> get q = (length (enc v), v)"
  using get_enc [of q v] by (simp add: wr_same)

text \<open>No encoding is a prefix of another one: a stream of varints can be cut in one way only.\<close>

lemma prefix_free: "enc w = enc v @ zs \<Longrightarrow> w = v"
  using get_prefix [of v "wr (\<lambda>_. 0) (enc w)"] get_enc [of "\<lambda>_. 0" w]
  by (simp add: wr_nth nth_append)

text \<open>Reading \<open>n\<close> values one after the other, as a record header or a cell header is read.\<close>

fun gets :: "nat \<Rightarrow> mem \<Rightarrow> nat \<times> u64 list" where
  "gets 0 p = (0, [])"
| "gets (Suc n) p =
    (let (k, v) = get p; (m, vs) = gets n (at p k) in (k + m, v # vs))"

lemma gets_enc:
  "\<forall>j < length (concat (map enc vs)). p j = concat (map enc vs) ! j \<Longrightarrow>
   gets (length vs) p = (length (concat (map enc vs)), vs)"
proof (induction vs arbitrary: p)
  case (Cons v vs)
  have "get p = (length (enc v), v)"
    using Cons.prems by (intro get_prefix) (simp add: nth_append)
  moreover have "gets (length vs) (at p (length (enc v))) = (length (concat (map enc vs)), vs)"
    using Cons.prems by (intro Cons.IH) (auto simp: at_def nth_append dest: spec [of _ "length (enc v) + _"])
  ultimately show ?case by simp
qed simp

end

interpretation vc: varint_codec sqlite3PutVarint sqlite3GetVarint varint_bytes
proof
  show "sqlite3PutVarint p v = (wr p (varint_bytes v), length (varint_bytes v))" for p v
    by (rule putVarint_eq)
  show "sqlite3GetVarint (wr p (varint_bytes v)) = (length (varint_bytes v), v)" for p v
    by (simp add: getVarint_eq_ref getVarint_varint_bytes)
  show "\<forall>j < fst (sqlite3GetVarint p). q j = p j \<Longrightarrow> sqlite3GetVarint q = sqlite3GetVarint p" for p q
    using getVarintRef_local [of 0 p 0 q] by (simp add: getVarint_eq_ref)
qed

section \<open>Lengths\<close>

lemma length_varint_bytes:
  "length (varint_bytes v) = min 9 (length (putVarint64_buf [] v))"
proof (cases "drop_bit 56 v = 0")
  case True
  then show ?thesis
    unfolding varint_bytes_def hi_mask using buf_length_le [of 7 v] by simp
next
  case False
  have "8 < length (putVarint64_buf [] v)"
  proof (rule ccontr)
    assume "\<not> 8 < length (putVarint64_buf [] v)"
    then have "drop_bit (7 * 8) v = 0" using buf_length_drop [of v 8] by simp
    with False show False by simp
  qed
  with False show ?thesis unfolding varint_bytes_def hi_mask by simp
qed

lemma length_buf_le_iff:
  "length (putVarint64_buf [] v) \<le> 9 \<longleftrightarrow> v < 0x8000000000000000"
proof -
  have "length (putVarint64_buf [] v) \<le> 9 \<longleftrightarrow> drop_bit 63 v = 0"
    using buf_length_le [of 8 v] buf_length_drop [of v 9] by auto
  also have "\<dots> \<longleftrightarrow> unat v div 2 ^ 63 = 0"
    by (simp only: unat_eq_zero [symmetric] unat_drop_bit_eq drop_bit_eq_div [of 63 "unat v"])
  also have "\<dots> \<longleftrightarrow> v < 0x8000000000000000"
    by (simp add: div_eq_0_iff word_less_nat_alt)
  finally show ?thesis .
qed

lemma length_buf_le_10: "length (putVarint64_buf [] v) \<le> 10"
  using buf_length_le [of 9 v] by (simp add: drop_bit_u64_oob)

section \<open>Properties\<close>

text \<open>
  C11.  The unrolled reader, with its 32-bit accumulators and masks, returns on every memory
  the byte count and the value of the byte-by-byte reading of the format.
\<close>

theorem sqlite3GetVarint_correct: "sqlite3GetVarint p = getVarintRef p 0 0"
  by (rule getVarint_eq_ref)

text \<open>
  C12.  Writing any 64-bit value and reading it back returns the value and the number of bytes
  written, which is between 1 and 9; no byte beyond them is touched.
\<close>

theorem varint_roundtrip:
  "let (q, n) = sqlite3PutVarint p v
   in sqlite3GetVarint q = (n, v) \<and> 1 \<le> n \<and> n \<le> 9 \<and> (\<forall>i. q (n + i) = p (n + i))"
proof -
  have "0 < length (varint_bytes v)" "length (varint_bytes v) \<le> 9"
    by (simp_all add: length_varint_bytes)
  then show ?thesis
    by (simp add: vc.put_writes vc.get_enc wr_beyond Suc_le_eq)
qed

text \<open>
  C36.  The reader looks at the bytes it consumes and at no others: whatever follows the
  varint in memory does not change the result, so a varint at the very end of a buffer is
  read without an access beyond the buffer.
\<close>

theorem sqlite3GetVarint_no_overread:
  "sqlite3GetVarint (\<lambda>j. if j < fst (sqlite3GetVarint p) then p j else junk j) = sqlite3GetVarint p"
  by (rule vc.get_local) simp

text \<open>
  The length function agrees with the number of bytes the writer produces exactly for
  values below \<open>2^63\<close>; for larger values it says 10 although the writer stores 9 bytes.
\<close>

theorem sqlite3VarintLen_correct:
  "sqlite3VarintLen v = (if v < 0x8000000000000000 then snd (sqlite3PutVarint p v) else 10)
   \<and> (0x8000000000000000 \<le> v \<longrightarrow> snd (sqlite3PutVarint p v) = 9)"
proof -
  have "sqlite3VarintLen v = length (putVarint64_buf [] v)"
    by (simp add: sqlite3VarintLen_def VarintLen_loop_eq)
  then show ?thesis
    using length_buf_le_iff [of v] length_buf_le_10 [of v]
    by (auto simp: vc.put_writes length_varint_bytes not_less [symmetric])
qed

theorem sqlite3VarintLen_correct_witness:
  "sqlite3VarintLen 0xffffffffffffffff = 10 \<and> snd (sqlite3PutVarint (\<lambda>_. 0) 0xffffffffffffffff) = 9"
  using sqlite3VarintLen_correct [of "0xffffffffffffffff" "\<lambda>_. 0"] by simp

text \<open>
  C37.  The 32-bit reader, with its inlined one-, two- and three-byte cases, consumes the same
  bytes as the 64-bit reader and returns its value, or \<open>0xffffffff\<close> where the value does
  not fit in 32 bits.
\<close>

theorem getVarint32_correct:
  "getVarint32 p = (let (n, v) = sqlite3GetVarint p
     in (n, if v AND 0xffffffff \<noteq> v then 0xffffffff else ucast v))"
  by (rule getVarint32_eq)

text \<open>
  A four-byte big-endian store followed by a load returns the word, and changes only the
  four bytes.
\<close>

theorem get4byte_put4byte:
  "sqlite3Get4byte (sqlite3Put4byte p v) = v \<and> sqlite3Put4byte p v (4 + i) = p (4 + i)"
proof
  show "sqlite3Get4byte (sqlite3Put4byte p v) = v"
    by (rule eq_of_bits_lt_32)
      (simp add: sqlite3Get4byte_def sqlite3Put4byte_def upt_rec word_bits bit_simps
        numeral_2_eq_2 [symmetric])
qed (simp add: sqlite3Put4byte_def)

end
