(* ===== verification/Printf_Int.thy ===== *)
theory Printf_Int
  imports Prelude
begin

text \<open>
  The integer half of the embedded printf (\<open>shim/printf/printf.c\<close>) that the wasm build
  of SQLite links as \<open>sprintf\<close>: output functions, the reversing writer and the integer
  conversions.  Types are those of wasm32: \<open>size_t\<close>, \<open>int\<close> and \<open>long\<close> have 32 bits,
  \<open>long long\<close> has 64, \<open>char\<close> is a byte.  The sink behind an output function (the caller's
  buffer, the characters given to \<open>_putchar\<close>, the state of a callback) is a state that is
  passed through; \<open>idx\<close> is a 32-bit word and wraps.  A conversion buffer \<open>buf\<close> with its
  length \<open>len\<close> is the list of its first \<open>len\<close> characters, so \<open>buf[len++] = c\<close> appends and
  \<open>len--\<close> drops the last one.
\<close>

section \<open>Output functions\<close>

type_synonym 's out_fct = "char \<Rightarrow> u32 \<Rightarrow> u32 \<Rightarrow> 's \<Rightarrow> 's"

definition out_buffer :: "(u32 \<Rightarrow> char) out_fct" where
  "out_buffer character idx maxlen buffer =
    (if idx < maxlen then buffer(idx := character) else buffer)"

definition out_null :: "'s out_fct" where
  "out_null character idx maxlen buffer = buffer"

text \<open>The characters handed to \<open>_putchar\<close>, in order.\<close>

definition out_char :: "string out_fct" where
  "out_char character idx maxlen putchars =
    (if character \<noteq> CHR 0x00 then putchars @ [character] else putchars)"

definition out_fct :: "(char \<Rightarrow> 's \<Rightarrow> 's) \<Rightarrow> 's out_fct" where
  "out_fct fct character idx maxlen arg =
    (if character \<noteq> CHR 0x00 then fct character arg else arg)"

section \<open>Flags\<close>

definition FLAGS_ZEROPAD :: u32 where "FLAGS_ZEROPAD = push_bit 0 1"
definition FLAGS_LEFT :: u32 where "FLAGS_LEFT = push_bit 1 1"
definition FLAGS_PLUS :: u32 where "FLAGS_PLUS = push_bit 2 1"
definition FLAGS_SPACE :: u32 where "FLAGS_SPACE = push_bit 3 1"
definition FLAGS_HASH :: u32 where "FLAGS_HASH = push_bit 4 1"
definition FLAGS_UPPERCASE :: u32 where "FLAGS_UPPERCASE = push_bit 5 1"
definition FLAGS_CHAR :: u32 where "FLAGS_CHAR = push_bit 6 1"
definition FLAGS_SHORT :: u32 where "FLAGS_SHORT = push_bit 7 1"
definition FLAGS_LONG :: u32 where "FLAGS_LONG = push_bit 8 1"
definition FLAGS_LONG_LONG :: u32 where "FLAGS_LONG_LONG = push_bit 9 1"
definition FLAGS_PRECISION :: u32 where "FLAGS_PRECISION = push_bit 10 1"
definition FLAGS_ADAPT_EXP :: u32 where "FLAGS_ADAPT_EXP = push_bit 11 1"

text \<open>The C condition \<open>flags & F\<close>.\<close>

definition flag :: "u32 \<Rightarrow> u32 \<Rightarrow> bool" where
  "flag flags F \<longleftrightarrow> flags AND F \<noteq> 0"

definition PRINTF_NTOA_BUFFER_SIZE :: nat where "PRINTF_NTOA_BUFFER_SIZE = 32"

section \<open>Strings\<close>

text \<open>
  A \<open>char*\<close> is the list of the bytes that can be read from it on, its terminator included;
  a read beyond the list is undefined behaviour and gives \<open>None\<close>.
\<close>

fun strnlen_s :: "char list \<Rightarrow> nat \<Rightarrow> nat option" where
  "strnlen_s [] maxsize = None"
| "strnlen_s (c # s) maxsize =
     (if c \<noteq> CHR 0x00 \<and> maxsize \<noteq> 0 then map_option Suc (strnlen_s s (maxsize - 1)) else Some 0)"

definition is_digit :: "char \<Rightarrow> bool" where
  "is_digit ch \<longleftrightarrow> of_char (CHR ''0'') \<le> (of_char ch :: nat) \<and> (of_char ch :: nat) \<le> of_char (CHR ''9'')"

text \<open>\<open>_atoi\<close> advances the pointer past the digits; the sum wraps at 32 bits.\<close>

fun atoi_loop :: "char list \<Rightarrow> nat \<Rightarrow> (nat \<times> char list) option" where
  "atoi_loop [] i = None"
| "atoi_loop (c # str) i =
     (if is_digit c then atoi_loop str ((i * 10 + (of_char c - 48)) mod 2 ^ 32)
      else Some (i, c # str))"

definition atoi :: "char list \<Rightarrow> (nat \<times> char list) option" where
  "atoi str = atoi_loop str 0"

section \<open>Reversed output\<close>

lemma unat_plus_one: "unat (w :: u32) < 2 ^ 32 - 1 \<Longrightarrow> unat (w + 1) = unat w + 1"
  by (subst unat_word_ariths) simp


text \<open>\<open>for (size_t i = len; i < width; i++) out(' ', buffer, idx++, maxlen)\<close>\<close>

function pad_upto :: "'s out_fct \<Rightarrow> u32 \<Rightarrow> nat \<Rightarrow> nat \<Rightarrow> u32 \<times> 's \<Rightarrow> u32 \<times> 's" where
  "pad_upto out maxlen i width (idx, s) =
    (if i < width then pad_upto out maxlen (i + 1) width (idx + 1, out (CHR '' '') idx maxlen s)
     else (idx, s))"
  by pat_completeness auto
termination by (relation "measure (\<lambda>(out, maxlen, i, width, _). width - i)") auto

text \<open>\<open>while (len) out(buf[--len], buffer, idx++, maxlen)\<close>\<close>

fun out_rev_loop :: "'s out_fct \<Rightarrow> u32 \<Rightarrow> char list \<Rightarrow> nat \<Rightarrow> u32 \<times> 's \<Rightarrow> u32 \<times> 's" where
  "out_rev_loop out maxlen buf 0 (idx, s) = (idx, s)"
| "out_rev_loop out maxlen buf (Suc len) (idx, s) =
     out_rev_loop out maxlen buf len (idx + 1, out (buf ! len) idx maxlen s)"

text \<open>\<open>while (idx - start_idx < width) out(' ', buffer, idx++, maxlen)\<close>, the difference in 32 bits; \<open>width\<close> is an \<open>unsigned int\<close>, so the second conjunct always holds\<close>

function pad_from :: "'s out_fct \<Rightarrow> u32 \<Rightarrow> u32 \<Rightarrow> nat \<Rightarrow> u32 \<times> 's \<Rightarrow> u32 \<times> 's" where
  "pad_from out maxlen start_idx width (idx, s) =
    (if unat (idx - start_idx) < width \<and> width < 2 ^ 32
     then pad_from out maxlen start_idx width (idx + 1, out (CHR '' '') idx maxlen s)
     else (idx, s))"
  by pat_completeness auto
termination
proof (relation "measure (\<lambda>(out, maxlen, start_idx, width, idx, _). width - unat (idx - start_idx))",
    goal_cases)
  case (2 out maxlen start_idx width idx s)
  then have "unat (idx - start_idx + 1) = unat (idx - start_idx) + 1"
    by (intro unat_plus_one) auto
  moreover have "idx + 1 - start_idx = idx - start_idx + 1" by simp
  ultimately have "unat (idx + 1 - start_idx) = unat (idx - start_idx) + 1" by (simp only:)
  with 2 show ?case by (simp add: diff_less_mono2)
qed simp

declare pad_upto.simps [simp del] pad_from.simps [simp del]

definition out_rev ::
  "'s out_fct \<Rightarrow> u32 \<Rightarrow> char list \<Rightarrow> nat \<Rightarrow> u32 \<Rightarrow> u32 \<times> 's \<Rightarrow> u32 \<times> 's" where
  "out_rev out maxlen buf width flags st =
    (let start_idx = fst st;
         st = (if \<not> flag flags FLAGS_LEFT \<and> \<not> flag flags FLAGS_ZEROPAD
               then pad_upto out maxlen (length buf) width st else st);
         st = out_rev_loop out maxlen buf (length buf) st
     in if flag flags FLAGS_LEFT then pad_from out maxlen start_idx width st else st)"

section \<open>Integer conversion\<close>

text \<open>\<open>while ((len < n) && (len < PRINTF_NTOA_BUFFER_SIZE)) buf[len++] = '0'\<close>\<close>

function zeros_upto :: "char list \<Rightarrow> nat \<Rightarrow> char list" where
  "zeros_upto buf n =
    (if length buf < n \<and> length buf < PRINTF_NTOA_BUFFER_SIZE
     then zeros_upto (buf @ [CHR ''0'']) n else buf)"
  by pat_completeness auto
termination by (relation "measure (\<lambda>(buf, n). n - length buf)") auto

declare zeros_upto.simps [simp del]

text \<open>\<open>if (len < PRINTF_NTOA_BUFFER_SIZE) buf[len++] = c\<close>\<close>

definition push :: "char \<Rightarrow> char list \<Rightarrow> char list" where
  "push c buf = (if length buf < PRINTF_NTOA_BUFFER_SIZE then buf @ [c] else buf)"

definition ntoa_hash :: "char list \<Rightarrow> nat \<Rightarrow> nat \<Rightarrow> nat \<Rightarrow> u32 \<Rightarrow> char list" where
  "ntoa_hash buf base prec width flags =
    (let buf = (if \<not> flag flags FLAGS_PRECISION \<and> buf \<noteq> [] \<and>
                   (length buf = prec \<or> length buf = width)
                then (let buf = butlast buf in if buf \<noteq> [] \<and> base = 16 then butlast buf else buf)
                else buf);
         buf = (if base = 16 \<and> \<not> flag flags FLAGS_UPPERCASE \<and> length buf < PRINTF_NTOA_BUFFER_SIZE
                then buf @ [CHR ''x'']
                else if base = 16 \<and> flag flags FLAGS_UPPERCASE \<and> length buf < PRINTF_NTOA_BUFFER_SIZE
                then buf @ [CHR ''X'']
                else if base = 2 \<and> length buf < PRINTF_NTOA_BUFFER_SIZE
                then buf @ [CHR ''b''] else buf)
     in push (CHR ''0'') buf)"

definition ntoa_sign :: "char list \<Rightarrow> bool \<Rightarrow> u32 \<Rightarrow> char list" where
  "ntoa_sign buf negative flags =
    (if length buf < PRINTF_NTOA_BUFFER_SIZE then
       (if negative then buf @ [CHR ''-'']
        else if flag flags FLAGS_PLUS then buf @ [CHR ''+'']
        else if flag flags FLAGS_SPACE then buf @ [CHR '' ''] else buf)
     else buf)"

text \<open>The characters of \<open>buf\<close>, and the width, when \<open>_ntoa_format\<close> calls \<open>_out_rev\<close>.\<close>

definition ntoa_format_buf ::
  "char list \<Rightarrow> bool \<Rightarrow> nat \<Rightarrow> nat \<Rightarrow> nat \<Rightarrow> u32 \<Rightarrow> char list \<times> nat" where
  "ntoa_format_buf buf negative base prec width flags =
    (let (buf, width) =
       (if \<not> flag flags FLAGS_LEFT then
          (let width = (if width \<noteq> 0 \<and> flag flags FLAGS_ZEROPAD \<and>
                           (negative \<or> flag flags (FLAGS_PLUS OR FLAGS_SPACE))
                        then width - 1 else width);
               buf = zeros_upto buf prec;
               buf = (if flag flags FLAGS_ZEROPAD then zeros_upto buf width else buf)
           in (buf, width))
        else (buf, width));
       buf = (if flag flags FLAGS_HASH then ntoa_hash buf base prec width flags else buf)
     in (ntoa_sign buf negative flags, width))"

definition ntoa_format ::
  "'s out_fct \<Rightarrow> u32 \<Rightarrow> char list \<Rightarrow> bool \<Rightarrow> nat \<Rightarrow> nat \<Rightarrow> nat \<Rightarrow> u32 \<Rightarrow> u32 \<times> 's \<Rightarrow> u32 \<times> 's" where
  "ntoa_format out maxlen buf negative base prec width flags st =
    (let (buf, width) = ntoa_format_buf buf negative base prec width flags
     in out_rev out maxlen buf width flags st)"

definition ntoa_digit :: "nat \<Rightarrow> u32 \<Rightarrow> char" where
  "ntoa_digit digit flags =
    (if digit < 10 then char_of (of_char (CHR ''0'') + digit)
     else char_of ((if flag flags FLAGS_UPPERCASE then of_char (CHR ''A'') else of_char (CHR ''a''))
            + digit - 10))"

text \<open>\<open>do ... while (value && (len < PRINTF_NTOA_BUFFER_SIZE))\<close>\<close>

function ntoa_digits :: "nat \<Rightarrow> nat \<Rightarrow> u32 \<Rightarrow> char list \<Rightarrow> char list" where
  "ntoa_digits value base flags buf =
    (let buf = buf @ [ntoa_digit (value mod base) flags]; value = value div base
     in if value \<noteq> 0 \<and> length buf < PRINTF_NTOA_BUFFER_SIZE
        then ntoa_digits value base flags buf else buf)"
  by pat_completeness auto
termination
  by (relation "measure (\<lambda>(value, base, flags, buf). PRINTF_NTOA_BUFFER_SIZE - length buf)") auto

declare ntoa_digits.simps [simp del]

text \<open>The digits and the flags that reach \<open>_ntoa_format\<close>.\<close>

definition ntoa_start :: "nat \<Rightarrow> nat \<Rightarrow> u32 \<Rightarrow> char list \<times> u32" where
  "ntoa_start value base flags =
    (let flags = (if value = 0 then flags AND NOT FLAGS_HASH else flags);
         buf = (if \<not> flag flags FLAGS_PRECISION \<or> value \<noteq> 0
                then ntoa_digits value base flags [] else [])
     in (buf, flags))"

definition ntoa_long ::
  "'s out_fct \<Rightarrow> u32 \<Rightarrow> u32 \<Rightarrow> bool \<Rightarrow> nat \<Rightarrow> nat \<Rightarrow> nat \<Rightarrow> u32 \<Rightarrow> u32 \<times> 's \<Rightarrow> u32 \<times> 's" where
  "ntoa_long out maxlen value negative base prec width flags st =
    (let (buf, flags) = ntoa_start (unat value) base flags
     in ntoa_format out maxlen buf negative base prec width flags st)"

definition ntoa_long_long ::
  "'s out_fct \<Rightarrow> u32 \<Rightarrow> u64 \<Rightarrow> bool \<Rightarrow> nat \<Rightarrow> nat \<Rightarrow> nat \<Rightarrow> u32 \<Rightarrow> u32 \<times> 's \<Rightarrow> u32 \<times> 's" where
  "ntoa_long_long out maxlen value negative base prec width flags st =
    (let (buf, flags) = ntoa_start (unat value) base flags
     in ntoa_format out maxlen buf negative base prec width flags st)"


section \<open>What is emitted\<close>

text \<open>Every function below sends a string, character by character, to \<open>out\<close>.\<close>

definition emit :: "'s out_fct \<Rightarrow> u32 \<Rightarrow> char list \<Rightarrow> u32 \<times> 's \<Rightarrow> u32 \<times> 's" where
  "emit out maxlen cs st = fold (\<lambda>c (idx, s). (idx + 1, out c idx maxlen s)) cs st"

named_theorems emit_simps \<open>output functions as emitted strings\<close>

lemma emit_Nil [simp, emit_simps]: "emit out maxlen [] st = st"
  by (simp add: emit_def)

lemma emit_Cons: "emit out maxlen (c # cs) (idx, s) = emit out maxlen cs (idx + 1, out c idx maxlen s)"
  by (simp add: emit_def)

lemma emit_append [emit_simps]: "emit out maxlen (xs @ ys) st = emit out maxlen ys (emit out maxlen xs st)"
  by (simp add: emit_def)

lemma fst_emit [simp]: "fst (emit out maxlen cs st) = fst st + of_nat (length cs)"
  by (induction cs arbitrary: st) (auto simp: emit_Cons split_paired_all)

lemma pad_upto_unfold:
  "pad_upto out maxlen i width st =
    (if i < width then pad_upto out maxlen (i + 1) width (fst st + 1, out (CHR '' '') (fst st) maxlen (snd st))
     else st)"
  by (cases st) (simp add: pad_upto.simps [of out maxlen i width])

lemma pad_from_unfold:
  "pad_from out maxlen start width st =
    (if unat (fst st - start) < width \<and> width < 2 ^ 32
     then pad_from out maxlen start width (fst st + 1, out (CHR '' '') (fst st) maxlen (snd st))
     else st)"
  by (cases st) (simp add: pad_from.simps [of out maxlen start width])

lemma emit_Cons': "emit out maxlen (c # cs) st
    = emit out maxlen cs (fst st + 1, out c (fst st) maxlen (snd st))"
  by (cases st) (simp add: emit_Cons)

lemma pad_upto_emit [emit_simps]:
  "pad_upto out maxlen i width st = emit out maxlen (replicate (width - i) (CHR '' '')) st"
proof (induction "width - i" arbitrary: i st)
  case 0
  then show ?case by (subst pad_upto_unfold) simp
next
  case (Suc n)
  then have "n = width - (i + 1)" "i < width" "width - i = Suc n" by simp_all
  with Suc(1) [of "i + 1"] show ?case
    by (subst pad_upto_unfold) (simp add: emit_Cons')
qed

lemma out_rev_loop_emit:
  "n \<le> length buf \<Longrightarrow> out_rev_loop out maxlen buf n st = emit out maxlen (rev (take n buf)) st"
  by (induction n arbitrary: st) (auto simp: take_Suc_conv_app_nth emit_Cons split_paired_all)

lemma pad_from_emit:
  "width < 2 ^ 32 \<Longrightarrow>
   pad_from out maxlen start width st
     = emit out maxlen (replicate (width - unat (fst st - start)) (CHR '' '')) st"
proof (induction "width - unat (fst st - start)" arbitrary: st)
  case 0
  then show ?case by (subst pad_from_unfold) simp
next
  case (Suc n)
  obtain idx s where st: "st = (idx, s)" by (cases st)
  let ?st = "(idx + 1, out (CHR '' '') idx maxlen s)"
  have lt: "unat (idx - start) < width" and w: "width - unat (idx - start) = Suc n"
    using Suc(2) st by simp_all
  have "unat (idx - start + 1) = unat (idx - start) + 1"
    using lt Suc(3) by (intro unat_plus_one) auto
  moreover have "idx + 1 - start = idx - start + 1" by simp
  ultimately have "unat (idx + 1 - start) = unat (idx - start) + 1" by (simp only:)
  with w have "n = width - unat (fst ?st - start)" by simp
  from Suc(1) [OF this Suc(3)] this lt Suc(3) w show ?case
    unfolding st by (subst pad_from_unfold) (simp add: emit_Cons')
qed

text \<open>The string that \<open>_out_rev\<close> emits.\<close>

definition out_rev_str :: "char list \<Rightarrow> nat \<Rightarrow> u32 \<Rightarrow> char list" where
  "out_rev_str buf width flags =
    (if \<not> flag flags FLAGS_LEFT \<and> \<not> flag flags FLAGS_ZEROPAD
     then replicate (width - length buf) (CHR '' '') else [])
    @ rev buf
    @ (if flag flags FLAGS_LEFT then replicate (width - length buf) (CHR '' '') else [])"

lemma out_rev_emit [emit_simps]:
  "width < 2 ^ 32 \<Longrightarrow> length buf < 2 ^ 32 \<Longrightarrow>
   out_rev out maxlen buf width flags st = emit out maxlen (out_rev_str buf width flags) st"
  by (cases "flag flags FLAGS_LEFT"; cases "flag flags FLAGS_ZEROPAD")
     (simp_all add: out_rev_def out_rev_str_def Let_def pad_upto_emit out_rev_loop_emit
       pad_from_emit emit_append unat_of_nat)


lemma zeros_upto_eq:
  "zeros_upto buf n = buf @ replicate (min n PRINTF_NTOA_BUFFER_SIZE - length buf) (CHR ''0'')"
proof (induction buf n rule: zeros_upto.induct)
  case (1 buf n)
  show ?case
  proof (cases "length buf < n \<and> length buf < PRINTF_NTOA_BUFFER_SIZE")
    case True
    then have "min n PRINTF_NTOA_BUFFER_SIZE - length buf
        = Suc (min n PRINTF_NTOA_BUFFER_SIZE - length (buf @ [CHR ''0'']))" by auto
    with 1 [OF True] True show ?thesis by (subst zeros_upto.simps) simp
  next
    case False
    then show ?thesis by (subst zeros_upto.simps) auto
  qed
qed

lemma length_zeros_upto:
  "length buf \<le> PRINTF_NTOA_BUFFER_SIZE \<Longrightarrow> length (zeros_upto buf n) \<le> PRINTF_NTOA_BUFFER_SIZE"
  by (simp add: zeros_upto_eq)

lemma length_ntoa_digits:
  "length buf < PRINTF_NTOA_BUFFER_SIZE \<Longrightarrow>
   length (ntoa_digits value base flags buf) \<le> PRINTF_NTOA_BUFFER_SIZE"
proof (induction "value" base flags buf rule: ntoa_digits.induct)
  case (1 "value" base flags buf)
  then show ?case by (subst ntoa_digits.simps) (auto simp: Let_def)
qed

lemma length_ntoa_start:
  "length (fst (ntoa_start value base flags)) \<le> PRINTF_NTOA_BUFFER_SIZE"
  using length_ntoa_digits [of "[]"]
  by (auto simp: ntoa_start_def Let_def PRINTF_NTOA_BUFFER_SIZE_def)

lemma length_ntoa_hash:
  "length buf \<le> PRINTF_NTOA_BUFFER_SIZE \<Longrightarrow>
   length (ntoa_hash buf base prec width flags) \<le> PRINTF_NTOA_BUFFER_SIZE"
  by (auto simp: ntoa_hash_def push_def Let_def)

lemma length_ntoa_format_buf:
  assumes "length buf \<le> PRINTF_NTOA_BUFFER_SIZE"
  shows "length (fst (ntoa_format_buf buf negative base prec width flags)) \<le> PRINTF_NTOA_BUFFER_SIZE"
proof -
  have sign: "length xs \<le> PRINTF_NTOA_BUFFER_SIZE \<Longrightarrow>
      length (ntoa_sign xs negative flags) \<le> PRINTF_NTOA_BUFFER_SIZE" for xs
    by (simp add: ntoa_sign_def)
  note bounds = sign length_ntoa_hash length_zeros_upto assms
  show ?thesis
    by (cases "flag flags FLAGS_LEFT"; cases "flag flags FLAGS_HASH"; cases "flag flags FLAGS_ZEROPAD")
      (simp_all add: ntoa_format_buf_def Let_def bounds)
qed

lemma width_ntoa_format_buf:
  "snd (ntoa_format_buf buf negative base prec width flags) \<le> width"
  by (auto simp: ntoa_format_buf_def Let_def split: prod.splits if_splits)

text \<open>The string an integer conversion emits.\<close>

definition ntoa_str :: "nat \<Rightarrow> bool \<Rightarrow> nat \<Rightarrow> nat \<Rightarrow> nat \<Rightarrow> u32 \<Rightarrow> char list" where
  "ntoa_str value negative base prec width flags =
    (let (buf, flags) = ntoa_start value base flags;
         (buf, width) = ntoa_format_buf buf negative base prec width flags
     in out_rev_str buf width flags)"

lemma ntoa_format_emit:
  assumes "width < 2 ^ 32" "length buf \<le> PRINTF_NTOA_BUFFER_SIZE"
  shows "ntoa_format out maxlen buf negative base prec width flags st
    = (let (buf, width) = ntoa_format_buf buf negative base prec width flags
       in emit out maxlen (out_rev_str buf width flags) st)"
  using assms length_ntoa_format_buf [of buf negative base prec width flags]
    width_ntoa_format_buf [of buf negative base prec width flags]
  by (auto simp: ntoa_format_def PRINTF_NTOA_BUFFER_SIZE_def intro!: out_rev_emit split: prod.splits)

lemma ntoa_long_emit [emit_simps]:
  "width < 2 ^ 32 \<Longrightarrow> ntoa_long out maxlen value negative base prec width flags st
    = emit out maxlen (ntoa_str (unat value) negative base prec width flags) st"
  using length_ntoa_start [of "unat value" base flags]
  by (auto simp: ntoa_long_def ntoa_str_def ntoa_format_emit split: prod.splits)

lemma ntoa_long_long_emit [emit_simps]:
  "width < 2 ^ 32 \<Longrightarrow> ntoa_long_long out maxlen value negative base prec width flags st
    = emit out maxlen (ntoa_str (unat value) negative base prec width flags) st"
  using length_ntoa_start [of "unat value" base flags]
  by (auto simp: ntoa_long_long_def ntoa_str_def ntoa_format_emit split: prod.splits)

section \<open>The conversion the C standard asks for\<close>

fun digits :: "nat \<Rightarrow> nat \<Rightarrow> nat list" where
  "digits base n = (if n < base \<or> base < 2 then [n] else digits base (n div base) @ [n mod base])"

declare digits.simps [simp del]

text \<open>
  Precision is the least number of digits; the sign comes first; the field is filled with
  zeros between sign and digits, or with blanks on the side the flags ask for.
\<close>

definition std_int_str :: "nat \<Rightarrow> bool \<Rightarrow> nat \<Rightarrow> nat \<Rightarrow> nat \<Rightarrow> u32 \<Rightarrow> char list" where
  "std_int_str value negative base prec width flags =
    (let ds = (if flag flags FLAGS_PRECISION \<and> value = 0 then []
               else map (\<lambda>d. ntoa_digit d flags) (digits base value));
         body = replicate (prec - length ds) (CHR ''0'') @ ds;
         sgn = (if negative then ''-'' else if flag flags FLAGS_PLUS then ''+''
                else if flag flags FLAGS_SPACE then '' '' else []);
         fill = width - length sgn - length body
     in if flag flags FLAGS_LEFT then sgn @ body @ replicate fill (CHR '' '')
        else if flag flags FLAGS_ZEROPAD then sgn @ replicate fill (CHR ''0'') @ body
        else replicate fill (CHR '' '') @ sgn @ body)"

lemma ntoa_digits_eq:
  "2 \<le> base \<Longrightarrow> length buf + length (digits base value) \<le> PRINTF_NTOA_BUFFER_SIZE \<Longrightarrow>
   ntoa_digits value base flags buf = buf @ rev (map (\<lambda>d. ntoa_digit d flags) (digits base value))"
proof (induction base "value" arbitrary: buf rule: digits.induct)
  case (1 base n)
  show ?case
  proof (cases "n < base")
    case True
    with 1 show ?thesis
      by (subst ntoa_digits.simps) (simp add: digits.simps [of base n])
  next
    case False
    have len: "0 < length (digits base m)" for m by (subst digits.simps) simp
    have "length (buf @ [c]) + length (digits base (n div base)) \<le> PRINTF_NTOA_BUFFER_SIZE" for c
      using "1.prems" False by (simp add: digits.simps [of base n])
    with False "1.IH" "1.prems" len [of "n div base"]
    have IH: "ntoa_digits (n div base) base flags (buf @ [ntoa_digit (n mod base) flags])
      = buf @ [ntoa_digit (n mod base) flags] @ rev (map (\<lambda>d. ntoa_digit d flags) (digits base (n div base)))"
      by simp
    have "n div base \<noteq> 0" using False "1.prems" by (simp add: div_eq_0_iff)
    moreover have "Suc (length buf) < PRINTF_NTOA_BUFFER_SIZE"
    proof -
      have "length (digits base n) = length (digits base (n div base)) + 1"
        using False "1.prems"(1) by (subst digits.simps) simp
      with "1.prems"(2) len [of "n div base"] show ?thesis by linarith
    qed
    ultimately show ?thesis using IH False "1.prems"
      by (subst ntoa_digits.simps) (simp add: digits.simps [of base n] Let_def)
  qed
qed

lemma flag_or: "flag flags (F OR G) \<longleftrightarrow> flag flags F \<or> flag flags G"
  by (auto simp: flag_def bit.conj_disj_distrib bit_eq_iff bit_simps)

lemma flag_and_not: "flag (flags AND NOT F) G \<longleftrightarrow> flag flags (G AND NOT F)"
  by (simp add: flag_def ac_simps)


lemmas flags_defs = FLAGS_ZEROPAD_def FLAGS_LEFT_def FLAGS_PLUS_def FLAGS_SPACE_def FLAGS_HASH_def
  FLAGS_UPPERCASE_def FLAGS_CHAR_def FLAGS_SHORT_def FLAGS_LONG_def FLAGS_LONG_LONG_def
  FLAGS_PRECISION_def FLAGS_ADAPT_EXP_def

lemma flag_clear_hash [simp]:
  "flag (flags AND NOT FLAGS_HASH) FLAGS_LEFT = flag flags FLAGS_LEFT"
  "flag (flags AND NOT FLAGS_HASH) FLAGS_ZEROPAD = flag flags FLAGS_ZEROPAD"
  "flag (flags AND NOT FLAGS_HASH) FLAGS_PLUS = flag flags FLAGS_PLUS"
  "flag (flags AND NOT FLAGS_HASH) FLAGS_SPACE = flag flags FLAGS_SPACE"
  "flag (flags AND NOT FLAGS_HASH) FLAGS_UPPERCASE = flag flags FLAGS_UPPERCASE"
  "flag (flags AND NOT FLAGS_HASH) FLAGS_PRECISION = flag flags FLAGS_PRECISION"
  "\<not> flag (flags AND NOT FLAGS_HASH) FLAGS_HASH"
  by (simp_all add: flag_def flags_defs and.assoc)

lemma flag_hash_kept: "\<not> flag flags FLAGS_HASH \<Longrightarrow>
  flag (if b then flags AND NOT FLAGS_HASH else flags) FLAGS_HASH = False"
  by simp

definition sign_str :: "bool \<Rightarrow> u32 \<Rightarrow> char list" where
  "sign_str negative flags = (if negative then ''-'' else if flag flags FLAGS_PLUS then ''+''
                else if flag flags FLAGS_SPACE then '' '' else [])"

lemma rev_sign [simp]: "rev (sign_str negative flags) = sign_str negative flags"
  by (simp add: sign_str_def)

lemma ntoa_sign_eq: "length buf + length (sign_str negative flags) \<le> PRINTF_NTOA_BUFFER_SIZE \<Longrightarrow>
   ntoa_sign buf negative flags = buf @ sign_str negative flags"
  by (cases negative; cases "flag flags FLAGS_PLUS"; cases "flag flags FLAGS_SPACE")
    (simp_all add: ntoa_sign_def sign_str_def)

lemma zeros_upto_room: "n \<le> PRINTF_NTOA_BUFFER_SIZE \<Longrightarrow>
   zeros_upto buf n = buf @ replicate (n - length buf) (CHR ''0'')"
  by (simp add: zeros_upto_eq min_absorb1)

lemma ntoa_str_standard:
  assumes base: "2 \<le> base" and hash: "\<not> flag flags FLAGS_HASH"
    and room: "length (sign_str negative flags) + max (length (digits base value)) prec \<le> PRINTF_NTOA_BUFFER_SIZE"
    and left: "flag flags FLAGS_LEFT \<Longrightarrow> prec = 0"
    and zero: "flag flags FLAGS_ZEROPAD \<Longrightarrow> width \<le> PRINTF_NTOA_BUFFER_SIZE"
  shows "ntoa_str value negative base prec width flags = std_int_str value negative base prec width flags"
proof -
  define ds where "ds = (if flag flags FLAGS_PRECISION \<and> value = 0 then []
               else map (\<lambda>d. ntoa_digit d flags) (digits base value))"
  define fl where "fl = (if value = 0 then flags AND NOT FLAGS_HASH else flags)"
  have f: "flag fl F = flag flags F" if "F \<in> {FLAGS_LEFT, FLAGS_ZEROPAD, FLAGS_PLUS, FLAGS_SPACE}" for F
    using that by (auto simp: fl_def)
  have h: "\<not> flag fl FLAGS_HASH" using hash by (simp add: fl_def)
  have dig: "ntoa_digit d fl = ntoa_digit d flags" for d by (simp add: ntoa_digit_def fl_def)
  have "length (digits base value) \<le> PRINTF_NTOA_BUFFER_SIZE" using room by simp
  then have "ntoa_digits value base fl [] = rev (map (\<lambda>d. ntoa_digit d fl) (digits base value))"
    using ntoa_digits_eq [OF base, of "[]" "value" fl] by simp
  moreover have "flag fl FLAGS_PRECISION = flag flags FLAGS_PRECISION" by (simp add: fl_def)
  ultimately have start: "ntoa_start value base flags = (rev ds, fl)"
    by (auto simp: ntoa_start_def fl_def [symmetric] ds_def Let_def dig)
  have ds: "length (sign_str negative flags) + max (length ds) prec \<le> PRINTF_NTOA_BUFFER_SIZE"
    using room unfolding ds_def by (cases "flag flags FLAGS_PRECISION \<and> value = 0") auto
  define sg where "sg = sign_str negative flags"
  have sg: "sign_str negative fl = sg" by (simp add: sg_def sign_str_def f)
  have spec: "std_int_str value negative base prec width flags =
    (let body = replicate (prec - length ds) (CHR ''0'') @ ds; fill = width - length sg - length body
     in if flag flags FLAGS_LEFT then sg @ body @ replicate fill (CHR '' '')
        else if flag flags FLAGS_ZEROPAD then sg @ replicate fill (CHR ''0'') @ body
        else replicate fill (CHR '' '') @ sg @ body)"
    by (simp add: std_int_str_def ds_def sg_def sign_str_def Let_def)
  have prec: "prec \<le> PRINTF_NTOA_BUFFER_SIZE" using ds by simp
  have sgn: "ntoa_sign buf negative fl = buf @ sg" if "length buf + length sg \<le> PRINTF_NTOA_BUFFER_SIZE" for buf
    using ntoa_sign_eq [of buf negative fl] that by (simp add: sg)
  have wd: "(if width \<noteq> 0 \<and> flag fl FLAGS_ZEROPAD \<and> (negative \<or> flag fl (FLAGS_PLUS OR FLAGS_SPACE))
      then width - 1 else width) = (if flag flags FLAGS_ZEROPAD then width - length sg else width)"
    by (simp only: flag_or) (auto simp: f sg_def sign_str_def)
  have body: "length ds + (prec - length ds) + length sg \<le> PRINTF_NTOA_BUFFER_SIZE"
    using ds by (simp add: sg_def)
  show ?thesis
  proof (cases "flag flags FLAGS_LEFT")
    case True
    then have "prec = 0" by (rule left)
    moreover have "rev sg = sg" by (simp add: sg_def)
    ultimately show ?thesis unfolding spec using True body
      by (simp add: ntoa_str_def start ntoa_format_buf_def Let_def f h sgn out_rev_str_def)
  next
    case L: False
    show ?thesis
    proof (cases "flag flags FLAGS_ZEROPAD")
      case True
      let ?w = "width - length sg" and ?b = "rev ds @ replicate (prec - length ds) (CHR ''0'')"
      have w: "?w \<le> PRINTF_NTOA_BUFFER_SIZE" "length ?b + (?w - length ?b) + length sg \<le> PRINTF_NTOA_BUFFER_SIZE"
        using zero [OF True] body by auto
      have sgb: "ntoa_sign (?b @ replicate (?w - length ?b) (CHR ''0'')) negative fl
          = (?b @ replicate (?w - length ?b) (CHR ''0'')) @ sg"
        using w(2) by (intro sgn) (simp only: length_append length_replicate)
      have "ntoa_str value negative base prec width flags
          = out_rev_str ((?b @ replicate (?w - length ?b) (CHR ''0'')) @ sg) ?w fl"
        unfolding ntoa_str_def start ntoa_format_buf_def Let_def prod.case wd
        using L True w prec h f
        by (simp add: zeros_upto_room sgb del: length_append append_assoc diff_diff_left)
      then show ?thesis using L True f by (simp add: spec out_rev_str_def Let_def rev_sign sg_def)
    next
      case False
      let ?b = "rev ds @ replicate (prec - length ds) (CHR ''0'')"
      have "ntoa_str value negative base prec width flags = out_rev_str (?b @ sg) width fl"
        unfolding ntoa_str_def start ntoa_format_buf_def Let_def prod.case wd
        using L False body prec h f by (simp add: zeros_upto_room sgn)
      then show ?thesis using L False f by (simp add: spec out_rev_str_def Let_def rev_sign sg_def)
    qed
  qed
qed

end
