(* ===== verification/Double.thy ===== *)
theory Double
  imports Complex_Main
begin

text \<open>
  The C type \<open>double\<close> as the values of IEEE-754 binary64: not-a-number, the infinities and
  the finite numbers, which are rationals.  The sign of zero is left out: no code modelled
  over this type can observe it.  Every arithmetic operation computes the exact result and
  rounds it to the nearest representable number, ties to even; a result beyond the largest
  finite number becomes an infinity.
\<close>

datatype double = NaN | Inf bool | Fin rat

definition pow2 :: "int \<Rightarrow> rat" where
  "pow2 q = (if 0 \<le> q then 2 ^ nat q else 1 / 2 ^ nat (- q))"

text \<open>\<open>ilog2 n\<close> is the position of the highest bit of \<open>n > 0\<close>.\<close>

function ilog2 :: "int \<Rightarrow> int" where
  "ilog2 n = (if n < 2 then 0 else 1 + ilog2 (n div 2))"
  by pat_completeness auto
termination by (relation "measure nat") auto

declare ilog2.simps [simp del]

text \<open>The binary exponent of a positive rational: \<open>pow2 e \<le> a < pow2 (e + 1)\<close>.\<close>

definition binexp :: "rat \<Rightarrow> int" where
  "binexp a = (let (n, d) = quotient_of a; e = ilog2 n - ilog2 d
               in if a < pow2 e then e - 1 else e)"

definition round_half_even :: "rat \<Rightarrow> int" where
  "round_half_even r =
    (let f = \<lfloor>r\<rfloor>; diff = r - of_int f
     in if diff < 1 / 2 then f else if 1 / 2 < diff then f + 1 else if even f then f else f + 1)"

definition fl :: "rat \<Rightarrow> double" where
  "fl x = (if x = 0 then Fin 0 else
     let a = \<bar>x\<bar>; q = max (binexp a - 52) (- 1074);
         r = of_int (round_half_even (a / pow2 q)) * pow2 q
     in if pow2 1024 \<le> r then Inf (x < 0) else Fin (if x < 0 then - r else r))"

fun fneg :: "double \<Rightarrow> double" where
  "fneg NaN = NaN"
| "fneg (Inf s) = Inf (\<not> s)"
| "fneg (Fin x) = Fin (- x)"

fun fadd :: "double \<Rightarrow> double \<Rightarrow> double" where
  "fadd (Fin x) (Fin y) = fl (x + y)"
| "fadd NaN _ = NaN"
| "fadd _ NaN = NaN"
| "fadd (Inf s) (Inf t) = (if s = t then Inf s else NaN)"
| "fadd (Inf s) (Fin y) = Inf s"
| "fadd (Fin x) (Inf t) = Inf t"

definition fsub :: "double \<Rightarrow> double \<Rightarrow> double" where
  "fsub x y = fadd x (fneg y)"

text \<open>Zero times infinity and zero by zero are not-a-number.\<close>

fun fmul :: "double \<Rightarrow> double \<Rightarrow> double" where
  "fmul (Fin x) (Fin y) = fl (x * y)"
| "fmul NaN _ = NaN"
| "fmul _ NaN = NaN"
| "fmul (Inf s) (Inf t) = Inf (s \<noteq> t)"
| "fmul (Inf s) (Fin y) = (if y = 0 then NaN else Inf (s \<noteq> (y < 0)))"
| "fmul (Fin x) (Inf t) = (if x = 0 then NaN else Inf (t \<noteq> (x < 0)))"

text \<open>
  Division; the sign of a zero divisor is not recorded, so a finite number divided by zero
  takes the sign of the dividend.  The modelled code never divides by zero.
\<close>

fun fdiv :: "double \<Rightarrow> double \<Rightarrow> double" where
  "fdiv (Fin x) (Fin y) = (if y = 0 then (if x = 0 then NaN else Inf (x < 0)) else fl (x / y))"
| "fdiv NaN _ = NaN"
| "fdiv _ NaN = NaN"
| "fdiv (Inf s) (Inf t) = NaN"
| "fdiv (Inf s) (Fin y) = Inf (s \<noteq> (y < 0))"
| "fdiv (Fin x) (Inf t) = Fin 0"

fun flt :: "double \<Rightarrow> double \<Rightarrow> bool" where
  "flt (Fin x) (Fin y) = (x < y)"
| "flt NaN _ = False"
| "flt _ NaN = False"
| "flt (Inf s) (Inf t) = (s \<and> \<not> t)"
| "flt (Inf s) (Fin y) = s"
| "flt (Fin x) (Inf t) = (\<not> t)"

fun feq :: "double \<Rightarrow> double \<Rightarrow> bool" where
  "feq (Fin x) (Fin y) = (x = y)"
| "feq (Inf s) (Inf t) = (s = t)"
| "feq _ _ = False"

definition fle :: "double \<Rightarrow> double \<Rightarrow> bool" where
  "fle x y = (flt x y \<or> feq x y)"

text \<open>Conversion to an integer type truncates towards zero; \<open>None\<close> outside the type's range (undefined in C).\<close>

definition trunc_rat :: "rat \<Rightarrow> int" where
  "trunc_rat x = (if x < 0 then - \<lfloor>- x\<rfloor> else \<lfloor>x\<rfloor>)"

definition to_int_in :: "int \<Rightarrow> int \<Rightarrow> double \<Rightarrow> int option" where
  "to_int_in lo hi x = (case x of
     Fin r \<Rightarrow> (let i = trunc_rat r in if lo \<le> i \<and> i \<le> hi then Some i else None)
   | _ \<Rightarrow> None)"

definition of_int_d :: "int \<Rightarrow> double" where
  "of_int_d i = fl (of_int i)"

text \<open>The bit pattern: sign, 11 bits of exponent, 52 bits of fraction.\<close>

definition double_of_bits :: "int \<Rightarrow> double" where
  "double_of_bits u =
    (let s = (u div 2 ^ 63) mod 2 = 1; e = (u div 2 ^ 52) mod 2048; f = u mod 2 ^ 52;
         r = (if e = 0 then of_int f * pow2 (- 1074)
              else (2 ^ 52 + of_int f) * pow2 (e - 1075))
     in if e = 2047 then (if f = 0 then Inf s else NaN) else Fin (if s then - r else r))"

definition bits_of_double :: "double \<Rightarrow> int" where
  "bits_of_double x = (case x of
     NaN \<Rightarrow> 2047 * 2 ^ 52 + 2 ^ 51
   | Inf s \<Rightarrow> (if s then 2 ^ 63 else 0) + 2047 * 2 ^ 52
   | Fin r \<Rightarrow> (if r < 0 then 2 ^ 63 else 0) +
       (if r = 0 then 0
        else let a = \<bar>r\<bar>; e = binexp a
             in if e < - 1022 then \<lfloor>a * pow2 1074\<rfloor>
                else (e + 1023) * 2 ^ 52 + (\<lfloor>a * pow2 (52 - e)\<rfloor> - 2 ^ 52)))"

definition DBL_MAX :: double where
  "DBL_MAX = Fin ((2 ^ 53 - 1) * pow2 971)"

end
