(* ===== verification/Printf_Float.thy ===== *)
theory Printf_Float
  imports Printf_Int Double
begin

text \<open>
  The floating-point half of \<open>shim/printf/printf.c\<close>: \<open>_ftoa\<close> and \<open>_etoa\<close> over the
  binary64 values of theory \<open>Double\<close>, with every operation rounded as the machine rounds it.
  \<open>None\<close> stands for undefined behaviour (a conversion out of range, a read past the table of
  powers) and, in the mutual recursion, for exhausted fuel.
\<close>

section \<open>The digits of a fixed-point number\<close>

definition PRINTF_FTOA_BUFFER_SIZE :: nat where "PRINTF_FTOA_BUFFER_SIZE = 32"
definition PRINTF_DEFAULT_FLOAT_PRECISION :: nat where "PRINTF_DEFAULT_FLOAT_PRECISION = 6"
definition PRINTF_MAX_FLOAT :: double where "PRINTF_MAX_FLOAT = Fin 1000000000"

definition pow10 :: "double list" where
  "pow10 = map Fin [1, 10, 100, 1000, 10000, 100000, 1000000, 10000000, 100000000, 1000000000]"

text \<open>\<open>while ((len < PRINTF_FTOA_BUFFER_SIZE) && (prec > 9U)) { buf[len++] = '0'; prec--; }\<close>\<close>

function ftoa_limit :: "char list \<Rightarrow> nat \<Rightarrow> char list \<times> nat" where
  "ftoa_limit buf prec =
    (if length buf < PRINTF_FTOA_BUFFER_SIZE \<and> 9 < prec
     then ftoa_limit (buf @ [CHR ''0'']) (prec - 1) else (buf, prec))"
  by pat_completeness auto
termination by (relation "measure snd") auto

text \<open>\<open>tmp\<close>, \<open>frac\<close> and the rounding of \<open>frac\<close> and \<open>whole\<close>.\<close>

definition ftoa_round :: "double \<Rightarrow> nat \<Rightarrow> (nat \<times> nat) option" where
  "ftoa_round value prec =
    (case to_int_in (- (2 ^ 31)) (2 ^ 31 - 1) value of None \<Rightarrow> None | Some w \<Rightarrow>
     if length pow10 \<le> prec then None else
     let tmp = fmul (fsub value (of_int_d w)) (pow10 ! prec)
     in case to_int_in 0 (2 ^ 32 - 1) tmp of None \<Rightarrow> None | Some f \<Rightarrow>
     let diff = fsub tmp (of_int_d f); whole = nat w; frc = nat f
     in if flt (Fin (1 / 2)) diff then
          (let frc = (frc + 1) mod 2 ^ 32
           in if fle (pow10 ! prec) (of_int_d (int frc)) then Some (whole + 1, 0) else Some (whole, frc))
        else if flt diff (Fin (1 / 2)) then Some (whole, frc)
        else if frc = 0 \<or> odd frc then Some (whole, (frc + 1) mod 2 ^ 32)
        else Some (whole, frc))"

text \<open>The loop that writes the digits of \<open>frac\<close>; \<open>count\<close> is an \<open>unsigned int\<close> and wraps below 0.\<close>

function ftoa_frac :: "char list \<Rightarrow> nat \<Rightarrow> nat \<Rightarrow> char list \<times> nat" where
  "ftoa_frac buf count frc =
    (if length buf < PRINTF_FTOA_BUFFER_SIZE then
       (let count = (count + (2 ^ 32 - 1)) mod 2 ^ 32;
            buf = buf @ [char_of (48 + frc mod 10)]; frc = frc div 10
        in if frc = 0 then (buf, count) else ftoa_frac buf count frc)
     else (buf, count))"
  by pat_completeness auto
termination by (relation "measure (\<lambda>(buf, count, frc). PRINTF_FTOA_BUFFER_SIZE - length buf)") auto

text \<open>\<open>while ((len < PRINTF_FTOA_BUFFER_SIZE) && (count-- > 0U)) buf[len++] = '0'\<close>\<close>

function ftoa_zeros :: "char list \<Rightarrow> nat \<Rightarrow> char list" where
  "ftoa_zeros buf count =
    (if length buf < PRINTF_FTOA_BUFFER_SIZE \<and> 0 < count
     then ftoa_zeros (buf @ [CHR ''0'']) (count - 1) else buf)"
  by pat_completeness auto
termination by (relation "measure snd") auto

text \<open>The loop that writes the digits of \<open>whole\<close>.\<close>

function ftoa_whole :: "char list \<Rightarrow> nat \<Rightarrow> char list" where
  "ftoa_whole buf whole =
    (if length buf < PRINTF_FTOA_BUFFER_SIZE then
       (let buf = buf @ [char_of (48 + whole mod 10)]; whole = whole div 10
        in if whole = 0 then buf else ftoa_whole buf whole)
     else buf)"
  by pat_completeness auto
termination by (relation "measure (\<lambda>(buf, whole). PRINTF_FTOA_BUFFER_SIZE - length buf)") auto

declare ftoa_limit.simps [simp del] ftoa_frac.simps [simp del] ftoa_zeros.simps [simp del]
  ftoa_whole.simps [simp del]

text \<open>The digits, with the decimal point; \<open>value\<close> is not negative.\<close>

definition ftoa_digits :: "double \<Rightarrow> nat \<Rightarrow> char list option" where
  "ftoa_digits value prec =
    (let (buf, prec) = ftoa_limit [] prec
     in case ftoa_round value prec of None \<Rightarrow> None | Some (whole, frc) \<Rightarrow>
        if prec = 0 then
          (let diff = fsub value (of_int_d (int whole));
               whole = (if (\<not> flt diff (Fin (1 / 2)) \<or> flt (Fin (1 / 2)) diff) \<and> odd whole
                        then whole + 1 else whole)
           in Some (ftoa_whole buf whole))
        else
          (let (buf, count) = ftoa_frac buf prec frc;
               buf = ftoa_zeros buf count;
               buf = (if length buf < PRINTF_FTOA_BUFFER_SIZE then buf @ [CHR ''.''] else buf)
           in Some (ftoa_whole buf whole)))"

text \<open>Zero padding and the sign.\<close>

definition ftoa_finish :: "char list \<Rightarrow> bool \<Rightarrow> nat \<Rightarrow> u32 \<Rightarrow> char list \<times> nat" where
  "ftoa_finish buf negative width flags =
    (let (buf, width) =
       (if \<not> flag flags FLAGS_LEFT \<and> flag flags FLAGS_ZEROPAD then
          (let width = (if width \<noteq> 0 \<and> (negative \<or> flag flags (FLAGS_PLUS OR FLAGS_SPACE))
                        then width - 1 else width)
           in (ftoa_zeros buf (width - length buf), width))
        else (buf, width));
       buf = (if length buf < PRINTF_FTOA_BUFFER_SIZE then
                (if negative then buf @ [CHR ''-'']
                 else if flag flags FLAGS_PLUS then buf @ [CHR ''+'']
                 else if flag flags FLAGS_SPACE then buf @ [CHR '' ''] else buf)
              else buf)
     in (buf, width))"

section \<open>The decimal exponent\<close>

text \<open>
  The first estimate of the decimal exponent \<open>expval\<close> and of \<open>10 ^ expval\<close>
  (\<open>conv.F\<close>), for a finite value that is not negative.
\<close>

definition etoa_exponent :: "double \<Rightarrow> (int \<times> double) option" where
  "etoa_exponent value =
    (let U = bits_of_double value;
         exp2 = (U div 2 ^ 52) mod 2048 - 1023;
         F = double_of_bits (U mod 2 ^ 52 + 1023 * 2 ^ 52)
     in case to_int_in (- (2 ^ 31)) (2 ^ 31 - 1)
          (fadd (fadd (fl (1760912590558 / 10 ^ 13)) (fmul (of_int_d exp2) (fl (301029995663981 / 10 ^ 15))))
                (fmul (fsub F (fl (3 / 2))) (fl (289529654602168 / 10 ^ 15)))) of
        None \<Rightarrow> None | Some expval \<Rightarrow>
        case to_int_in (- (2 ^ 31)) (2 ^ 31 - 1)
          (fadd (fmul (of_int_d expval) (fl (3321928094887362 / 10 ^ 15))) (fl (1 / 2))) of
        None \<Rightarrow> None | Some exp2 \<Rightarrow>
        let z = fsub (fmul (of_int_d expval) (fl (2302585092994046 / 10 ^ 15)))
                     (fmul (of_int_d exp2) (fl (6931471805599453 / 10 ^ 16)));
            z2 = fmul z z;
            F = double_of_bits (((exp2 + 1023) mod 2 ^ 64 * 2 ^ 52) mod 2 ^ 64);
            F = fmul F (fadd (Fin 1)
                  (fdiv (fmul (Fin 2) z)
                    (fadd (fsub (Fin 2) z)
                      (fdiv z2 (fadd (Fin 6) (fdiv z2 (fadd (Fin 10) (fdiv z2 (Fin 14)))))))))
        in if flt value F then Some (expval - 1, fdiv F (Fin 10)) else Some (expval, F))"

text \<open>
  The \<open>%g\<close> adjustments: the new precision, flags, minimal exponent width and exponent.
  \<open>minwidth\<close> is 0 when the number is printed without an exponent.
\<close>

definition etoa_adapt :: "double \<Rightarrow> int \<Rightarrow> nat \<Rightarrow> u32 \<Rightarrow> nat \<times> u32 \<times> nat \<times> int" where
  "etoa_adapt value expval prec flags =
    (let minwidth = (if expval < 100 \<and> - 100 < expval then 4 else 5)
     in if flag flags FLAGS_ADAPT_EXP then
          (if fle (fl (1 / 10000)) value \<and> flt value (Fin 1000000) then
             (if expval < sint (of_nat prec :: u32) then nat (sint (of_nat prec :: u32) - expval - 1) else 0,
              flags OR FLAGS_PRECISION, 0, 0)
           else (if 0 < prec \<and> flag flags FLAGS_PRECISION then prec - 1 else prec,
                 flags, minwidth, expval))
        else (prec, flags, minwidth, expval))"

definition etoa_fwidth :: "nat \<Rightarrow> nat \<Rightarrow> u32 \<Rightarrow> nat" where
  "etoa_fwidth width minwidth flags =
    (let fwidth = (if minwidth < width then width - minwidth else 0)
     in if flag flags FLAGS_LEFT \<and> minwidth \<noteq> 0 then 0 else fwidth)"

section \<open>The two conversions\<close>

text \<open>\<open>_ftoa\<close> behind the tests for special and very large values: \<open>buf\<close> and \<open>width\<close> for \<open>_out_rev\<close>.\<close>

definition ftoa_fixed :: "double \<Rightarrow> nat \<Rightarrow> nat \<Rightarrow> u32 \<Rightarrow> (char list \<times> nat) option" where
  "ftoa_fixed value prec width flags =
    (let negative = flt value (Fin 0);
         value = (if negative then fsub (Fin 0) value else value);
         prec = (if \<not> flag flags FLAGS_PRECISION then PRINTF_DEFAULT_FLOAT_PRECISION else prec)
     in map_option (\<lambda>buf. ftoa_finish buf negative width flags) (ftoa_digits value prec))"

text \<open>
  \<open>_etoa\<close> up to the call of \<open>_ftoa\<close>: the rescaled value, its precision and width, the
  flags, \<open>minwidth\<close> and \<open>expval\<close>.
\<close>

definition etoa_scale ::
  "double \<Rightarrow> nat \<Rightarrow> nat \<Rightarrow> u32 \<Rightarrow> (double \<times> nat \<times> nat \<times> u32 \<times> nat \<times> int) option" where
  "etoa_scale value prec width flags =
    (let negative = flt value (Fin 0);
         value = (if negative then fneg value else value);
         prec = (if \<not> flag flags FLAGS_PRECISION then PRINTF_DEFAULT_FLOAT_PRECISION else prec)
     in case etoa_exponent value of None \<Rightarrow> None | Some (expval, F) \<Rightarrow>
        let (prec, flags, minwidth, expval) = etoa_adapt value expval prec flags;
            fwidth = etoa_fwidth width minwidth flags;
            value = (if expval \<noteq> 0 then fdiv value F else value)
        in Some (if negative then fneg value else value, prec, fwidth, flags, minwidth, expval))"

text \<open>The exponent part.\<close>

definition etoa_tail ::
  "'s out_fct \<Rightarrow> u32 \<Rightarrow> u32 \<Rightarrow> nat \<Rightarrow> u32 \<Rightarrow> nat \<Rightarrow> int \<Rightarrow> u32 \<times> 's \<Rightarrow> u32 \<times> 's" where
  "etoa_tail out maxlen start_idx width flags minwidth expval st =
    (if minwidth \<noteq> 0 then
       (let st = emit out maxlen [if flag flags FLAGS_UPPERCASE then CHR ''E'' else CHR ''e''] st;
            st = ntoa_long out maxlen (of_int \<bar>expval\<bar>) (expval < 0) 10 0 (minwidth - 1)
                   (FLAGS_ZEROPAD OR FLAGS_PLUS) st
        in if flag flags FLAGS_LEFT then pad_from out maxlen start_idx width st else st)
     else st)"

fun ftoa :: "nat \<Rightarrow> 's out_fct \<Rightarrow> u32 \<Rightarrow> double \<Rightarrow> nat \<Rightarrow> nat \<Rightarrow> u32 \<Rightarrow> u32 \<times> 's \<Rightarrow> (u32 \<times> 's) option"
and etoa :: "nat \<Rightarrow> 's out_fct \<Rightarrow> u32 \<Rightarrow> double \<Rightarrow> nat \<Rightarrow> nat \<Rightarrow> u32 \<Rightarrow> u32 \<times> 's \<Rightarrow> (u32 \<times> 's) option"
where
  "ftoa 0 out maxlen value prec width flags st = None"
| "etoa 0 out maxlen value prec width flags st = None"
| "ftoa (Suc fuel) out maxlen value prec width flags st =
    (if \<not> feq value value then Some (out_rev out maxlen ''nan'' width flags st)
     else if flt value (fneg DBL_MAX) then Some (out_rev out maxlen ''fni-'' width flags st)
     else if flt DBL_MAX value then
       Some (out_rev out maxlen (if flag flags FLAGS_PLUS then ''fni+'' else ''fni'') width flags st)
     else if flt PRINTF_MAX_FLOAT value \<or> flt value (fneg PRINTF_MAX_FLOAT) then
       etoa fuel out maxlen value prec width flags st
     else
       (case ftoa_fixed value prec width flags of None \<Rightarrow> None
        | Some (buf, width) \<Rightarrow> Some (out_rev out maxlen buf width flags st)))"
| "etoa (Suc fuel) out maxlen value prec width flags st =
    (if \<not> feq value value \<or> flt DBL_MAX value \<or> flt value (fneg DBL_MAX) then
       ftoa fuel out maxlen value prec width flags st
     else
       (case etoa_scale value prec width flags of None \<Rightarrow> None
        | Some (value, prec, fwidth, flags, minwidth, expval) \<Rightarrow>
          (case ftoa fuel out maxlen value prec fwidth (flags AND NOT FLAGS_ADAPT_EXP) st of None \<Rightarrow> None
           | Some st' \<Rightarrow> Some (etoa_tail out maxlen (fst st) width flags minwidth expval st'))))"

section \<open>Conversions that go wrong\<close>

lemma ftoa_zeros_eq: "ftoa_zeros buf n = buf @ replicate (min n (PRINTF_FTOA_BUFFER_SIZE - length buf)) (CHR ''0'')"
proof (induction n arbitrary: buf)
  case (Suc n)
  show ?case
  proof (cases "length buf < PRINTF_FTOA_BUFFER_SIZE")
    case True
    then have "PRINTF_FTOA_BUFFER_SIZE - length buf = Suc (PRINTF_FTOA_BUFFER_SIZE - Suc (length buf))" by simp
    with True show ?thesis by (subst ftoa_zeros.simps) (simp add: Suc)
  qed (subst ftoa_zeros.simps, simp)
qed (subst ftoa_zeros.simps, simp)

text \<open>
  A fraction that lies halfway and rounds up to a power of ten (\<open>%.1f\<close> of 0.95, whose product
  with ten is 9.5) gets one digit too many: the digit counter wraps below 0 and the buffer is
  filled with zeros.  The digits are listed from the last one on.
\<close>

lemma halfway_has_no_rollover:
  assumes "to_int_in (- (2 ^ 31)) (2 ^ 31 - 1) value = Some 0"
    and "fmul (fsub value (of_int_d 0)) (pow10 ! 1) = Fin (19 / 2)"
  shows "ftoa_digits value 1 = Some (''01'' @ replicate 30 (CHR ''0''))"
proof -
  have "to_int_in 0 (2 ^ 32 - 1) (Fin (19 / 2)) = Some 9" by code_simp
  moreover have "fsub (Fin (19 / 2)) (of_int_d 9) = Fin (1 / 2)" by code_simp
  moreover have "length pow10 = 10" by (simp add: pow10_def)
  ultimately have "ftoa_round value 1 = Some (0, 10)" using assms by (simp add: ftoa_round_def)
  moreover have "ftoa_limit [] 1 = ([], 1)" by (subst ftoa_limit.simps) simp
  moreover have "char_of (48 :: nat) = CHR ''0''" "char_of (49 :: nat) = CHR ''1''" by code_simp+
  moreover from this have "ftoa_frac [] 1 10 = (''01'', 2 ^ 32 - 1)"
    by (simp add: ftoa_frac.simps PRINTF_FTOA_BUFFER_SIZE_def Let_def)
  ultimately show ?thesis
    by (simp add: ftoa_digits_def ftoa_zeros_eq PRINTF_FTOA_BUFFER_SIZE_def ftoa_whole.simps)
qed

text \<open>A precision of 42 or more is not reduced to the table of powers of ten and is read beyond its end.\<close>

lemma snd_ftoa_limit: "snd (ftoa_limit buf prec) = (if prec \<le> 9 then prec else max 9 (prec - (PRINTF_FTOA_BUFFER_SIZE - length buf)))"
proof (induction buf prec rule: ftoa_limit.induct)
  case (1 buf prec)
  then show ?case by (subst ftoa_limit.simps) auto
qed

lemma long_precision_overreads:
  "42 \<le> prec \<Longrightarrow> ftoa_digits value prec = None"
  using snd_ftoa_limit [of "[]" prec]
  by (auto simp: ftoa_digits_def ftoa_round_def PRINTF_FTOA_BUFFER_SIZE_def pow10_def split: prod.splits option.splits)
end
