(* ===== verification/Printf.thy ===== *)
theory Printf
  imports Printf_Float
begin

text \<open>
  The formatter \<open>_vsnprintf\<close> of \<open>shim/printf/printf.c\<close> and the entry points built on it.
  One iteration of the loop is \<open>directive\<close>; its parts read the flags, the width, the
  precision and the length, and convert one argument.  The format and every string argument
  are lists of the bytes that can be read from the pointer on (terminator included); reading
  beyond the list, fetching an argument of the wrong size and the undefined conversions of
  \<open>Printf_Float\<close> give \<open>None\<close>.  Signed negation takes the two's complement value.
\<close>

section \<open>Variable arguments\<close>

text \<open>
  An argument list as \<open>va_arg\<close> sees it on wasm32: 32-bit slots (\<open>int\<close>, \<open>long\<close>,
  \<open>size_t\<close>, pointers printed by \<open>%p\<close>), 64-bit slots, doubles and strings.
\<close>

datatype va_value = VI32 u32 | VI64 u64 | VDouble double | VStr "char list"

fun va_i32 :: "va_value list \<Rightarrow> (u32 \<times> va_value list) option" where
  "va_i32 (VI32 w # va) = Some (w, va)"
| "va_i32 va = None"

fun va_i64 :: "va_value list \<Rightarrow> (u64 \<times> va_value list) option" where
  "va_i64 (VI64 w # va) = Some (w, va)"
| "va_i64 va = None"

fun va_double :: "va_value list \<Rightarrow> (double \<times> va_value list) option" where
  "va_double (VDouble x # va) = Some (x, va)"
| "va_double va = None"

fun va_str :: "va_value list \<Rightarrow> (char list \<times> va_value list) option" where
  "va_str (VStr p # va) = Some (p, va)"
| "va_str va = None"

section \<open>Reading a conversion specification\<close>

fun eval_flags :: "char list \<Rightarrow> u32 \<Rightarrow> (u32 \<times> char list) option" where
  "eval_flags [] flags = None"
| "eval_flags (c # format) flags =
    (if c = CHR ''0'' then eval_flags format (flags OR FLAGS_ZEROPAD)
     else if c = CHR ''-'' then eval_flags format (flags OR FLAGS_LEFT)
     else if c = CHR ''+'' then eval_flags format (flags OR FLAGS_PLUS)
     else if c = CHR '' '' then eval_flags format (flags OR FLAGS_SPACE)
     else if c = CHR ''#'' then eval_flags format (flags OR FLAGS_HASH)
     else Some (flags, c # format))"

definition eval_width ::
  "char list \<Rightarrow> va_value list \<Rightarrow> u32 \<Rightarrow> (nat \<times> u32 \<times> char list \<times> va_value list) option" where
  "eval_width format va flags =
    (case format of [] \<Rightarrow> None | c # rest \<Rightarrow>
       if is_digit c then
         (case atoi format of None \<Rightarrow> None | Some (width, format) \<Rightarrow> Some (width, flags, format, va))
       else if c = CHR ''*'' then
         (case va_i32 va of None \<Rightarrow> None | Some (w, va) \<Rightarrow>
            if sint w < 0 then Some (unat (- w), flags OR FLAGS_LEFT, rest, va)
            else Some (unat w, flags, rest, va))
       else Some (0, flags, format, va))"

definition eval_precision ::
  "char list \<Rightarrow> va_value list \<Rightarrow> u32 \<Rightarrow> (nat \<times> u32 \<times> char list \<times> va_value list) option" where
  "eval_precision format va flags =
    (case format of [] \<Rightarrow> None | c # rest \<Rightarrow>
       if c = CHR ''.'' then
         (let flags = flags OR FLAGS_PRECISION
          in case rest of [] \<Rightarrow> None | d # rest' \<Rightarrow>
             if is_digit d then
               (case atoi rest of None \<Rightarrow> None
                | Some (precision, format) \<Rightarrow> Some (precision, flags, format, va))
             else if d = CHR ''*'' then
               (case va_i32 va of None \<Rightarrow> None | Some (prec, va) \<Rightarrow>
                  Some (if 0 < sint prec then unat prec else 0, flags, rest', va))
             else Some (0, flags, rest, va))
       else Some (0, flags, format, va))"

text \<open>On wasm32 \<open>ptrdiff_t\<close> and \<open>size_t\<close> have the size of \<open>long\<close>, \<open>intmax_t\<close> has not.\<close>

definition eval_length :: "char list \<Rightarrow> u32 \<Rightarrow> (u32 \<times> char list) option" where
  "eval_length format flags =
    (case format of [] \<Rightarrow> None | c # rest \<Rightarrow>
       if c = CHR ''l'' then
         (let flags = flags OR FLAGS_LONG
          in case rest of [] \<Rightarrow> None | d # rest' \<Rightarrow>
             if d = CHR ''l'' then Some (flags OR FLAGS_LONG_LONG, rest') else Some (flags, rest))
       else if c = CHR ''h'' then
         (let flags = flags OR FLAGS_SHORT
          in case rest of [] \<Rightarrow> None | d # rest' \<Rightarrow>
             if d = CHR ''h'' then Some (flags OR FLAGS_CHAR, rest') else Some (flags, rest))
       else if c = CHR ''t'' then Some (flags OR FLAGS_LONG, rest)
       else if c = CHR ''j'' then Some (flags OR FLAGS_LONG_LONG, rest)
       else if c = CHR ''z'' then Some (flags OR FLAGS_LONG, rest)
       else Some (flags, format))"

section \<open>Conversions\<close>

definition int_base :: "char \<Rightarrow> nat" where
  "int_base c = (if c = CHR ''x'' \<or> c = CHR ''X'' then 16 else if c = CHR ''o'' then 8
     else if c = CHR ''b'' then 2 else 10)"

definition int_flags :: "char \<Rightarrow> u32 \<Rightarrow> u32" where
  "int_flags c flags =
    (let flags = (if int_base c = 10 then flags AND NOT FLAGS_HASH else flags);
         flags = (if c = CHR ''X'' then flags OR FLAGS_UPPERCASE else flags);
         flags = (if c \<noteq> CHR ''i'' \<and> c \<noteq> CHR ''d'' then flags AND NOT (FLAGS_PLUS OR FLAGS_SPACE) else flags)
     in if flag flags FLAGS_PRECISION then flags AND NOT FLAGS_ZEROPAD else flags)"

text \<open>\<open>value > 0 ? value : 0 - value\<close>, read as unsigned\<close>

definition magnitude :: "'n::len word \<Rightarrow> 'n word" where
  "magnitude value = (if 0 < sint value then value else 0 - value)"

definition narrow_signed :: "u32 \<Rightarrow> u32 \<Rightarrow> u32" where
  "narrow_signed flags w =
    (if flag flags FLAGS_CHAR then scast (ucast w :: u8)
     else if flag flags FLAGS_SHORT then scast (ucast w :: u16) else w)"

definition narrow_unsigned :: "u32 \<Rightarrow> u32 \<Rightarrow> u32" where
  "narrow_unsigned flags w =
    (if flag flags FLAGS_CHAR then ucast (ucast w :: u8)
     else if flag flags FLAGS_SHORT then ucast (ucast w :: u16) else w)"

definition conv_int ::
  "'s out_fct \<Rightarrow> u32 \<Rightarrow> char \<Rightarrow> va_value list \<Rightarrow> nat \<Rightarrow> nat \<Rightarrow> u32 \<Rightarrow> u32 \<times> 's
    \<Rightarrow> ((u32 \<times> 's) \<times> va_value list) option" where
  "conv_int out maxlen c va precision width flags st =
    (let base = int_base c; flags = int_flags c flags
     in if c = CHR ''i'' \<or> c = CHR ''d'' then
          (if flag flags FLAGS_LONG_LONG then
             (case va_i64 va of None \<Rightarrow> None | Some (value, va) \<Rightarrow>
                Some (ntoa_long_long out maxlen (magnitude value) (sint value < 0) base precision width flags st, va))
           else if flag flags FLAGS_LONG then
             (case va_i32 va of None \<Rightarrow> None | Some (value, va) \<Rightarrow>
                Some (ntoa_long out maxlen (magnitude value) (sint value < 0) base precision width flags st, va))
           else
             (case va_i32 va of None \<Rightarrow> None | Some (w, va) \<Rightarrow>
                let value = narrow_signed flags w
                in Some (ntoa_long out maxlen (magnitude value) (sint value < 0) base precision width flags st, va)))
        else
          (if flag flags FLAGS_LONG_LONG then
             (case va_i64 va of None \<Rightarrow> None | Some (value, va) \<Rightarrow>
                Some (ntoa_long_long out maxlen value False base precision width flags st, va))
           else if flag flags FLAGS_LONG then
             (case va_i32 va of None \<Rightarrow> None | Some (value, va) \<Rightarrow>
                Some (ntoa_long out maxlen value False base precision width flags st, va))
           else
             (case va_i32 va of None \<Rightarrow> None | Some (w, va) \<Rightarrow>
                Some (ntoa_long out maxlen (narrow_unsigned flags w) False base precision width flags st, va))))"

text \<open>Depth of the mutual recursion of \<open>_ftoa\<close> and \<open>_etoa\<close> that a conversion may use.\<close>

definition FLOAT_FUEL :: nat where "FLOAT_FUEL = 4"

definition conv_float ::
  "'s out_fct \<Rightarrow> u32 \<Rightarrow> char \<Rightarrow> va_value list \<Rightarrow> nat \<Rightarrow> nat \<Rightarrow> u32 \<Rightarrow> u32 \<times> 's
    \<Rightarrow> ((u32 \<times> 's) \<times> va_value list) option" where
  "conv_float out maxlen c va precision width flags st =
    (case va_double va of None \<Rightarrow> None | Some (x, va) \<Rightarrow>
       map_option (\<lambda>st. (st, va))
        (if c = CHR ''f'' \<or> c = CHR ''F'' then
           ftoa FLOAT_FUEL out maxlen x precision width
             (if c = CHR ''F'' then flags OR FLAGS_UPPERCASE else flags) st
         else
           (let flags = (if c = CHR ''g'' \<or> c = CHR ''G'' then flags OR FLAGS_ADAPT_EXP else flags);
                flags = (if c = CHR ''E'' \<or> c = CHR ''G'' then flags OR FLAGS_UPPERCASE else flags)
            in etoa FLOAT_FUEL out maxlen x precision width flags st)))"

text \<open>\<open>while (l++ < width)\<close> starting at \<open>l = 1\<close>.\<close>

definition conv_char ::
  "'s out_fct \<Rightarrow> u32 \<Rightarrow> va_value list \<Rightarrow> nat \<Rightarrow> u32 \<Rightarrow> u32 \<times> 's
    \<Rightarrow> ((u32 \<times> 's) \<times> va_value list) option" where
  "conv_char out maxlen va width flags st =
    (let st = (if \<not> flag flags FLAGS_LEFT then pad_upto out maxlen 1 width st else st)
     in case va_i32 va of None \<Rightarrow> None | Some (w, va) \<Rightarrow>
        let st = emit out maxlen [char_of (unat w)] st;
            st = (if flag flags FLAGS_LEFT then pad_upto out maxlen 1 width st else st)
        in Some (st, va))"

text \<open>\<open>while ((*p != 0) && (!(flags & FLAGS_PRECISION) || precision--)) out(*(p++), ...)\<close>\<close>

fun str_loop :: "'s out_fct \<Rightarrow> u32 \<Rightarrow> char list \<Rightarrow> bool \<Rightarrow> nat \<Rightarrow> u32 \<times> 's \<Rightarrow> (u32 \<times> 's) option" where
  "str_loop out maxlen [] limited precision st = None"
| "str_loop out maxlen (c # p) limited precision st =
    (if c \<noteq> CHR 0x00 \<and> (\<not> limited \<or> precision \<noteq> 0)
     then str_loop out maxlen p limited (precision - 1) (emit out maxlen [c] st)
     else Some st)"

definition conv_str ::
  "'s out_fct \<Rightarrow> u32 \<Rightarrow> va_value list \<Rightarrow> nat \<Rightarrow> nat \<Rightarrow> u32 \<Rightarrow> u32 \<times> 's
    \<Rightarrow> ((u32 \<times> 's) \<times> va_value list) option" where
  "conv_str out maxlen va precision width flags st =
    (case va_str va of None \<Rightarrow> None | Some (p, va) \<Rightarrow>
     case strnlen_s p (if precision \<noteq> 0 then precision else 2 ^ 32 - 1) of None \<Rightarrow> None | Some l \<Rightarrow>
     let l = (if flag flags FLAGS_PRECISION then (if l < precision then l else precision) else l);
         st = (if \<not> flag flags FLAGS_LEFT then pad_upto out maxlen l width st else st)
     in case str_loop out maxlen p (flag flags FLAGS_PRECISION) precision st of None \<Rightarrow> None | Some st \<Rightarrow>
        Some (if flag flags FLAGS_LEFT then pad_upto out maxlen l width st else st, va))"

definition conv_ptr ::
  "'s out_fct \<Rightarrow> u32 \<Rightarrow> va_value list \<Rightarrow> nat \<Rightarrow> u32 \<Rightarrow> u32 \<times> 's
    \<Rightarrow> ((u32 \<times> 's) \<times> va_value list) option" where
  "conv_ptr out maxlen va precision flags st =
    (let width = 8; flags = flags OR (FLAGS_ZEROPAD OR FLAGS_UPPERCASE)
     in case va_i32 va of None \<Rightarrow> None | Some (w, va) \<Rightarrow>
        Some (ntoa_long out maxlen w False 16 precision width flags st, va))"

text \<open>The switch on the conversion character.\<close>

definition conv ::
  "'s out_fct \<Rightarrow> u32 \<Rightarrow> char \<Rightarrow> va_value list \<Rightarrow> nat \<Rightarrow> nat \<Rightarrow> u32 \<Rightarrow> u32 \<times> 's
    \<Rightarrow> ((u32 \<times> 's) \<times> va_value list) option" where
  "conv out maxlen c va precision width flags st =
    (if c \<in> {CHR ''d'', CHR ''i'', CHR ''u'', CHR ''x'', CHR ''X'', CHR ''o'', CHR ''b''} then
       conv_int out maxlen c va precision width flags st
     else if c \<in> {CHR ''f'', CHR ''F'', CHR ''e'', CHR ''E'', CHR ''g'', CHR ''G''} then
       conv_float out maxlen c va precision width flags st
     else if c = CHR ''c'' then conv_char out maxlen va width flags st
     else if c = CHR ''s'' then conv_str out maxlen va precision width flags st
     else if c = CHR ''p'' then conv_ptr out maxlen va precision flags st
     else if c = CHR ''%'' then Some (emit out maxlen ''%'' st, va)
     else Some (emit out maxlen [c] st, va))"

text \<open>One directive; \<open>format\<close> stands behind the \<open>%\<close>.\<close>

definition directive ::
  "'s out_fct \<Rightarrow> u32 \<Rightarrow> char list \<Rightarrow> va_value list \<Rightarrow> u32 \<times> 's
    \<Rightarrow> ((u32 \<times> 's) \<times> char list \<times> va_value list) option" where
  "directive out maxlen format va st =
    (case eval_flags format 0 of None \<Rightarrow> None | Some (flags, format) \<Rightarrow>
     case eval_width format va flags of None \<Rightarrow> None | Some (width, flags, format, va) \<Rightarrow>
     case eval_precision format va flags of None \<Rightarrow> None | Some (precision, flags, format, va) \<Rightarrow>
     case eval_length format flags of None \<Rightarrow> None | Some (flags, format) \<Rightarrow>
     case format of [] \<Rightarrow> None | c # format \<Rightarrow>
     case conv out maxlen c va precision width flags st of None \<Rightarrow> None | Some (st, va) \<Rightarrow>
     Some (st, format, va))"

lemma eval_flags_length: "eval_flags format flags = Some (flags', format') \<Longrightarrow> length format' \<le> length format"
  by (induction format flags rule: eval_flags.induct) (auto split: if_splits)

lemma atoi_loop_length: "atoi_loop str i = Some (n, str') \<Longrightarrow> length str' \<le> length str"
  by (induction str i rule: atoi_loop.induct) (auto split: if_splits)

lemma eval_width_length:
  "eval_width format va flags = Some (width, flags', format', va') \<Longrightarrow> length format' \<le> length format"
  by (auto simp: eval_width_def atoi_def dest!: atoi_loop_length split: list.splits if_splits option.splits)

lemma eval_precision_length:
  "eval_precision format va flags = Some (p, flags', format', va') \<Longrightarrow> length format' \<le> length format"
  by (auto simp: eval_precision_def Let_def atoi_def dest!: atoi_loop_length
      split: list.splits if_splits option.splits)

lemma eval_length_length:
  "eval_length format flags = Some (flags', format') \<Longrightarrow> length format' \<le> length format"
  by (auto simp: eval_length_def Let_def split: list.splits if_splits)

lemma directive_length:
  "directive out maxlen format va st = Some (st', format', va') \<Longrightarrow> length format' < length format"
  unfolding directive_def
  by (auto split: option.splits list.splits prod.splits
      dest!: eval_flags_length eval_width_length eval_precision_length eval_length_length)

function vsnprintf_loop ::
  "'s out_fct \<Rightarrow> u32 \<Rightarrow> char list \<Rightarrow> va_value list \<Rightarrow> u32 \<times> 's \<Rightarrow> (u32 \<times> 's) option" where
  "vsnprintf_loop out maxlen format va st =
    (case format of [] \<Rightarrow> None | c # rest \<Rightarrow>
       if c = CHR 0x00 then Some st
       else if c \<noteq> CHR ''%'' then vsnprintf_loop out maxlen rest va (emit out maxlen [c] st)
       else case directive out maxlen rest va st of None \<Rightarrow> None
            | Some (st, format, va) \<Rightarrow> vsnprintf_loop out maxlen format va st)"
  by pat_completeness auto
termination
  by (relation "measure (\<lambda>(out, maxlen, format, va, st). length format)")
    (auto dest!: directive_length)

declare vsnprintf_loop.simps [simp del]


section \<open>The sink does not influence the text\<close>

text \<open>A sink that collects every character; running a function on it gives the text it emits.\<close>

definition collect :: "string out_fct" where
  "collect c idx maxlen s = s @ [c]"

lemma emit_collect [simp]: "emit collect m s st = (fst st + of_nat (length s), snd st @ s)"
  by (induction s arbitrary: st) (simp_all add: emit_Cons' collect_def)

lemma length_ftoa_limit: "length (fst (ftoa_limit buf prec)) \<le> max (length buf) PRINTF_FTOA_BUFFER_SIZE"
  by (induction buf prec rule: ftoa_limit.induct) (subst ftoa_limit.simps, auto)

lemma length_ftoa_frac: "length (fst (ftoa_frac buf count f)) \<le> max (length buf) PRINTF_FTOA_BUFFER_SIZE"
  by (induction buf count f rule: ftoa_frac.induct) (subst ftoa_frac.simps, auto simp: Let_def)

lemma length_ftoa_zeros: "length (ftoa_zeros buf count) \<le> max (length buf) PRINTF_FTOA_BUFFER_SIZE"
  by (induction buf count rule: ftoa_zeros.induct) (subst ftoa_zeros.simps, auto)

lemma length_ftoa_whole: "length (ftoa_whole buf whole) \<le> max (length buf) PRINTF_FTOA_BUFFER_SIZE"
  by (induction buf whole rule: ftoa_whole.induct) (subst ftoa_whole.simps, auto simp: Let_def)

lemma length_ftoa_digits:
  assumes "ftoa_digits value prec = Some buf"
  shows "length buf \<le> PRINTF_FTOA_BUFFER_SIZE"
proof -
  have 1: "length (fst (ftoa_limit [] p)) \<le> PRINTF_FTOA_BUFFER_SIZE" for p
    using length_ftoa_limit [of "[]" p] by simp
  have 2: "length xs \<le> PRINTF_FTOA_BUFFER_SIZE \<Longrightarrow> length (ftoa_whole xs w) \<le> PRINTF_FTOA_BUFFER_SIZE" for xs w
    using length_ftoa_whole [of xs w] by simp
  have 3: "length xs \<le> PRINTF_FTOA_BUFFER_SIZE \<Longrightarrow> length (fst (ftoa_frac xs c f)) \<le> PRINTF_FTOA_BUFFER_SIZE" for xs c f
    using length_ftoa_frac [of xs c f] by simp
  have 4: "length xs \<le> PRINTF_FTOA_BUFFER_SIZE \<Longrightarrow> length (ftoa_zeros xs c) \<le> PRINTF_FTOA_BUFFER_SIZE" for xs c
    using length_ftoa_zeros [of xs c] by simp
  obtain b0 p0 where lim: "ftoa_limit [] prec = (b0, p0)" by (cases "ftoa_limit [] prec")
  obtain w f where r: "ftoa_round value p0 = Some (w, f)"
    using assms lim by (auto simp: ftoa_digits_def Let_def split: option.splits)
  obtain b1 c1 where fr: "ftoa_frac b0 p0 f = (b1, c1)" by (cases "ftoa_frac b0 p0 f")
  have b0: "length b0 \<le> PRINTF_FTOA_BUFFER_SIZE" using 1 [of prec] lim by simp
  have b1: "length b1 \<le> PRINTF_FTOA_BUFFER_SIZE" using 3 [OF b0, of p0 f] fr by simp
  show ?thesis using assms 4 [OF b1, of c1]
    by (auto simp: ftoa_digits_def Let_def lim r fr split: if_splits intro!: 2 b0)
qed

lemma ftoa_finish_bounds:
  assumes "length buf \<le> PRINTF_FTOA_BUFFER_SIZE" "ftoa_finish buf negative width flags = (buf', width')"
  shows "length buf' \<le> PRINTF_FTOA_BUFFER_SIZE \<and> width' \<le> width"
proof -
  have z: "length (ftoa_zeros buf c) \<le> PRINTF_FTOA_BUFFER_SIZE" for c
    using length_ftoa_zeros [of buf c] assms(1) by simp
  have "length (ftoa_zeros buf c) < PRINTF_FTOA_BUFFER_SIZE \<or> length (ftoa_zeros buf c) = PRINTF_FTOA_BUFFER_SIZE" for c
    using z [of c] by (auto simp: le_less)
  then show ?thesis using assms z
    by (auto simp: ftoa_finish_def Let_def split: if_splits prod.splits)
qed

lemma ftoa_fixed_bounds:
  assumes "ftoa_fixed x prec width flags = Some (buf, w)"
  shows "length buf \<le> PRINTF_FTOA_BUFFER_SIZE \<and> w \<le> width"
  using assms ftoa_finish_bounds [OF length_ftoa_digits]
  by (fastforce simp: ftoa_fixed_def Let_def)

lemma etoa_scale_bounds:
  assumes "etoa_scale x prec width flags = Some (v, p, fw, f, mw, e)"
  shows "fw \<le> width \<and> mw \<le> 5"
  using assms
  by (auto simp: etoa_scale_def etoa_fwidth_def etoa_adapt_def Let_def split: option.splits if_splits)

text \<open>The texts of \<open>_ftoa\<close> and \<open>_etoa\<close>; \<open>text\<close> is what the inner call has emitted.\<close>

definition etoa_tail_str :: "nat \<Rightarrow> u32 \<Rightarrow> nat \<Rightarrow> int \<Rightarrow> char list \<Rightarrow> char list" where
  "etoa_tail_str width flags minwidth expval txt =
    (if minwidth \<noteq> 0 then
       (let txt = txt @ [if flag flags FLAGS_UPPERCASE then CHR ''E'' else CHR ''e'']
              @ ntoa_str (unat (of_int \<bar>expval\<bar> :: u32)) (expval < 0) 10 0 (minwidth - 1)
                  (FLAGS_ZEROPAD OR FLAGS_PLUS)
        in if flag flags FLAGS_LEFT then txt @ replicate (width - length txt mod 2 ^ 32) (CHR '' '') else txt)
     else txt)"

fun ftoa_str :: "nat \<Rightarrow> double \<Rightarrow> nat \<Rightarrow> nat \<Rightarrow> u32 \<Rightarrow> char list option"
and etoa_str :: "nat \<Rightarrow> double \<Rightarrow> nat \<Rightarrow> nat \<Rightarrow> u32 \<Rightarrow> char list option" where
  "ftoa_str 0 value prec width flags = None"
| "etoa_str 0 value prec width flags = None"
| "ftoa_str (Suc fuel) value prec width flags =
    (if \<not> feq value value then Some (out_rev_str ''nan'' width flags)
     else if flt value (fneg DBL_MAX) then Some (out_rev_str ''fni-'' width flags)
     else if flt DBL_MAX value then
       Some (out_rev_str (if flag flags FLAGS_PLUS then ''fni+'' else ''fni'') width flags)
     else if flt PRINTF_MAX_FLOAT value \<or> flt value (fneg PRINTF_MAX_FLOAT) then
       etoa_str fuel value prec width flags
     else map_option (\<lambda>(buf, width). out_rev_str buf width flags) (ftoa_fixed value prec width flags))"
| "etoa_str (Suc fuel) value prec width flags =
    (if \<not> feq value value \<or> flt DBL_MAX value \<or> flt value (fneg DBL_MAX) then
       ftoa_str fuel value prec width flags
     else Option.bind (etoa_scale value prec width flags)
       (\<lambda>(value, prec, fwidth, flags', minwidth, expval).
          map_option (etoa_tail_str width flags' minwidth expval)
            (ftoa_str fuel value prec fwidth (flags' AND NOT FLAGS_ADAPT_EXP))))"

lemma etoa_tail_emit:
  assumes "width < 2 ^ 32" "mw \<le> 5"
  shows "etoa_tail out m (fst st) width flags mw e (emit out m s st)
    = emit out m (etoa_tail_str width flags mw e s) st"
proof -
  have mw: "mw - 1 < 2 ^ 32" using assms(2) by simp
  define t where "t = s @ [if flag flags FLAGS_UPPERCASE then CHR ''E'' else CHR ''e'']
              @ ntoa_str (unat (of_int \<bar>e\<bar> :: u32)) (e < 0) 10 0 (mw - 1) (FLAGS_ZEROPAD OR FLAGS_PLUS)"
  have d: "unat (fst (emit out m t st) - fst st) = length t mod 2 ^ 32"
    by (simp add: unat_of_nat)
  have "ntoa_long out m (of_int \<bar>e\<bar>) (e < 0) 10 0 (mw - 1) (FLAGS_ZEROPAD OR FLAGS_PLUS)
      (emit out m [if flag flags FLAGS_UPPERCASE then CHR ''E'' else CHR ''e''] (emit out m s st)) = emit out m t st"
    by (simp only: ntoa_long_emit [OF mw] t_def emit_append)
  then show ?thesis
    by (simp only: etoa_tail_def Let_def pad_from_emit [OF assms(1)] d etoa_tail_str_def t_def [symmetric]
        emit_append split: if_split)
      (simp add: pad_from_emit [OF assms(1)] d emit_append)
qed

lemma ftoa_emit: "width < 2 ^ 32 \<Longrightarrow>
    ftoa fuel out m x prec width flags st = map_option (\<lambda>s. emit out m s st) (ftoa_str fuel x prec width flags)"
  and etoa_emit: "width < 2 ^ 32 \<Longrightarrow>
    etoa fuel out m x prec width flags st = map_option (\<lambda>s. emit out m s st) (etoa_str fuel x prec width flags)"
proof (induction fuel arbitrary: x prec width flags)
  case (Suc fuel)
  {
    case 1
    have fixed: "(case ftoa_fixed x prec width flags of None \<Rightarrow> None
          | Some (buf, width) \<Rightarrow> Some (out_rev out m buf width flags st))
        = map_option (\<lambda>s. emit out m s st)
            (map_option (\<lambda>(buf, width). out_rev_str buf width flags) (ftoa_fixed x prec width flags))"
      using 1 ftoa_fixed_bounds [of x prec width flags]
      by (fastforce simp: out_rev_emit PRINTF_FTOA_BUFFER_SIZE_def split: option.split)
    show ?case using 1 by (simp only: ftoa.simps ftoa_str.simps fixed Suc(2) [OF 1] split: if_split)
      (simp add: out_rev_emit)
  next
    case 2
    show ?case
    proof (cases "etoa_scale x prec width flags")
      case None
      then show ?thesis using 2 by (simp add: Suc(1))
    next
      case (Some r)
      obtain v p fw f mw e where r: "r = (v, p, fw, f, mw, e)" by (cases r)
      have "fw < 2 ^ 32" "mw \<le> 5" using etoa_scale_bounds [of x prec width flags] Some r 2 by fastforce+
      then show ?thesis using 2 Some
        by (auto simp: r Suc(1) etoa_tail_emit option.map_comp comp_def split: option.split)
    qed
  }
qed simp_all


text \<open>\<open>relay out m st r\<close>: what the run \<open>r\<close> on the collecting sink becomes on the sink \<open>out\<close>.\<close>

definition relay ::
  "'s out_fct \<Rightarrow> u32 \<Rightarrow> u32 \<times> 's \<Rightarrow> ((u32 \<times> string) \<times> 'r) option \<Rightarrow> ((u32 \<times> 's) \<times> 'r) option" where
  "relay out m st r = map_option (\<lambda>(p, x). (emit out m (snd p) st, x)) r"

lemma relay_simps [simp]:
  "relay out m st None = None"
  "relay out m st (Some (p, x)) = Some (emit out m (snd p) st, x)"
  by (simp_all add: relay_def)

lemma conv_int_relay:
  "width < 2 ^ 32 \<Longrightarrow> conv_int out m c va prec width flags st
    = relay out m st (conv_int collect 0 c va prec width flags (0, []))"
  by (simp add: conv_int_def Let_def ntoa_long_emit ntoa_long_long_emit split: option.split)

lemma conv_float_relay:
  "width < 2 ^ 32 \<Longrightarrow> conv_float out m c va prec width flags st
    = relay out m st (conv_float collect 0 c va prec width flags (0, []))"
  by (simp add: conv_float_def Let_def ftoa_emit etoa_emit option.map_comp comp_def relay_def
      split: option.split)

lemma conv_char_relay:
  "conv_char out m va width flags st = relay out m st (conv_char collect 0 va width flags (0, []))"
  by (cases "va_i32 va")
    (auto simp: conv_char_def Let_def pad_upto_emit emit_append [symmetric] simp del: emit_append)

fun str_text :: "char list \<Rightarrow> bool \<Rightarrow> nat \<Rightarrow> char list option" where
  "str_text [] limited precision = None"
| "str_text (c # p) limited precision =
    (if c \<noteq> CHR 0x00 \<and> (\<not> limited \<or> precision \<noteq> 0)
     then map_option (Cons c) (str_text p limited (precision - 1)) else Some [])"

lemma str_loop_emit:
  "str_loop out m p limited precision st = map_option (\<lambda>s. emit out m s st) (str_text p limited precision)"
  by (induction p limited precision arbitrary: st rule: str_text.induct)
    (auto simp: option.map_comp comp_def emit_append [of out m "[_]", simplified, symmetric])

lemma conv_str_relay:
  "conv_str out m va prec width flags st
    = relay out m st (conv_str collect 0 va prec width flags (0, []))"
  by (simp add: conv_str_def Let_def pad_upto_emit str_loop_emit emit_append split: option.split)

lemma conv_ptr_relay:
  "conv_ptr out m va prec flags st = relay out m st (conv_ptr collect 0 va prec flags (0, []))"
  by (simp add: conv_ptr_def Let_def ntoa_long_emit split: option.split)

lemma conv_relay:
  "width < 2 ^ 32 \<Longrightarrow> conv out m c va prec width flags st
    = relay out m st (conv collect 0 c va prec width flags (0, []))"
  unfolding conv_def
  by (simp add: conv_int_relay [of width out m] conv_float_relay [of width out m]
      conv_char_relay [of out m] conv_str_relay [of out m] conv_ptr_relay [of out m])

lemma atoi_loop_bound: "atoi_loop str i = Some (n, str') \<Longrightarrow> i < 2 ^ 32 \<Longrightarrow> n < 2 ^ 32"
  by (induction str i rule: atoi_loop.induct) (auto split: if_splits)

lemma unat_u32_bound: "unat (w :: u32) < 2 ^ 32"
  using unsigned_less [of w] by simp

lemma eval_width_bound: "eval_width format va flags = Some (width, r) \<Longrightarrow> width < 2 ^ 32"
  using unat_u32_bound
  by (auto simp: eval_width_def atoi_def dest!: atoi_loop_bound split: list.splits if_splits option.splits)

lemma directive_relay:
  "directive out m format va st
    = map_option (\<lambda>(p, x). (emit out m (snd p) st, x)) (directive collect 0 format va (0, []))"
proof (cases "eval_flags format 0")
  case (Some r1)
  obtain f1 s1 where r1: "r1 = (f1, s1)" by (cases r1)
  show ?thesis
  proof (cases "eval_width s1 va f1")
    case Some2: (Some r2)
    obtain w f2 s2 va2 where r2: "r2 = (w, f2, s2, va2)" by (cases r2)
    have w: "w < 2 ^ 32" using eval_width_bound [of s1 va f1 w] Some2 r2 by simp
    show ?thesis
      by (simp add: directive_def Some r1 Some2 r2 conv_relay [OF w, of out m] relay_def option.map_comp comp_def
          split: option.split list.split prod.split)
  qed (simp add: directive_def Some r1)
qed (simp add: directive_def)

text \<open>The text of a format and its arguments, whatever the sink.\<close>

function format_text :: "char list \<Rightarrow> va_value list \<Rightarrow> char list option" where
  "format_text format va =
    (case format of [] \<Rightarrow> None | c # rest \<Rightarrow>
       if c = CHR 0x00 then Some []
       else if c \<noteq> CHR ''%'' then map_option (Cons c) (format_text rest va)
       else case directive collect 0 rest va (0, []) of None \<Rightarrow> None
            | Some ((_, txt), format, va) \<Rightarrow> map_option (append txt) (format_text format va))"
  by pat_completeness auto
termination
  by (relation "measure (\<lambda>(format, va). length format)") (auto dest!: directive_length)

declare format_text.simps [simp del]

lemma vsnprintf_loop_emit:
  "vsnprintf_loop out m format va st = map_option (\<lambda>s. emit out m s st) (format_text format va)"
proof (induction format va arbitrary: st rule: format_text.induct)
  case (1 format va)
  show ?case
  proof (cases format)
    case Nil
    then show ?thesis by (simp add: vsnprintf_loop.simps format_text.simps)
  next
    case (Cons c rest)
    show ?thesis
    proof (cases "c = CHR 0x00 \<or> c \<noteq> CHR ''%''")
      case True
      with Cons 1(1) [OF Cons] show ?thesis
        by (subst vsnprintf_loop.simps, subst format_text.simps)
          (auto simp: option.map_comp comp_def emit_append [of out m "[_]", simplified, symmetric])
    next
      case False
      note IH = 1(2) [OF Cons]
      show ?thesis
        using False Cons IH
        by (subst vsnprintf_loop.simps, subst format_text.simps)
          (auto simp: directive_relay [of out m] option.map_comp comp_def emit_append split: option.split)
    qed
  qed
qed

end
