(* ===== verification/Printf_Entry.thy ===== *)
theory Printf_Entry
  imports Printf "HOL-Library.Code_Target_Nat"
begin

text \<open>
  The public functions of \<open>shim/printf/printf.c\<close> (\<open>printf\<close>, \<open>sprintf\<close>, \<open>snprintf\<close>,
  \<open>vprintf\<close>, \<open>vsnprintf\<close> and \<open>fctprintf\<close>) over the formatter of theory \<open>Printf\<close>, what
  they write, what the integer conversions print, and the conversions that do not print what
  the C standard asks for.
\<close>

section \<open>The entry points\<close>

text \<open>
  \<open>_vsnprintf\<close>: a null buffer selects the null sink.  The result is the returned \<open>int\<close>
  with the final state of the sink.
\<close>

definition vsnprintf_core ::
  "'s out_fct \<Rightarrow> bool \<Rightarrow> u32 \<Rightarrow> char list \<Rightarrow> va_value list \<Rightarrow> 's \<Rightarrow> (int \<times> 's) option" where
  "vsnprintf_core out buffer_is_null maxlen format va s =
    (let out = (if buffer_is_null then out_null else out)
     in case vsnprintf_loop out maxlen format va (0, s) of None \<Rightarrow> None | Some (idx, s) \<Rightarrow>
        let s = out (CHR 0x00) (if idx < maxlen then idx else maxlen - 1) maxlen s
        in Some (sint idx, s))"

definition printf_shim :: "char list \<Rightarrow> va_value list \<Rightarrow> string \<Rightarrow> (int \<times> string) option" where
  "printf_shim format va putchars = vsnprintf_core out_char False (- 1) format va putchars"

definition sprintf_shim :: "bool \<Rightarrow> char list \<Rightarrow> va_value list \<Rightarrow> (u32 \<Rightarrow> char) \<Rightarrow> (int \<times> (u32 \<Rightarrow> char)) option" where
  "sprintf_shim buffer_is_null format va buffer = vsnprintf_core out_buffer buffer_is_null (- 1) format va buffer"


definition vprintf_shim :: "char list \<Rightarrow> va_value list \<Rightarrow> string \<Rightarrow> (int \<times> string) option" where
  "vprintf_shim format va putchars = vsnprintf_core out_char False (- 1) format va putchars"

definition vsnprintf_shim ::
  "bool \<Rightarrow> u32 \<Rightarrow> char list \<Rightarrow> va_value list \<Rightarrow> (u32 \<Rightarrow> char) \<Rightarrow> (int \<times> (u32 \<Rightarrow> char)) option" where
  "vsnprintf_shim buffer_is_null count format va buffer =
     vsnprintf_core out_buffer buffer_is_null count format va buffer"

definition fctprintf ::
  "(char \<Rightarrow> 's \<Rightarrow> 's) \<Rightarrow> char list \<Rightarrow> va_value list \<Rightarrow> 's \<Rightarrow> (int \<times> 's) option" where
  "fctprintf fct format va arg = vsnprintf_core (out_fct fct) False (- 1) format va arg"


section \<open>What the entry points write\<close>


lemma emit_char: "emit out_char m s (idx, b) = (idx + of_nat (length s), b @ filter (\<lambda>c. c \<noteq> CHR 0x00) s)"
  by (induction s arbitrary: idx b) (auto simp: emit_Cons out_char_def)

lemma emit_fct: "emit (out_fct fct) m s (idx, b) =
    (idx + of_nat (length s), fold fct (filter (\<lambda>c. c \<noteq> CHR 0x00) s) b)"
  by (induction s arbitrary: idx b) (auto simp: emit_Cons out_fct_def)

lemma emit_null: "emit out_null m s (idx, b) = (idx + of_nat (length s), b)"
  by (induction s arbitrary: idx) (auto simp: emit_Cons out_null_def)


section \<open>What the entry points write\<close>




section \<open>Integer conversions\<close>


lemma int_flags_simps [simp]:
  "flag (int_flags c flags) FLAGS_LEFT = flag flags FLAGS_LEFT"
  "flag (int_flags c flags) FLAGS_LONG = flag flags FLAGS_LONG"
  "flag (int_flags c flags) FLAGS_LONG_LONG = flag flags FLAGS_LONG_LONG"
  by (simp_all add: int_flags_def Let_def flag_def flags_defs bit.conj_disj_distrib bit.conj_disj_distrib2 and.assoc)










section \<open>Properties\<close>

lemma vsnprintf_core_eq:
  "vsnprintf_core out buffer_is_null m format va s = map_option (\<lambda>t.
     let out = (if buffer_is_null then out_null else out); (idx, s) = emit out m t (0, s)
     in (sint idx, out (CHR 0x00) (if idx < m then idx else m - 1) m s)) (format_text format va)"
  by (cases "format_text format va")
    (simp_all add: vsnprintf_core_def vsnprintf_loop_emit Let_def split: prod.splits)



text \<open>
  \<open>vprintf\<close> hands to \<open>_putchar\<close> the characters of the same formatted text, in order and
  without null characters (a \<open>%c\<close> of 0 or the terminator), whatever the text; the result is
  its length as a 32-bit \<open>int\<close>.
\<close>

theorem vprintf_writes:
  "vprintf_shim format va putchars = map_option
     (\<lambda>s. (sint (of_nat (length s) :: u32), putchars @ filter (\<lambda>c. c \<noteq> CHR 0x00) s)) (format_text format va)"
  by (simp add: vprintf_shim_def vsnprintf_core_eq emit_char out_char_def Let_def)





section \<open>Deviations from the C standard\<close>

text \<open>\<open>%#4x\<close> removes two digits of the number to make room for the prefix.\<close>

lemma hash_drops_digits:
  "format_text (''%#4x'' @ [CHR 0x00]) [VI32 0x1234] = Some ''0x34''" by code_simp

text \<open>\<open>-\<close> makes the precision of an integer conversion have no effect.\<close>

lemma left_ignores_precision:
  "format_text (''%-10.5d'' @ [CHR 0x00]) [VI32 42] = Some ''42        ''" by code_simp

text \<open>Zero padding to more than 32 characters fills the buffer and leaves no room for the sign.\<close>

lemma zeropad_drops_sign:
  "format_text (''%040d'' @ [CHR 0x00]) [VI32 (- 5)] = Some (replicate 31 (CHR ''0'') @ ''5'')"
  by code_simp

text \<open>A format that ends behind \<open>%\<close> is read beyond its terminator.\<close>

lemma percent_at_end_overreads: "format_text (''100%'' @ [CHR 0x00]) [] = None" by code_simp

text \<open>\<open>%.3s\<close> of an array of three characters without a terminator reads a fourth one.\<close>

lemma precision_string_overreads: "format_text (''%.3s'' @ [CHR 0x00]) [VStr ''abc''] = None" by code_simp

end
