(* ===== verification/Interfaces.thy ===== *)
theory Interfaces
  imports Prelude
begin

text \<open>
  The contracts that the containers of the library fulfil, as locales: a set of numbered
  items (the bitmaps), a finite map from keys to values (the symbol tables) and an implementation of an abstract
  machine (the write-ahead log).  What a client may conclude from the laws is proved here once, for every history
  of operations.
\<close>

section \<open>Sets of indices\<close>

datatype set_op = Add nat | Remove nat

fun op_index :: "set_op \<Rightarrow> nat" where
  "op_index (Add i) = i"
| "op_index (Remove i) = i"

text \<open>What a history of operations makes of a set.\<close>

fun set_effect :: "set_op \<Rightarrow> nat set \<Rightarrow> nat set" where
  "set_effect (Add i) S = insert i S"
| "set_effect (Remove i) S = S - {i}"

locale index_set =
  fixes add :: "'s \<Rightarrow> nat \<Rightarrow> 's"
    and remove :: "'s \<Rightarrow> nat \<Rightarrow> 's"
    and test :: "'s \<Rightarrow> nat \<Rightarrow> bool"
    and inv :: "'s \<Rightarrow> bool"
    and bound :: "'s \<Rightarrow> nat"
    and elems :: "'s \<Rightarrow> nat set"
  assumes add: "inv s \<Longrightarrow> 1 \<le> i \<Longrightarrow> i \<le> bound s \<Longrightarrow>
      inv (add s i) \<and> bound (add s i) = bound s \<and> elems (add s i) = insert i (elems s)"
    and remove: "inv s \<Longrightarrow> 1 \<le> i \<Longrightarrow> i \<le> bound s \<Longrightarrow>
      inv (remove s i) \<and> bound (remove s i) = bound s \<and> elems (remove s i) = elems s - {i}"
    and test: "inv s \<Longrightarrow> 1 \<le> i \<Longrightarrow> i \<le> bound s \<Longrightarrow> test s i \<longleftrightarrow> i \<in> elems s"
begin

fun step :: "set_op \<Rightarrow> 's \<Rightarrow> 's" where
  "step (Add i) s = add s i"
| "step (Remove i) s = remove s i"

lemma history:
  "inv s \<Longrightarrow> \<forall>x \<in> set ops. 1 \<le> op_index x \<and> op_index x \<le> bound s \<Longrightarrow>
   inv (fold step ops s) \<and> bound (fold step ops s) = bound s \<and>
   elems (fold step ops s) = fold set_effect ops (elems s)"
proof (induction ops arbitrary: s)
  case (Cons x ops)
  have "inv (step x s) \<and> bound (step x s) = bound s \<and> elems (step x s) = set_effect x (elems s)"
    using Cons.prems add remove by (cases x) auto
  with Cons show ?case by simp
qed simp

lemma test_history:
  "inv s \<Longrightarrow> \<forall>x \<in> set ops. 1 \<le> op_index x \<and> op_index x \<le> bound s \<Longrightarrow> 1 \<le> i \<Longrightarrow> i \<le> bound s \<Longrightarrow>
   test (fold step ops s) i \<longleftrightarrow> i \<in> fold set_effect ops (elems s)"
  using history test by metis

end

section \<open>Finite maps\<close>

text \<open>
  A table from keys to values in which the value \<open>null\<close> deletes; \<open>canon\<close> tells which keys are the
  same, \<open>good\<close> which resources make an operation succeed.
\<close>

locale finite_map =
  fixes put :: "'e \<Rightarrow> 's \<Rightarrow> 'k \<Rightarrow> 'v \<Rightarrow> 's"
    and get :: "'s \<Rightarrow> 'k \<Rightarrow> 'v"
    and null :: 'v
    and inv :: "'s \<Rightarrow> bool"
    and good :: "'e \<Rightarrow> bool"
    and key_ok :: "'k \<Rightarrow> bool"
    and canon :: "'k \<Rightarrow> 'c"
    and entries :: "'s \<Rightarrow> 'c \<Rightarrow> 'v option"
  assumes put: "inv s \<Longrightarrow> good e \<Longrightarrow> key_ok k \<Longrightarrow>
      inv (put e s k v) \<and> entries (put e s k v) = (entries s)(canon k := (if v = null then None else Some v))"
    and get: "inv s \<Longrightarrow> key_ok k \<Longrightarrow> get s k = (case entries s (canon k) of None \<Rightarrow> null | Some v \<Rightarrow> v)"
begin

lemma get_put:
  "inv s \<Longrightarrow> good e \<Longrightarrow> key_ok k \<Longrightarrow> key_ok k' \<Longrightarrow>
   get (put e s k v) k' = (if canon k = canon k' then v else get s k')"
  using put [of s e k v] get [of "put e s k v" k'] get [of s k'] by simp

lemma history:
  "inv s \<Longrightarrow> \<forall>(e, k, v) \<in> set ops. good e \<and> key_ok k \<Longrightarrow> key_ok key \<Longrightarrow>
   inv (fold (\<lambda>(e, k, v) s. put e s k v) ops s) \<and>
   get (fold (\<lambda>(e, k, v) s. put e s k v) ops s) key = fold (\<lambda>(e, k, v) r. if canon k = canon key then v else r) ops (get s key)"
proof (induction ops arbitrary: s)
  case (Cons x ops)
  obtain e k v where x: "x = (e, k, v)" by (cases x)
  have "inv (put e s k v)" using Cons.prems put x by simp
  with Cons.IH [of "put e s k v"] Cons.prems show ?case by (simp add: x get_put)
qed simp

end

section \<open>Implementations of an abstract machine\<close>

text \<open>
  A history is a list of operations \<open>p\<close>, each with the answers \<open>e\<close> of its environment; its results \<open>r\<close>
  decide what the operations mean for the abstract state.
\<close>

fun run_ops :: "('e \<Rightarrow> 'p \<Rightarrow> 's \<Rightarrow> 'r \<times> 's) \<Rightarrow> ('e \<times> 'p) list \<Rightarrow> 's \<Rightarrow> 'r list \<times> 's" where
  "run_ops step [] s = ([], s)"
| "run_ops step ((e, p) # ps) s = (case step e p s of (r, s) \<Rightarrow> case run_ops step ps s of (rs, s) \<Rightarrow> (r # rs, s))"

fun spec_run :: "('r \<Rightarrow> 'p \<Rightarrow> 'a \<Rightarrow> 'a) \<Rightarrow> 'r list \<Rightarrow> ('e \<times> 'p) list \<Rightarrow> 'a \<Rightarrow> 'a" where
  "spec_run spec (r # rs) ((e, p) # ps) a = spec_run spec rs ps (spec r p a)"
| "spec_run spec _ _ a = a"

fun ops_ok :: "('r \<Rightarrow> 'p \<Rightarrow> 'a \<Rightarrow> 'a) \<Rightarrow> ('a \<Rightarrow> 'p \<Rightarrow> bool) \<Rightarrow> 'r list \<Rightarrow> ('e \<times> 'p) list \<Rightarrow> 'a \<Rightarrow> bool" where
  "ops_ok spec ok (r # rs) ((e, p) # ps) a = (ok a p \<and> ops_ok spec ok rs ps (spec r p a))"
| "ops_ok spec ok _ _ a = True"

locale implementation =
  fixes step :: "'e \<Rightarrow> 'p \<Rightarrow> 's \<Rightarrow> 'r \<times> 's"
    and spec :: "'r \<Rightarrow> 'p \<Rightarrow> 'a \<Rightarrow> 'a"
    and ok :: "'a \<Rightarrow> 'p \<Rightarrow> bool"
    and good :: "'e \<Rightarrow> bool"
    and rel :: "'s \<Rightarrow> 'a \<Rightarrow> bool"
  assumes step: "rel s a \<Longrightarrow> good e \<Longrightarrow> ok a p \<Longrightarrow> step e p s = (r, s') \<Longrightarrow> rel s' (spec r p a)"
begin

lemma history:
  "rel s a \<Longrightarrow> \<forall>(e, p) \<in> set ps. good e \<Longrightarrow> run_ops step ps s = (rs, s') \<Longrightarrow> ops_ok spec ok rs ps a \<Longrightarrow>
   rel s' (spec_run spec rs ps a)"
proof (induction ps arbitrary: s a rs)
  case (Cons x ps)
  obtain e p where x: "x = (e, p)" by force
  obtain r s1 where d: "step e p s = (r, s1)" by force
  obtain qs where rs: "run_ops step ps s1 = (qs, s')" "rs = r # qs" using Cons.prems(3) d x by (auto split: prod.splits)
  have "rel s1 (spec r p a)" using step [OF Cons.prems(1) _ _ d] Cons.prems(2,4) x rs(2) by simp
  then show ?case using Cons.IH [OF _ _ rs(1)] Cons.prems(2,4) x rs(2) by simp
qed simp

end

end
