(* ===== verification/Bitvec.thy ===== *)
theory Bitvec
  imports Interfaces "HOL-Library.Code_Target_Nat"
begin

text \<open>
  The bitmaps of \<open>bitvec.c\<close>, which record the journalled pages of a transaction.  The union
  of \<open>struct Bitvec\<close> is a datatype: a bitmap, a hash table with linear probing or an array of
  smaller bitmaps, chosen by \<open>iSize\<close> and \<open>iDivisor\<close>.  Sizes are those of wasm32 (four-byte
  pointers).  The \<open>u32\<close> fields are natural numbers; where the code's arithmetic can wrap
  (\<open>i--\<close> of 0) that is written out.  A list of booleans gives the outcomes of the coming
  memory allocations (an exhausted list: success).  \<open>None\<close> stands for an access outside an
  array, the wrong member of the union, or a loop that does not end.
\<close>

section \<open>Memory allocation\<close>

fun malloc_ok :: "bool list \<Rightarrow> bool \<times> bool list" where
  "malloc_ok [] = (True, [])"
| "malloc_ok (b # ms) = (b, ms)"


section \<open>The structure\<close>

definition BITVEC_SZ :: nat where "BITVEC_SZ = 512"
definition BITVEC_USIZE :: nat where "BITVEC_USIZE = (BITVEC_SZ - 3 * 4) div 4 * 4"
definition BITVEC_SZELEM :: nat where "BITVEC_SZELEM = 8"
definition BITVEC_NELEM :: nat where "BITVEC_NELEM = BITVEC_USIZE div 1"
definition BITVEC_NBIT :: nat where "BITVEC_NBIT = BITVEC_NELEM * BITVEC_SZELEM"
definition BITVEC_NINT :: nat where "BITVEC_NINT = BITVEC_USIZE div 4"
definition BITVEC_MXHASH :: nat where "BITVEC_MXHASH = BITVEC_NINT div 2"
definition BITVEC_HASH :: "nat \<Rightarrow> nat" where "BITVEC_HASH x = (x * 1) mod BITVEC_NINT"
definition BITVEC_NPTR :: nat where "BITVEC_NPTR = BITVEC_USIZE div 4"

lemma BITVEC_sizes [simp]:
  "BITVEC_NELEM = 500" "BITVEC_SZELEM = 8" "BITVEC_NBIT = 4000" "BITVEC_NINT = 125"
  "BITVEC_MXHASH = 62" "BITVEC_NPTR = 125"
  by (simp_all add: BITVEC_NELEM_def BITVEC_SZELEM_def BITVEC_NBIT_def BITVEC_NINT_def BITVEC_MXHASH_def
      BITVEC_NPTR_def BITVEC_USIZE_def BITVEC_SZ_def)

datatype bitvec = Bitvec (iSize: nat) (nSet: nat) (iDivisor: nat) (u: bitvec_u)
and bitvec_u = ABitmap "u8 list" | AHash "nat list" | ApSub "bitvec option list"

definition sqlite3BitvecCreate :: "nat \<Rightarrow> bool list \<Rightarrow> bitvec option \<times> bool list" where
  "sqlite3BitvecCreate n ms =
    (let (ok, ms) = malloc_ok ms
     in (if ok then Some (Bitvec n 0 0 (if n \<le> BITVEC_NBIT then ABitmap (replicate BITVEC_NELEM 0)
                                         else AHash (replicate BITVEC_NINT 0)))
         else None, ms))"

section \<open>Testing a bit\<close>

definition bitmap_test :: "u8 list \<Rightarrow> nat \<Rightarrow> bool option" where
  "bitmap_test bs i =
    (if i div BITVEC_SZELEM < length bs
     then Some (bs ! (i div BITVEC_SZELEM) AND push_bit (i mod BITVEC_SZELEM) 1 \<noteq> 0) else None)"

text \<open>
  The loop over the slots of the hash table: whether \<open>i\<close> was found, and the slot.  After
  \<open>BITVEC_NINT\<close> slots without an empty one the loop never ends.
\<close>

fun hash_probe :: "nat \<Rightarrow> nat list \<Rightarrow> nat \<Rightarrow> nat \<Rightarrow> (bool \<times> nat) option" where
  "hash_probe 0 hs i h = None"
| "hash_probe (Suc fuel) hs i h =
    (if hs ! h = 0 then Some (False, h)
     else if hs ! h = i then Some (True, h)
     else hash_probe fuel hs i ((h + 1) mod BITVEC_NINT))"

text \<open>The descent and the final test; \<open>i\<close> has been decremented.\<close>

lemma size_sub: "k < length subs \<Longrightarrow> subs ! k = Some q \<Longrightarrow> size q < size_list (size_option size) subs"
proof (induction subs arbitrary: k)
  case (Cons s subs)
  then show ?case by (cases k) fastforce+
qed simp

function bitvec_test :: "bitvec \<Rightarrow> nat \<Rightarrow> bool option" where
  "bitvec_test (Bitvec n s d v) i =
    (if d \<noteq> 0 then
       (case v of ApSub subs \<Rightarrow>
          (if i div d < length subs then
             (case subs ! (i div d) of None \<Rightarrow> Some False | Some q \<Rightarrow> bitvec_test q (i mod d))
           else None)
        | _ \<Rightarrow> None)
     else if n \<le> BITVEC_NBIT then (case v of ABitmap bs \<Rightarrow> bitmap_test bs i | _ \<Rightarrow> None)
     else (case v of AHash hs \<Rightarrow> map_option fst (hash_probe BITVEC_NINT hs (i + 1) (BITVEC_HASH i)) | _ \<Rightarrow> None))"
  by pat_completeness auto
termination
proof (relation "measure (\<lambda>(p, i). size p)")
  fix n s d v i subs x2
  assume "v = ApSub subs" "i div d < length subs" "subs ! (i div d) = Some x2"
  then show "((x2, i mod d), Bitvec n s d v, i) \<in> measure (\<lambda>(p, i). size p)"
    using size_sub [of "i div d" subs x2] by simp
qed simp

definition sqlite3BitvecTestNotNull :: "bitvec \<Rightarrow> nat \<Rightarrow> bool option" where
  "sqlite3BitvecTestNotNull p i =
    (let i = (i + (2 ^ 32 - 1)) mod 2 ^ 32
     in if iSize p \<le> i then Some False else bitvec_test p i)"

definition sqlite3BitvecTest :: "bitvec option \<Rightarrow> nat \<Rightarrow> bool option" where
  "sqlite3BitvecTest p i = (case p of None \<Rightarrow> Some False | Some p \<Rightarrow> sqlite3BitvecTestNotNull p i)"

section \<open>Setting a bit\<close>

definition bitmap_set :: "u8 list \<Rightarrow> nat \<Rightarrow> u8 list" where
  "bitmap_set bs i = bs[i div BITVEC_SZELEM := bs ! (i div BITVEC_SZELEM) OR push_bit (i mod BITVEC_SZELEM) 1]"

text \<open>The number of bits of each sub-bitmap.\<close>

definition sub_size :: "nat \<Rightarrow> nat" where
  "sub_size n =
    (let d = n div BITVEC_NPTR; d = (if n mod BITVEC_NPTR \<noteq> 0 then d + 1 else d)
     in if d < BITVEC_NBIT then BITVEC_NBIT else d)"

text \<open>
  \<open>sqlite3BitvecSet\<close> behind \<open>i--\<close>: the result code, the changed bitmap and the remaining
  allocations.  The recursion of the code is bounded by \<open>fuel\<close>; \<open>set_fuel\<close> below is enough.
\<close>

primrec bitvec_set :: "nat \<Rightarrow> bitvec \<Rightarrow> nat \<Rightarrow> bool list \<Rightarrow> (nat \<times> bitvec \<times> bool list) option" where
  "bitvec_set 0 p i ms = None"
| "bitvec_set (Suc fuel) p i ms =
    (case p of Bitvec n s d v \<Rightarrow>
     if BITVEC_NBIT < n \<and> d \<noteq> 0 then
       (case v of ApSub subs \<Rightarrow>
          (let bin = i div d
           in if length subs \<le> bin then None else
              case (case subs ! bin of Some q \<Rightarrow> (Some q, ms) | None \<Rightarrow> sqlite3BitvecCreate d ms) of
                (None, ms) \<Rightarrow> Some (SQLITE_NOMEM, p, ms)
              | (Some q, ms) \<Rightarrow>
                  (case bitvec_set fuel q (i mod d) ms of None \<Rightarrow> None
                   | Some (rc, q, ms) \<Rightarrow> Some (rc, Bitvec n s d (ApSub (subs[bin := Some q])), ms)))
        | _ \<Rightarrow> None)
     else if n \<le> BITVEC_NBIT then
       (case v of ABitmap bs \<Rightarrow>
          (if i div BITVEC_SZELEM < length bs
           then Some (SQLITE_OK, Bitvec n s d (ABitmap (bitmap_set bs i)), ms) else None)
        | _ \<Rightarrow> None)
     else
       (case v of AHash hs \<Rightarrow>
          (let h0 = BITVEC_HASH i; i = i + 1
           in case hash_probe BITVEC_NINT hs i h0 of None \<Rightarrow> None
              | Some (True, h) \<Rightarrow> Some (SQLITE_OK, p, ms)
              | Some (False, h) \<Rightarrow>
                if (hs ! h0 = 0 \<and> s < BITVEC_NINT - 1) \<or> s < BITVEC_MXHASH then
                  Some (SQLITE_OK, Bitvec n (s + 1) d (AHash (hs[h := i])), ms)
                else
                  (case malloc_ok ms of
                     (False, ms) \<Rightarrow> Some (SQLITE_NOMEM, p, ms)
                   | (True, ms) \<Rightarrow>
                     (let p = Bitvec n s (sub_size n) (ApSub (replicate BITVEC_NPTR None))
                      in fold (\<lambda>v st.
                           if v = 0 then st else
                           case st of None \<Rightarrow> None | Some (rc, p, ms) \<Rightarrow>
                           case bitvec_set fuel p (v - 1) ms of None \<Rightarrow> None | Some (rc', p, ms) \<Rightarrow>
                           Some (rc OR rc', p, ms)) (i # hs) (Some (SQLITE_OK, p, ms)))))
        | _ \<Rightarrow> None))"

definition SET_FUEL :: nat where "SET_FUEL = 8"

definition sqlite3BitvecSet :: "bitvec option \<Rightarrow> nat \<Rightarrow> bool list \<Rightarrow> (nat \<times> bitvec option \<times> bool list) option" where
  "sqlite3BitvecSet p i ms =
    (case p of None \<Rightarrow> Some (SQLITE_OK, None, ms)
     | Some p \<Rightarrow> map_option (\<lambda>(rc, p, ms). (rc, Some p, ms)) (bitvec_set SET_FUEL p (i - 1) ms))"

section \<open>Clearing a bit\<close>

definition bitmap_clear :: "u8 list \<Rightarrow> nat \<Rightarrow> u8 list" where
  "bitmap_clear bs i =
    bs[i div BITVEC_SZELEM := bs ! (i div BITVEC_SZELEM) AND NOT (push_bit (i mod BITVEC_SZELEM) 1)]"

text \<open>\<open>while( p->u.aHash[h] ) \<dots>\<close>: the first empty slot.\<close>

fun hash_free :: "nat \<Rightarrow> nat list \<Rightarrow> nat \<Rightarrow> nat option" where
  "hash_free 0 hs h = None"
| "hash_free (Suc fuel) hs h =
    (if hs ! h = 0 then Some h else hash_free fuel hs (if BITVEC_NINT \<le> h + 1 then 0 else h + 1))"

text \<open>The loop that rebuilds the hash table from the saved values, without \<open>i\<close>.\<close>

fun hash_rebuild :: "nat list \<Rightarrow> nat \<Rightarrow> nat \<times> nat list \<Rightarrow> (nat \<times> nat list) option" where
  "hash_rebuild [] i (s, hs) = Some (s, hs)"
| "hash_rebuild (v # vs) i (s, hs) =
    (if v \<noteq> 0 \<and> v \<noteq> i then
       (case hash_free BITVEC_NINT hs (BITVEC_HASH (v - 1)) of None \<Rightarrow> None
        | Some h \<Rightarrow> hash_rebuild vs i (s + 1, hs[h := v]))
     else hash_rebuild vs i (s, hs))"

function bitvec_clear :: "bitvec \<Rightarrow> nat \<Rightarrow> bitvec option" where
  "bitvec_clear (Bitvec n s d v) i =
    (if d \<noteq> 0 then
       (case v of ApSub subs \<Rightarrow>
          (if i div d < length subs then
             (case subs ! (i div d) of None \<Rightarrow> Some (Bitvec n s d v)
              | Some q \<Rightarrow> map_option (\<lambda>q. Bitvec n s d (ApSub (subs[i div d := Some q]))) (bitvec_clear q (i mod d)))
           else None)
        | _ \<Rightarrow> None)
     else if n \<le> BITVEC_NBIT then
       (case v of ABitmap bs \<Rightarrow>
          (if i div BITVEC_SZELEM < length bs then Some (Bitvec n s d (ABitmap (bitmap_clear bs i))) else None)
        | _ \<Rightarrow> None)
     else
       (case v of AHash hs \<Rightarrow>
          map_option (\<lambda>(s, hs). Bitvec n s d (AHash hs))
            (hash_rebuild hs (i + 1) (0, replicate BITVEC_NINT 0))
        | _ \<Rightarrow> None))"
  by pat_completeness auto
termination
proof (relation "measure (\<lambda>(p, i). size p)")
  fix n s d v i subs x2
  assume "v = ApSub subs" "i div d < length subs" "subs ! (i div d) = Some x2"
  then show "((x2, i mod d), Bitvec n s d v, i) \<in> measure (\<lambda>(p, i). size p)"
    using size_sub [of "i div d" subs x2] by simp
qed simp

definition sqlite3BitvecClear :: "bitvec option \<Rightarrow> nat \<Rightarrow> bitvec option option" where
  "sqlite3BitvecClear p i =
    (case p of None \<Rightarrow> Some None | Some p \<Rightarrow> map_option Some (bitvec_clear p (i - 1)))"

definition sqlite3BitvecSize :: "bitvec \<Rightarrow> nat" where
  "sqlite3BitvecSize p = iSize p"


section \<open>The hash table\<close>

text \<open>Every slot between the home of the value in slot \<open>k\<close> and \<open>k\<close> itself is taken.\<close>

definition chain :: "nat list \<Rightarrow> nat \<Rightarrow> nat \<Rightarrow> bool" where
  "chain hs h k \<longleftrightarrow> (\<exists>d < 125. k = (h + d) mod 125 \<and> (\<forall>e < d. hs ! ((h + e) mod 125) \<noteq> 0))"

definition hash_ok :: "nat \<Rightarrow> nat list \<Rightarrow> bool" where
  "hash_ok s hs \<longleftrightarrow> length hs = 125 \<and> s = length (filter (\<lambda>v. v \<noteq> 0) hs) \<and> s < 125 \<and>
     distinct (filter (\<lambda>v. v \<noteq> 0) hs) \<and>
     (\<forall>k < 125. hs ! k \<noteq> 0 \<longrightarrow> chain hs (BITVEC_HASH (hs ! k - 1)) k)"

lemma BITVEC_HASH_less [simp]: "BITVEC_HASH x < 125" by (simp add: BITVEC_HASH_def)

lemma hash_probe_run:
  "(\<And>e. e < m \<Longrightarrow> hs ! ((h + e) mod 125) \<noteq> 0 \<and> hs ! ((h + e) mod 125) \<noteq> i) \<Longrightarrow> h < 125 \<Longrightarrow>
   hash_probe (m + fuel) hs i h = hash_probe fuel hs i ((h + m) mod 125)"
proof (induction m arbitrary: h)
  case (Suc m)
  have "hs ! h \<noteq> 0 \<and> hs ! h \<noteq> i" using Suc.prems(1) [of 0] Suc.prems(2) by simp
  moreover have "hash_probe (m + fuel) hs i ((h + 1) mod 125) = hash_probe fuel hs i (((h + 1) mod 125 + m) mod 125)"
    using Suc.prems(1) [of "Suc _"] by (intro Suc.IH) (simp_all add: mod_simps)
  ultimately show ?case by (simp add: mod_simps)
qed simp

lemma empty_slot:
  assumes "length hs = 125" "length (filter (\<lambda>v. v \<noteq> 0) hs) < 125" "h < 125"
  obtains d where "d < 125" "hs ! ((h + d) mod 125) = 0"
proof -
  have "\<exists>k < 125. hs ! k = 0"
    using assms(1,2) filter_True [of hs "\<lambda>v. v \<noteq> 0"] by (metis in_set_conv_nth less_irrefl)
  then obtain k where k: "k < 125" "hs ! k = 0" by blast
  have "(h + (k + 125 - h) mod 125) mod 125 = (h + (k + 125 - h)) mod 125" by (simp add: mod_simps)
  also have "\<dots> = k" using k assms(3) by simp
  finally show ?thesis using k that [of "(k + 125 - h) mod 125"] by simp
qed

lemma hash_probe_correct:
  assumes "hash_ok s hs" "i \<noteq> 0" "h = BITVEC_HASH (i - 1)"
  shows "\<exists>k < 125. hash_probe 125 hs i h = Some (i \<in> set hs, k) \<and>
    (i \<notin> set hs \<longrightarrow> hs ! k = 0 \<and> chain hs h k)"
proof -
  have len: "length hs = 125" and h: "h < 125" using assms by (simp_all add: hash_ok_def)
  obtain d where d: "d < 125" "hs ! ((h + d) mod 125) = 0"
    using empty_slot [OF len _ h] assms(1) by (auto simp: hash_ok_def)
  define stop where "stop e \<longleftrightarrow> hs ! ((h + e) mod 125) = 0 \<or> hs ! ((h + e) mod 125) = i" for e
  define m where "m = (LEAST e. stop e)"
  have m: "stop m" unfolding m_def using d by (intro LeastI [of stop d]) (simp add: stop_def)
  have md: "m \<le> d" unfolding m_def using d by (intro Least_le) (simp add: stop_def)
  have before: "\<not> stop e" if "e < m" for e using that not_less_Least [of e stop] by (simp add: m_def)
  have fuel: "125 = m + Suc (124 - m)" using md d by simp
  have run: "hash_probe 125 hs i h = hash_probe (Suc (124 - m)) hs i ((h + m) mod 125)"
    by (subst fuel, rule hash_probe_run) (use before h in \<open>auto simp: stop_def\<close>)
  show ?thesis
  proof (cases "hs ! ((h + m) mod 125) = 0")
    case True
    have "i \<notin> set hs"
    proof
      assume "i \<in> set hs"
      then obtain k where k: "k < 125" "hs ! k = i" using len by (auto simp: in_set_conv_nth)
      with assms obtain d' where d': "d' < 125" "k = (h + d') mod 125" "\<forall>e < d'. hs ! ((h + e) mod 125) \<noteq> 0"
        unfolding hash_ok_def chain_def by blast
      have "stop d'" using d' k by (simp add: stop_def)
      then have "m \<le> d'" unfolding m_def by (rule Least_le)
      moreover have "m \<noteq> d'" using True d' k assms(2) by auto
      ultimately show False using d'(3) [rule_format, of m] True by simp
    qed
    moreover have "chain hs h ((h + m) mod 125)"
      unfolding chain_def using before md d by (intro exI [of _ m]) (auto simp: stop_def)
    ultimately show ?thesis using run True by (intro exI [of _ "(h + m) mod 125"]) simp
  next
    case False
    then have "hs ! ((h + m) mod 125) = i" using m by (simp add: stop_def)
    moreover from this have "i \<in> set hs" using len by (metis mod_less_divisor nth_mem zero_less_numeral)
    ultimately show ?thesis using run assms(2) by (intro exI [of _ "(h + m) mod 125"]) simp
  qed
qed

lemma filter_nonzero_update:
  assumes "k < length hs" "hs ! k = 0" "v \<noteq> 0"
  shows "length (filter (\<lambda>v. v \<noteq> 0) (hs[k := v])) = Suc (length (filter (\<lambda>v. v \<noteq> 0) hs))"
    and "distinct (filter (\<lambda>v. v \<noteq> 0) hs) \<Longrightarrow> v \<notin> set hs \<Longrightarrow> distinct (filter (\<lambda>v. v \<noteq> 0) (hs[k := v]))"
    and "set (hs[k := v]) - {0} = insert v (set hs - {0})"
proof -
  define A B where "A = take k hs" and "B = drop (Suc k) hs"
  have hs: "hs = A @ 0 # B" using id_take_nth_drop [OF assms(1)] assms(2) by (simp add: A_def B_def)
  have up: "hs[k := v] = A @ v # B" using upd_conv_take_nth_drop [OF assms(1)] by (simp add: A_def B_def)
  show "length (filter (\<lambda>v. v \<noteq> 0) (hs[k := v])) = Suc (length (filter (\<lambda>v. v \<noteq> 0) hs))"
    using assms(3) by (simp only: up) (simp add: hs)
  show "distinct (filter (\<lambda>v. v \<noteq> 0) hs) \<Longrightarrow> v \<notin> set hs \<Longrightarrow> distinct (filter (\<lambda>v. v \<noteq> 0) (hs[k := v]))"
    using assms(3) by (simp only: up) (auto simp: hs)
  show "set (hs[k := v]) - {0} = insert v (set hs - {0})"
    using assms(3) by (simp only: up) (auto simp: hs)
qed

lemma hash_ok_insert:
  assumes "hash_ok s hs" "v \<noteq> 0" "v \<notin> set hs" "s < 124" "k < 125" "hs ! k = 0" "chain hs (BITVEC_HASH (v - 1)) k"
  shows "hash_ok (s + 1) (hs[k := v])"
proof -
  have len: "length hs = 125" using assms(1) by (simp add: hash_ok_def)
  have up: "chain (hs[k := v]) h j" if c: "chain hs h j" for h j
  proof -
    obtain d where "d < 125" "j = (h + d) mod 125" "\<forall>e < d. hs ! ((h + e) mod 125) \<noteq> 0"
      using c unfolding chain_def by blast
    then show ?thesis unfolding chain_def using assms(2,5) len
      by (intro exI [of _ d]) (auto simp: nth_list_update)
  qed
  have "chain (hs[k := v]) (BITVEC_HASH (hs[k := v] ! j - 1)) j" if "j < 125" "hs[k := v] ! j \<noteq> 0" for j
    using that assms(1,5,7) by (cases "j = k") (auto simp: hash_ok_def len intro: up)
  then show ?thesis using assms filter_nonzero_update [of k hs v] by (simp add: hash_ok_def)
qed


lemma hash_ok_replicate: "hash_ok 0 (replicate 125 0)"
  by (simp add: hash_ok_def)

lemma hash_free_probe: "h < 125 \<Longrightarrow> hash_probe n hs v h = Some (False, k) \<Longrightarrow> hash_free n hs h = Some k"
proof (induction n arbitrary: h)
  case (Suc n)
  have "(if 125 \<le> h + 1 then 0 else h + 1) = (h + 1) mod 125" using Suc.prems(1) by (cases "h = 124") auto
  with Suc show ?case by (auto split: if_splits)
qed simp

text \<open>The rebuilt table holds the values of \<open>vs\<close> that are not 0 or \<open>i\<close>, besides those it held.\<close>

lemma hash_rebuild_correct:
  "hash_ok s hs \<Longrightarrow> s + length (filter (\<lambda>v. v \<noteq> 0) vs) < 125 \<Longrightarrow> distinct (filter (\<lambda>v. v \<noteq> 0) vs) \<Longrightarrow>
   set vs \<inter> set hs \<subseteq> {0} \<Longrightarrow>
   \<exists>s' hs'. hash_rebuild vs i (s, hs) = Some (s', hs') \<and> hash_ok s' hs' \<and>
     set hs' - {0} = (set hs - {0}) \<union> (set vs - {0, i})"
proof (induction vs arbitrary: s hs)
  case (Cons v vs)
  show ?case
  proof (cases "v \<noteq> 0 \<and> v \<noteq> i")
    case True
    then have v: "v \<notin> set hs" using Cons.prems(4) by auto
    obtain k where k: "k < 125" "hash_probe 125 hs v (BITVEC_HASH (v - 1)) = Some (False, k)" "hs ! k = 0"
      "chain hs (BITVEC_HASH (v - 1)) k"
      using hash_probe_correct [OF Cons.prems(1), of v] True v by auto
    have free: "hash_free 125 hs (BITVEC_HASH (v - 1)) = Some k"
      using k(2) by (intro hash_free_probe) simp_all
    have ok: "hash_ok (s + 1) (hs[k := v])"
      using Cons.prems True v k by (intro hash_ok_insert) auto
    have set: "set (hs[k := v]) - {0} = insert v (set hs - {0})"
      using filter_nonzero_update(3) [of k hs v] k True Cons.prems(1) by (simp add: hash_ok_def)
    have disj: "set vs \<inter> set (hs[k := v]) \<subseteq> {0}"
    proof -
      have "v \<notin> set vs" using Cons.prems(3) True by simp
      moreover have "set (hs[k := v]) \<subseteq> insert 0 (insert v (set hs))" using set by blast
      ultimately show ?thesis using Cons.prems(4) by auto
    qed
    have "s + 1 + length (filter (\<lambda>v. v \<noteq> 0) vs) < 125" "distinct (filter (\<lambda>v. v \<noteq> 0) vs)"
      using Cons.prems(2,3) True by simp_all
    from Cons.IH [OF ok this disj] obtain s' hs' where IH: "hash_rebuild vs i (s + 1, hs[k := v]) = Some (s', hs')"
      "hash_ok s' hs'" "set hs' - {0} = (set (hs[k := v]) - {0}) \<union> (set vs - {0, i})" by blast
    have "hash_rebuild (v # vs) i (s, hs) = Some (s', hs')" using True free IH(1) by simp
    moreover have "set hs' - {0} = (set hs - {0}) \<union> (set (v # vs) - {0, i})"
      using True by (simp only: IH(3) set) auto
    ultimately show ?thesis using IH(2) by blast
  next
    case False
    have prems: "s + length (filter (\<lambda>v. v \<noteq> 0) vs) < 125" "distinct (filter (\<lambda>v. v \<noteq> 0) vs)" "set vs \<inter> set hs \<subseteq> {0}"
      using Cons.prems(2-4) by (auto split: if_splits)
    have "hash_rebuild (v # vs) i (s, hs) = hash_rebuild vs i (s, hs)" using False by auto
    moreover have "set (v # vs) - {0, i} = set vs - {0, i}" using False by auto
    ultimately show ?thesis using Cons.IH [OF Cons.prems(1) prems] by simp
  qed
qed auto


section \<open>The set of bits and the invariant\<close>

text \<open>The bits that are set, counted from 0.\<close>

lemma size_sub_set: "Some q \<in> set subs \<Longrightarrow> size q < size_list (size_option size) subs"
  using size_sub by (fastforce simp: in_set_conv_nth)

function bv_bits :: "bitvec \<Rightarrow> nat set" where
  "bv_bits (Bitvec n s d v) = (case v of
     ABitmap bs \<Rightarrow> {i. i < n \<and> bit (bs ! (i div 8)) (i mod 8)}
   | AHash hs \<Rightarrow> {i. i + 1 \<in> set hs}
   | ApSub subs \<Rightarrow> {i. \<exists>q \<in> set (map the (filter (\<lambda>q. q \<noteq> None) subs)).
       i div d < length subs \<and> subs ! (i div d) = Some q \<and> i mod d \<in> bv_bits q})"
  by pat_completeness auto
termination
  by (relation "measure size") (auto dest!: size_sub_set)

function bitvec_ok :: "bitvec \<Rightarrow> bool" where
  "bitvec_ok (Bitvec n s d v) \<longleftrightarrow> n < 2 ^ 32 \<and> (case v of
     ABitmap bs \<Rightarrow> d = 0 \<and> n \<le> 4000 \<and> length bs = 500
   | AHash hs \<Rightarrow> d = 0 \<and> 4000 < n \<and> hash_ok s hs \<and> (\<forall>v \<in> set hs. v \<le> n)
   | ApSub subs \<Rightarrow> d = sub_size n \<and> 4000 < n \<and> length subs = 125 \<and>
       (\<forall>q. Some q \<in> set subs \<longrightarrow> iSize q = d \<and> bitvec_ok q))"
  by pat_completeness auto
termination
  by (relation "measure size") (auto dest!: size_sub_set)

declare bv_bits.simps [simp del] bitvec_ok.simps [simp del]

lemma bv_bits_simps [simp]:
  "bv_bits (Bitvec n s d (ABitmap bs)) = {i. i < n \<and> bit (bs ! (i div 8)) (i mod 8)}"
  "bv_bits (Bitvec n s d (AHash hs)) = {i. i + 1 \<in> set hs}"
  "bv_bits (Bitvec n s d (ApSub subs)) =
    {i. i div d < length subs \<and> (\<exists>q. subs ! (i div d) = Some q \<and> i mod d \<in> bv_bits q)}"
  by (force simp: bv_bits.simps image_iff dest: nth_mem)+

lemma bitvec_ok_simps [simp]:
  "bitvec_ok (Bitvec n s d (ABitmap bs)) \<longleftrightarrow> d = 0 \<and> n \<le> 4000 \<and> length bs = 500"
  "bitvec_ok (Bitvec n s d (AHash hs)) \<longleftrightarrow>
     n < 2 ^ 32 \<and> d = 0 \<and> 4000 < n \<and> hash_ok s hs \<and> (\<forall>v \<in> set hs. v \<le> n)"
  "bitvec_ok (Bitvec n s d (ApSub subs)) \<longleftrightarrow>
     n < 2 ^ 32 \<and> d = sub_size n \<and> 4000 < n \<and> length subs = 125 \<and>
     (\<forall>q. Some q \<in> set subs \<longrightarrow> iSize q = d \<and> bitvec_ok q)"
  by (auto simp: bitvec_ok.simps)

lemma sub_size:
  assumes "4000 < n"
  shows "sub_size n < n" "4000 \<le> sub_size n" "n \<le> 125 * sub_size n" "sub_size n \<le> max 4000 (n div 125 + 1)"
  using assms by (auto simp: sub_size_def Let_def)

lemma sub_size_bin: "4000 < n \<Longrightarrow> i < n \<Longrightarrow> i div sub_size n < 125 \<and> i mod sub_size n < sub_size n"
  using sub_size(2,3) [of n] by (simp add: div_less_iff_less_mult mult.commute)

section \<open>Testing\<close>

lemma bitmap_test_eq: "i div 8 < length bs \<Longrightarrow> bitmap_test bs i = Some (bit (bs ! (i div 8)) (i mod 8))"
proof -
  have "(w AND push_bit k 1 \<noteq> 0) = bit w k" if "k < 8" for w :: u8 and k
    using that by (auto simp: bit_iff_and_push_bit_not_eq_0)
  then show "i div 8 < length bs \<Longrightarrow> ?thesis" by (simp add: bitmap_test_def)
qed

lemma bitvec_test_correct: "bitvec_ok p \<Longrightarrow> i < iSize p \<Longrightarrow> bitvec_test p i = Some (i \<in> bv_bits p)"
proof (induction p i rule: bitvec_test.induct)
  case (1 n s d v i)
  show ?case
  proof (cases v)
    case (ABitmap bs)
    with 1 show ?thesis by (auto intro!: bitmap_test_eq)
  next
    case (AHash hs)
    with 1 obtain k where "hash_probe 125 hs (i + 1) (BITVEC_HASH i) = Some (i + 1 \<in> set hs, k)"
      using hash_probe_correct [of s hs "i + 1" "BITVEC_HASH i"] by auto
    with 1 AHash show ?thesis by simp
  next
    case (ApSub subs)
    with 1 have d: "d = sub_size n" "4000 < n" "i < n" "length subs = 125" by simp_all
    with sub_size_bin [of n i] sub_size [of n] have bin: "i div d < 125" "i mod d < d" "d \<noteq> 0" by auto
    show ?thesis
    proof (cases "subs ! (i div d)")
      case (Some q)
      then have "Some q \<in> set subs" using bin d by (metis nth_mem)
      with 1 ApSub have "bitvec_ok q" "iSize q = d" by auto
      with 1 ApSub Some bin d show ?thesis by simp
    qed (use bin d ApSub in simp)
  qed
qed


section \<open>Setting\<close>

lemma bitmap_set_bits:
  "i < n \<Longrightarrow> n \<le> 4000 \<Longrightarrow> length bs = 500 \<Longrightarrow>
   bv_bits (Bitvec n s d (ABitmap (bitmap_set bs i))) = insert i (bv_bits (Bitvec n s d (ABitmap bs)))"
proof -
  assume a: "i < n" "n \<le> 4000" "length bs = 500"
  have "bit (bitmap_set bs i ! (j div 8)) (j mod 8) \<longleftrightarrow> j = i \<or> bit (bs ! (j div 8)) (j mod 8)" if "j < n" for j
  proof (cases "j div 8 = i div 8")
    case True
    have "j mod 8 = i mod 8 \<longleftrightarrow> j = i" using True by (metis div_mod_decomp)
    with True a that show ?thesis by (auto simp: bitmap_set_def bit_simps)
  qed (use a that in \<open>auto simp: bitmap_set_def\<close>)
  with a show ?thesis by auto
qed

lemma bitmap_clear_bits:
  "i < n \<Longrightarrow> n \<le> 4000 \<Longrightarrow> length bs = 500 \<Longrightarrow>
   bv_bits (Bitvec n s d (ABitmap (bitmap_clear bs i))) = bv_bits (Bitvec n s d (ABitmap bs)) - {i}"
proof -
  assume a: "i < n" "n \<le> 4000" "length bs = 500"
  have "bit (bitmap_clear bs i ! (j div 8)) (j mod 8) \<longleftrightarrow> j \<noteq> i \<and> bit (bs ! (j div 8)) (j mod 8)" if "j < n" for j
  proof (cases "j div 8 = i div 8")
    case True
    have "j mod 8 = i mod 8 \<longleftrightarrow> j = i" using True by (metis div_mod_decomp)
    with True a that show ?thesis by (auto simp: bitmap_clear_def bit_simps)
  qed (use a that in \<open>auto simp: bitmap_clear_def\<close>)
  with a show ?thesis by auto
qed

lemma create_ok:
  assumes "sqlite3BitvecCreate n ms = (Some p, ms')" "n < 2 ^ 32"
  shows "bitvec_ok p \<and> iSize p = n \<and> bv_bits p = {}"
  using assms
  by (auto simp: sqlite3BitvecCreate_def Let_def hash_ok_replicate split: prod.splits if_splits)
    (simp add: div_less_iff_less_mult)?

text \<open>How deep the recursion goes for a bitmap of \<open>n\<close> bits.\<close>

function levels :: "nat \<Rightarrow> nat" where
  "levels n = (if n \<le> 4000 then 1 else 2 + levels (sub_size n))"
  by pat_completeness auto
termination by (relation "measure id") (auto simp: sub_size not_le)

declare levels.simps [simp del]

lemma levels_bound: "n < 2 ^ 32 \<Longrightarrow> levels n \<le> 7"
proof -
  assume n: "n < 2 ^ 32"
  define a b c where "a = sub_size n" and "b = sub_size a" and "c = sub_size b"
  have step: "sub_size k \<le> m" if "4000 < k" "k div 125 + 1 \<le> m" "4000 \<le> m" for k m
    using sub_size(4) [OF that(1)] that by simp
  have "4000 < n \<Longrightarrow> a \<le> 34359739" unfolding a_def by (rule step) (use n in auto)
  moreover have "a \<le> 34359739 \<Longrightarrow> 4000 < a \<Longrightarrow> b \<le> 274878" unfolding b_def by (rule step) auto
  moreover have "b \<le> 274878 \<Longrightarrow> 4000 < b \<Longrightarrow> c \<le> 4000" unfolding c_def by (rule step) auto
  ultimately show ?thesis
    by (subst levels.simps, simp only: a_def [symmetric], subst levels.simps, simp only: b_def [symmetric],
        subst levels.simps, simp only: c_def [symmetric], subst levels.simps) auto
qed


text \<open>What a call of \<open>sqlite3BitvecSet\<close> for bit \<open>i\<close> must have done.\<close>

definition set_done ::
  "bitvec \<Rightarrow> nat set \<Rightarrow> bool list \<Rightarrow> (nat \<times> bitvec \<times> bool list) option \<Rightarrow> bool" where
  "set_done p I ms r \<longleftrightarrow> (\<exists>rc p' ms'. r = Some (rc, p', ms') \<and> bitvec_ok p' \<and> iSize p' = iSize p \<and>
     (iDivisor p \<noteq> 0 \<longrightarrow> iDivisor p' \<noteq> 0) \<and> (rc = SQLITE_OK \<or> rc = SQLITE_NOMEM) \<and>
     bv_bits p' \<subseteq> bv_bits p \<union> I \<and> (rc = SQLITE_OK \<longrightarrow> bv_bits p' = bv_bits p \<union> I) \<and>
     (ms = [] \<longrightarrow> rc = SQLITE_OK \<and> ms' = []))"

lemma rc_simps [simp]: "SQLITE_OK = 0" "SQLITE_NOMEM = 7"
  by (simp_all add: SQLITE_OK_def SQLITE_NOMEM_def)

lemma sub_update:
  assumes ok: "bitvec_ok (Bitvec n s d (ApSub subs))" and i: "i < n"
    and q': "bitvec_ok q'" "iSize q' = d"
  shows "bitvec_ok (Bitvec n s d (ApSub (subs[i div d := Some q'])))"
    and "bv_bits (Bitvec n s d (ApSub (subs[i div d := Some q'])))
      = {j. j div d \<noteq> i div d \<and> j \<in> bv_bits (Bitvec n s d (ApSub subs))}
        \<union> {j. j div d = i div d \<and> j mod d \<in> bv_bits q'}"
proof -
  have bin: "i div d < length subs" using ok i sub_size_bin by simp
  show "bitvec_ok (Bitvec n s d (ApSub (subs[i div d := Some q'])))"
    using ok q' by (auto dest!: set_update_subset_insert [THEN subsetD])
  show "bv_bits (Bitvec n s d (ApSub (subs[i div d := Some q'])))
      = {j. j div d \<noteq> i div d \<and> j \<in> bv_bits (Bitvec n s d (ApSub subs))}
        \<union> {j. j div d = i div d \<and> j mod d \<in> bv_bits q'}"
    using bin by (auto simp: nth_list_update)
qed

lemma div_mod_same: "j div d = i div d \<Longrightarrow> j mod d = i mod d \<longleftrightarrow> j = i" for i j d :: nat
  by (metis div_mod_decomp)

lemma set_sub_done:
  assumes ok: "bitvec_ok (Bitvec n s d (ApSub subs))" and i: "i < n"
    and q: "bitvec_ok q" "iSize q = d"
      "bv_bits q = (case subs ! (i div d) of None \<Rightarrow> {} | Some q \<Rightarrow> bv_bits q)"
    and r: "set_done q {i mod d} ms (Some (rc, q', ms'))"
  shows "set_done (Bitvec n s d (ApSub subs)) {i} ms (Some (rc, Bitvec n s d (ApSub (subs[i div d := Some q'])), ms'))"
proof -
  have q': "bitvec_ok q'" "iSize q' = d" using r q(2) by (simp_all add: set_done_def)
  have bin: "i div d < length subs" using ok i sub_size_bin by simp
  let ?B = "bv_bits (Bitvec n s d (ApSub subs))"
  have B: "j \<in> ?B \<longleftrightarrow> j mod d \<in> bv_bits q" if "j div d = i div d" for j
    using that bin by (auto simp: q(3) split: option.split)
  have sub: "bv_bits q' \<subseteq> insert (i mod d) (bv_bits q)" and
    eq: "rc = 0 \<Longrightarrow> bv_bits q' = insert (i mod d) (bv_bits q)"
    using r by (auto simp: set_done_def)
  note up = sub_update(2) [OF ok i q']
  have "bv_bits (Bitvec n s d (ApSub (subs[i div d := Some q']))) \<subseteq> insert i ?B"
    unfolding up using sub B div_mod_same [of _ d i] by blast
  moreover have "bv_bits (Bitvec n s d (ApSub (subs[i div d := Some q']))) = insert i ?B" if "rc = 0"
    unfolding up eq [OF that] using B div_mod_same [of _ d i] by blast
  ultimately show ?thesis using sub_update(1) [OF ok i q'] r
    by (simp add: set_done_def del: bv_bits_simps bitvec_ok_simps)
qed

text \<open>The loop that moves the values of a full hash table into the sub-bitmaps.\<close>

definition rehash_step ::
  "nat \<Rightarrow> nat \<Rightarrow> (nat \<times> bitvec \<times> bool list) option \<Rightarrow> (nat \<times> bitvec \<times> bool list) option" where
  "rehash_step fuel v st =
     (if v = 0 then st else
      case st of None \<Rightarrow> None | Some (rc, p, ms) \<Rightarrow>
      case bitvec_set fuel p (v - 1) ms of None \<Rightarrow> None | Some (rc', p, ms) \<Rightarrow>
      Some (rc OR rc', p, ms))"

lemma rehash_done:
  assumes IH: "\<And>p i ms. bitvec_ok p \<Longrightarrow> iSize p = n \<Longrightarrow> i < n \<Longrightarrow> iDivisor p \<noteq> 0 \<Longrightarrow> set_done p {i} ms (bitvec_set fuel p i ms)"
  shows "\<forall>v \<in> set vs. v \<le> n \<Longrightarrow> bitvec_ok p0 \<Longrightarrow> iSize p0 = n \<Longrightarrow> iDivisor p0 \<noteq> 0 \<Longrightarrow> set_done p0 I ms0 (Some (rc, p, ms)) \<Longrightarrow>
    set_done p0 (I \<union> {v - 1 | v. v \<in> set vs \<and> v \<noteq> 0}) ms0 (fold (rehash_step fuel) vs (Some (rc, p, ms)))"
proof (induction vs arbitrary: rc p ms I)
  case (Cons v vs)
  show ?case
  proof (cases "v = 0")
    case True
    then have "{v' - 1 | v'. v' \<in> set (v # vs) \<and> v' \<noteq> 0} = {v - 1 | v. v \<in> set vs \<and> v \<noteq> 0}" by auto
    with Cons True show ?thesis by (simp add: rehash_step_def)
  next
    case False
    have p: "bitvec_ok p" "iSize p = n" "iDivisor p \<noteq> 0" using Cons.prems by (auto simp: set_done_def)
    have "v - 1 < n" using Cons.prems(1) False by auto
    from IH [OF p(1,2) this p(3), of ms] obtain rc' p' ms' where
      r: "bitvec_set fuel p (v - 1) ms = Some (rc', p', ms')" "set_done p {v - 1} ms (Some (rc', p', ms'))"
      by (auto simp: set_done_def)
    have "set_done p0 (I \<union> {v - 1}) ms0 (Some (rc OR rc', p', ms'))"
      using r(2) Cons.prems(4,5) p by (auto simp: set_done_def)
    from Cons.IH [OF _ Cons.prems(2-4) this] Cons.prems(1)
    have "set_done p0 (I \<union> {v - 1} \<union> {v - 1 | v. v \<in> set vs \<and> v \<noteq> 0}) ms0
        (fold (rehash_step fuel) vs (Some (rc OR rc', p', ms')))" by simp
    moreover have "I \<union> {v - 1} \<union> {v - 1 | v. v \<in> set vs \<and> v \<noteq> 0} = I \<union> {v' - 1 | v'. v' \<in> set (v # vs) \<and> v' \<noteq> 0}"
      using False by auto
    moreover have "rehash_step fuel v (Some (rc, p, ms)) = Some (rc OR rc', p', ms')"
      using False r(1) by (simp add: rehash_step_def)
    ultimately show ?thesis by simp
  qed
qed simp


text \<open>One round of \<open>sqlite3BitvecSet\<close> for each representation.\<close>

lemma bitvec_set_AHash:
  assumes "4000 < n"
  shows "bitvec_set (Suc fuel) (Bitvec n s 0 (AHash hs)) i ms =
    (case hash_probe 125 hs (i + 1) (BITVEC_HASH i) of None \<Rightarrow> None
     | Some (True, h) \<Rightarrow> Some (0, Bitvec n s 0 (AHash hs), ms)
     | Some (False, h) \<Rightarrow>
       if hs ! BITVEC_HASH i = 0 \<and> s < 124 \<or> s < 62 then
         Some (0, Bitvec n (s + 1) 0 (AHash (hs[h := i + 1])), ms)
       else if fst (malloc_ok ms) then
         fold (rehash_step fuel) ((i + 1) # hs)
           (Some (0, Bitvec n s (sub_size n) (ApSub (replicate 125 None)), snd (malloc_ok ms)))
       else Some (7, Bitvec n s 0 (AHash hs), snd (malloc_ok ms)))"
proof -
  obtain b ms' where m: "malloc_ok ms = (b, ms')" by fastforce
  show ?thesis
  proof (cases "hash_probe 125 hs (i + 1) (BITVEC_HASH i)")
    case (Some r)
    obtain found h where r: "r = (found, h)" by (cases r)
    with Some m assms show ?thesis
      by (cases found; cases b) (simp_all add: rehash_step_def [abs_def] Let_def del: fold_simps)
  qed (use assms in \<open>simp add: Let_def\<close>)
qed

lemma bitvec_set_ApSub:
  "4000 < n \<Longrightarrow> d \<noteq> 0 \<Longrightarrow> i div d < length subs \<Longrightarrow>
   bitvec_set (Suc fuel) (Bitvec n s d (ApSub subs)) i ms =
    (case (case subs ! (i div d) of Some q \<Rightarrow> (Some q, ms) | None \<Rightarrow> sqlite3BitvecCreate d ms) of
       (None, ms) \<Rightarrow> Some (SQLITE_NOMEM, Bitvec n s d (ApSub subs), ms)
     | (Some q, ms) \<Rightarrow>
         (case bitvec_set fuel q (i mod d) ms of None \<Rightarrow> None
          | Some (rc, q, ms) \<Rightarrow> Some (rc, Bitvec n s d (ApSub (subs[i div d := Some q])), ms)))"
  by (simp add: Let_def del: rc_simps)

lemma bitvec_set_ABitmap:
  "n \<le> 4000 \<Longrightarrow> i div 8 < length bs \<Longrightarrow>
   bitvec_set (Suc fuel) (Bitvec n s 0 (ABitmap bs)) i ms = Some (0, Bitvec n s 0 (ABitmap (bitmap_set bs i)), ms)"
  by simp

declare bitvec_set.simps [simp del]

lemma bitvec_set_hash:
  "hs ! BITVEC_HASH i = 0 \<and> s < 124 \<or> s < 62 \<or> i + 1 \<in> set hs \<Longrightarrow>
   bitvec_ok (Bitvec n s d (AHash hs)) \<Longrightarrow> i < n \<Longrightarrow>
   set_done (Bitvec n s d (AHash hs)) {i} ms (bitvec_set (Suc fuel) (Bitvec n s d (AHash hs)) i ms)"
proof -
  assume room: "hs ! BITVEC_HASH i = 0 \<and> s < 124 \<or> s < 62 \<or> i + 1 \<in> set hs"
    and ok: "bitvec_ok (Bitvec n s d (AHash hs))" and i: "i < n"
  obtain k where k: "k < 125" "hash_probe 125 hs (i + 1) (BITVEC_HASH i) = Some (i + 1 \<in> set hs, k)"
    "i + 1 \<notin> set hs \<longrightarrow> hs ! k = 0 \<and> chain hs (BITVEC_HASH i) k"
    using hash_probe_correct [of s hs "i + 1" "BITVEC_HASH i"] ok by auto
  show ?thesis
  proof (cases "i + 1 \<in> set hs")
    case True
    with k ok i show ?thesis by (auto simp: set_done_def bitvec_set_AHash)
  next
    case False
    have s: "s < 124" using room False by auto
    have hok: "hash_ok (s + 1) (hs[k := i + 1])"
      using ok k False s by (intro hash_ok_insert) auto
    have "set (hs[k := i + 1]) - {0} = insert (i + 1) (set hs - {0})"
      using ok k False by (intro filter_nonzero_update(3)) (auto simp: hash_ok_def)
    then have set: "j + 1 \<in> set (hs[k := i + 1]) \<longleftrightarrow> j = i \<or> j + 1 \<in> set hs" for j by auto
    have "bitvec_set (Suc fuel) (Bitvec n s d (AHash hs)) i ms
        = Some (SQLITE_OK, Bitvec n (s + 1) d (AHash (hs[k := i + 1])), ms)"
      using k False ok room by (simp add: bitvec_set_AHash)
    moreover have "\<forall>v \<in> set (hs[k := i + 1]). v \<le> n"
      using ok i set_update_subset_insert [of hs k "i + 1"] by auto
    ultimately show ?thesis using ok hok set by (auto simp: set_done_def)
  qed
qed

lemma bitvec_set_rehash:
  assumes IH: "\<And>p i ms. bitvec_ok p \<Longrightarrow> iSize p = n \<Longrightarrow> i < n \<Longrightarrow> iDivisor p \<noteq> 0 \<Longrightarrow>
      set_done p {i} ms (bitvec_set fuel p i ms)"
    and full: "\<not> (hs ! BITVEC_HASH i = 0 \<and> s < 124 \<or> s < 62 \<or> i + 1 \<in> set hs)"
    and ok: "bitvec_ok (Bitvec n s d (AHash hs))" and i: "i < n"
  shows "set_done (Bitvec n s d (AHash hs)) {i} ms (bitvec_set (Suc fuel) (Bitvec n s d (AHash hs)) i ms)"
proof -
  obtain k where k: "hash_probe 125 hs (i + 1) (BITVEC_HASH i) = Some (False, k)"
    using hash_probe_correct [of s hs "i + 1" "BITVEC_HASH i"] ok full by auto
  define p where "p = Bitvec n s (sub_size n) (ApSub (replicate 125 None))"
  have p: "bitvec_ok p" "iSize p = n" "iDivisor p \<noteq> 0" "bv_bits p = {}"
    using ok sub_size [of n] by (auto simp: p_def)
  obtain b ms' where m: "malloc_ok ms = (b, ms')" by fastforce
  have room: "(hs ! BITVEC_HASH i = 0 \<and> s < 124 \<or> s < 62) = False" using full by blast
  have n: "4000 < n" "d = 0" using ok by simp_all
  have step: "bitvec_set (Suc fuel) (Bitvec n s d (AHash hs)) i ms =
    (if b then fold (rehash_step fuel) ((i + 1) # hs) (Some (SQLITE_OK, p, ms'))
     else Some (SQLITE_NOMEM, Bitvec n s d (AHash hs), ms'))"
    by (simp only: n(2) bitvec_set_AHash [OF n(1)] k m room p_def option.case prod.case bool.case if_False
        fst_conv snd_conv rc_simps)
  show ?thesis
  proof (cases b)
    case True
    let ?r = "fold (rehash_step fuel) ((i + 1) # hs) (Some (SQLITE_OK, p, ms'))"
    have "set_done p ({} \<union> {v - 1 | v. v \<in> set ((i + 1) # hs) \<and> v \<noteq> 0}) ms' ?r"
      by (rule rehash_done [OF IH]) (use p ok i in \<open>auto simp: set_done_def\<close>)
    moreover have "{} \<union> {v - 1 | v. v \<in> set ((i + 1) # hs) \<and> v \<noteq> 0} = insert i (bv_bits (Bitvec n s d (AHash hs)))"
      by (force intro: exI [of _ "Suc _"])
    ultimately have "set_done p (insert i (bv_bits (Bitvec n s d (AHash hs)))) ms' ?r" by simp
    moreover have "ms = [] \<Longrightarrow> ms' = []" using m by simp
    ultimately have "set_done (Bitvec n s d (AHash hs)) {i} ms ?r"
      unfolding set_done_def using p n by auto
    then show ?thesis using True by (simp only: step if_True)
  next
    case False
    then have "ms \<noteq> []" using m by auto
    with ok have "set_done (Bitvec n s d (AHash hs)) {i} ms (Some (SQLITE_NOMEM, Bitvec n s d (AHash hs), ms'))"
      by (auto simp: set_done_def)
    then show ?thesis using False by (simp only: step if_False)
  qed
qed


text \<open>Every call does what it must, whatever the representation and the allocations.\<close>

theorem bitvec_set_done:
  "bitvec_ok p \<Longrightarrow> i < iSize p \<Longrightarrow> levels (iSize p) \<le> (if iDivisor p = 0 then fuel else fuel + 1) \<Longrightarrow>
   set_done p {i} ms (bitvec_set fuel p i ms)"
proof (induction fuel arbitrary: p i ms)
  case 0
  have "1 \<le> levels (iSize p)" "4000 < iSize p \<Longrightarrow> 3 \<le> levels (iSize p)"
    by (subst levels.simps, simp)+
  moreover have "iDivisor p \<noteq> 0 \<Longrightarrow> 4000 < iSize p"
    using 0 by (cases p; cases "u p") auto
  ultimately show ?case using 0 by (auto split: if_splits)
next
  case (Suc fuel)
  obtain n s d v where p: "p = Bitvec n s d v" by (cases p)
  show ?case
  proof (cases v)
    case (ABitmap bs)
    with Suc.prems p have a: "d = 0" "n \<le> 4000" "length bs = 500" "i < n" by simp_all
    then show ?thesis using bitmap_set_bits [of i n bs s d]
      by (simp add: p ABitmap bitvec_set_ABitmap set_done_def bitmap_set_def del: bv_bits_simps)
  next
    case (AHash hs)
    with Suc.prems p have a: "d = 0" "4000 < n" "i < n" "levels n \<le> Suc fuel" by simp_all
    show ?thesis
    proof (cases "hs ! BITVEC_HASH i = 0 \<and> s < 124 \<or> s < 62 \<or> i + 1 \<in> set hs")
      case True
      then show ?thesis unfolding p AHash using Suc.prems a by (intro bitvec_set_hash) (simp_all add: p AHash)
    next
      case False
      then show ?thesis unfolding p AHash
        by (intro bitvec_set_rehash) (use Suc.prems a in \<open>auto simp: p AHash intro: Suc.IH\<close>)
    qed
  next
    case (ApSub subs)
    with Suc.prems p have ok: "bitvec_ok (Bitvec n s d (ApSub subs))" and n: "4000 < n" "d = sub_size n" "i < n"
      "n < 2 ^ 32" and lev: "levels n \<le> Suc fuel + 1" and subs: "length subs = 125"
      using sub_size [of n] by (simp_all split: if_splits)
    have bin: "i div d < 125" "i mod d < d" "d \<noteq> 0" "d < n"
      using sub_size_bin [of n i] sub_size [of n] n by auto
    have lev': "levels d \<le> fuel" using lev n by (subst (asm) levels.simps) simp
    show ?thesis
    proof (cases "subs ! (i div d)")
      case (Some q)
      then have "Some q \<in> set subs" using bin subs by (metis nth_mem)
      then have q: "bitvec_ok q" "iSize q = d" using ok by simp_all
      have "set_done q {i mod d} ms (bitvec_set fuel q (i mod d) ms)"
        using q lev' bin by (intro Suc.IH) auto
      then obtain rc q' ms' where r: "bitvec_set fuel q (i mod d) ms = Some (rc, q', ms')"
        "set_done q {i mod d} ms (Some (rc, q', ms'))" by (auto simp: set_done_def)
      have "bv_bits q = (case subs ! (i div d) of None \<Rightarrow> {} | Some q \<Rightarrow> bv_bits q)" by (simp add: Some)
      then have "set_done p {i} ms (Some (rc, Bitvec n s d (ApSub (subs[i div d := Some q'])), ms'))"
        unfolding p ApSub by (rule set_sub_done [OF ok n(3) q _ r(2)])
      then show ?thesis using bin(1,3) n(1) subs by (simp add: p ApSub bitvec_set_ApSub Some r(1))
    next
      case None
      obtain o1 ms1 where c: "sqlite3BitvecCreate d ms = (o1, ms1)" by fastforce
      show ?thesis
      proof (cases o1)
        case N: None
        then have "ms \<noteq> []" using c by (auto simp: sqlite3BitvecCreate_def Let_def)
        then have "set_done p {i} ms (Some (SQLITE_NOMEM, p, ms1))"
          using Suc.prems(1) by (simp add: set_done_def del: bv_bits_simps bitvec_ok_simps) blast
        then show ?thesis using bin(1,3) n(1) subs c N by (simp add: p ApSub bitvec_set_ApSub None)
      next
        case (Some q)
        have q: "bitvec_ok q" "iSize q = d" "bv_bits q = {}"
          using create_ok [of d ms q ms1] c Some n(4) bin by auto
        have m: "ms = [] \<Longrightarrow> ms1 = []" using c by (auto simp: sqlite3BitvecCreate_def Let_def split: prod.splits)
        have "set_done q {i mod d} ms1 (bitvec_set fuel q (i mod d) ms1)"
          using q lev' bin by (intro Suc.IH) auto
        moreover from this obtain rc q' ms' where r: "bitvec_set fuel q (i mod d) ms1 = Some (rc, q', ms')"
          by (auto simp: set_done_def)
        ultimately have r2: "set_done q {i mod d} ms (Some (rc, q', ms'))" using m by (auto simp: set_done_def)
        have "bv_bits q = (case subs ! (i div d) of None \<Rightarrow> {} | Some q \<Rightarrow> bv_bits q)"
          by (simp add: None q(3))
        then have "set_done p {i} ms (Some (rc, Bitvec n s d (ApSub (subs[i div d := Some q'])), ms'))"
          unfolding p ApSub by (rule set_sub_done [OF ok n(3) q(1,2) _ r2])
        then show ?thesis using bin(1,3) n(1) subs by (simp add: p ApSub bitvec_set_ApSub None c Some r)
      qed
    qed
  qed
qed


lemma levels_pos: "1 \<le> levels n" by (subst levels.simps) simp

section \<open>Clearing\<close>

lemma bitvec_clear_done:
  "bitvec_ok p \<Longrightarrow> i < iSize p \<Longrightarrow>
   \<exists>p'. bitvec_clear p i = Some p' \<and> bitvec_ok p' \<and> iSize p' = iSize p \<and> bv_bits p' = bv_bits p - {i}"
proof (induction p i rule: bitvec_clear.induct)
  case (1 n s d v i)
  show ?case
  proof (cases v)
    case (ABitmap bs)
    with 1 have a: "d = 0" "n \<le> 4000" "length bs = 500" "i < n" by simp_all
    then show ?thesis using bitmap_clear_bits [of i n bs s d]
      by (simp add: ABitmap bitmap_clear_def del: bv_bits_simps)
  next
    case (AHash hs)
    with 1 have a: "d = 0" "4000 < n" "hash_ok s hs" "\<forall>v \<in> set hs. v \<le> n" "n < 2 ^ 32" by simp_all
    obtain s' hs' where r: "hash_rebuild hs (i + 1) (0, replicate 125 0) = Some (s', hs')" "hash_ok s' hs'"
      "set hs' - {0} = set hs - {0, i + 1}"
      using hash_rebuild_correct [OF hash_ok_replicate, of hs "i + 1"] a(3) by (auto simp: hash_ok_def)
    have "j + 1 \<in> set hs' \<longleftrightarrow> j \<noteq> i \<and> j + 1 \<in> set hs" for j using r(3) by auto
    moreover have "\<forall>v \<in> set hs'. v \<le> n" using r(3) a(4) by (metis DiffD1 DiffI empty_iff insertE le0)
    ultimately show ?thesis using r a by (auto simp: AHash)
  next
    case (ApSub subs)
    with 1 have ok: "bitvec_ok (Bitvec n s d (ApSub subs))" and n: "4000 < n" "d = sub_size n" "i < n"
      and subs: "length subs = 125" by simp_all
    have bin: "i div d < 125" "i mod d < d" "d \<noteq> 0"
      using sub_size_bin [of n i] sub_size [of n] n by auto
    show ?thesis
    proof (cases "subs ! (i div d)")
      case None
      then show ?thesis using ok bin subs by (auto simp: ApSub)
    next
      case (Some q)
      then have "Some q \<in> set subs" using bin subs by (metis nth_mem)
      then have q: "bitvec_ok q" "iSize q = d" using ok by simp_all
      with 1(1) [OF _ ApSub _ Some] bin subs obtain q' where r: "bitvec_clear q (i mod d) = Some q'"
        "bitvec_ok q'" "iSize q' = d" "bv_bits q' = bv_bits q - {i mod d}" by auto
      have B: "j \<in> bv_bits (Bitvec n s d (ApSub subs)) \<longleftrightarrow> j mod d \<in> bv_bits q" if "j div d = i div d" for j
        using that bin subs by (auto simp: Some)
      have "bv_bits (Bitvec n s d (ApSub (subs[i div d := Some q']))) = bv_bits (Bitvec n s d (ApSub subs)) - {i}"
        unfolding sub_update(2) [OF ok n(3) r(2,3)] r(4) using B div_mod_same [of _ d i] by blast
      then show ?thesis using sub_update(1) [OF ok n(3) r(2,3)] bin subs
        by (simp add: ApSub Some r(1) del: bv_bits_simps bitvec_ok_simps)
    qed
  qed
qed


section \<open>The interface\<close>

lemma sqlite3BitvecSet_done:
  assumes "bitvec_ok p" "1 \<le> i" "i \<le> iSize p"
  obtains rc p' ms' where "sqlite3BitvecSet (Some p) i ms = Some (rc, Some p', ms')"
    "bitvec_ok p'" "iSize p' = iSize p" "rc = SQLITE_OK \<or> rc = SQLITE_NOMEM"
    "bv_bits p' \<subseteq> insert (i - 1) (bv_bits p)"
    "rc = SQLITE_OK \<Longrightarrow> bv_bits p' = insert (i - 1) (bv_bits p)" "ms = [] \<Longrightarrow> rc = SQLITE_OK \<and> ms' = []"
proof -
  have "iSize p < 2 ^ 32" using assms(1) by (cases p; cases "u p") auto
  then have "levels (iSize p) \<le> SET_FUEL" using levels_bound [of "iSize p"] by (simp add: SET_FUEL_def)
  then have "set_done p {i - 1} ms (bitvec_set SET_FUEL p (i - 1) ms)"
    using assms by (intro bitvec_set_done) auto
  then obtain rc p' ms' where "bitvec_set SET_FUEL p (i - 1) ms = Some (rc, p', ms')"
    "set_done p {i - 1} ms (Some (rc, p', ms'))" by (auto simp: set_done_def)
  then show ?thesis using that [of rc p' ms'] by (auto simp: sqlite3BitvecSet_def set_done_def)
qed

text \<open>The operations without allocation failures, as a client sees them.\<close>

definition bitvec_add :: "bitvec \<Rightarrow> nat \<Rightarrow> bitvec" where
  "bitvec_add p i = (case sqlite3BitvecSet (Some p) i [] of Some (_, Some p', _) \<Rightarrow> p' | _ \<Rightarrow> p)"

definition bitvec_remove :: "bitvec \<Rightarrow> nat \<Rightarrow> bitvec" where
  "bitvec_remove p i = (case sqlite3BitvecClear (Some p) i of Some (Some p') \<Rightarrow> p' | _ \<Rightarrow> p)"

definition bitvec_has :: "bitvec \<Rightarrow> nat \<Rightarrow> bool" where
  "bitvec_has p i \<longleftrightarrow> sqlite3BitvecTest (Some p) i = Some True"

text \<open>The set of the bits as the interface counts them, from 1.\<close>

definition bitvec_elems :: "bitvec \<Rightarrow> nat set" where
  "bitvec_elems p = Suc ` bv_bits p"

lemma bitvec_elems_iff: "1 \<le> i \<Longrightarrow> i \<in> bitvec_elems p \<longleftrightarrow> i - 1 \<in> bv_bits p"
  by (cases i) (auto simp: bitvec_elems_def)

lemma sqlite3BitvecTest_eq:
  assumes "bitvec_ok p" "1 \<le> i" "i \<le> iSize p"
  shows "sqlite3BitvecTest (Some p) i = Some (i \<in> bitvec_elems p)"
proof -
  have "iSize p < 2 ^ 32" using assms(1) by (cases p; cases "u p") auto
  moreover from this have "(i + (2 ^ 32 - 1)) mod 2 ^ 32 = i - 1"
    using assms by (simp add: mod_if)
  moreover have "i - 1 < iSize p" using assms by simp
  ultimately show ?thesis using assms(2) bitvec_test_correct [OF assms(1), of "i - 1"]
    by (simp add: sqlite3BitvecTest_def sqlite3BitvecTestNotNull_def Let_def bitvec_elems_iff)
qed

lemma elems_add: "1 \<le> i \<Longrightarrow> Suc ` insert (i - 1) B = insert i (Suc ` B)"
  by simp

lemma elems_remove: "1 \<le> i \<Longrightarrow> Suc ` (B - {i - 1}) = Suc ` B - {i}"
  by (cases i) auto

interpretation bv: index_set bitvec_add bitvec_remove bitvec_has bitvec_ok iSize bitvec_elems
proof
  fix p i assume a: "bitvec_ok p" "1 \<le> i" "i \<le> iSize p"
  then have lt: "i - 1 < iSize p" by simp
  from a obtain rc p' ms' where "sqlite3BitvecSet (Some p) i [] = Some (rc, Some p', ms')"
    "bitvec_ok p'" "iSize p' = iSize p" "bv_bits p' = insert (i - 1) (bv_bits p)"
    by (rule sqlite3BitvecSet_done [where ms = "[]"]) auto
  then show "bitvec_ok (bitvec_add p i) \<and> iSize (bitvec_add p i) = iSize p \<and>
      bitvec_elems (bitvec_add p i) = insert i (bitvec_elems p)"
    using elems_add [OF a(2), of "bv_bits p"] by (simp add: bitvec_add_def bitvec_elems_def)
  obtain q where "bitvec_clear p (i - 1) = Some q" "bitvec_ok q" "iSize q = iSize p" "bv_bits q = bv_bits p - {i - 1}"
    using bitvec_clear_done [OF a(1) lt] by blast
  then show "bitvec_ok (bitvec_remove p i) \<and> iSize (bitvec_remove p i) = iSize p \<and>
      bitvec_elems (bitvec_remove p i) = bitvec_elems p - {i}"
    using elems_remove [OF a(2), of "bv_bits p"]
    by (simp add: bitvec_remove_def sqlite3BitvecClear_def bitvec_elems_def)
  show "bitvec_has p i \<longleftrightarrow> i \<in> bitvec_elems p"
    using sqlite3BitvecTest_eq [OF a] by (simp add: bitvec_has_def)
qed

section \<open>Properties\<close>

text \<open>
  C4.  Setting a bit of a well-formed bitmap, whatever allocations fail, never reads outside
  an array or the wrong union member, never loops, keeps the bitmap well formed and of the same
  size, and returns \<open>SQLITE_OK\<close> or \<open>SQLITE_NOMEM\<close>: in the first case exactly the bit \<open>i\<close> has
  been added, in the second no other bit has appeared.
\<close>

theorem sqlite3BitvecSet_correct:
  assumes "bitvec_ok p" "1 \<le> i" "i \<le> iSize p"
  shows "\<exists>rc p' ms'. sqlite3BitvecSet (Some p) i ms = Some (rc, Some p', ms') \<and>
    bitvec_ok p' \<and> iSize p' = iSize p \<and>
    (rc = SQLITE_OK \<and> bitvec_elems p' = insert i (bitvec_elems p) \<or>
     rc = SQLITE_NOMEM \<and> bitvec_elems p' \<subseteq> insert i (bitvec_elems p))"
proof -
  obtain rc p' ms' where r: "sqlite3BitvecSet (Some p) i ms = Some (rc, Some p', ms')"
    "bitvec_ok p'" "iSize p' = iSize p" "rc = SQLITE_OK \<or> rc = SQLITE_NOMEM"
    "bv_bits p' \<subseteq> insert (i - 1) (bv_bits p)"
    "rc = SQLITE_OK \<Longrightarrow> bv_bits p' = insert (i - 1) (bv_bits p)"
    by (rule sqlite3BitvecSet_done [OF assms, of ms]) blast
  have i: "insert i (bitvec_elems p) = Suc ` insert (i - 1) (bv_bits p)"
    using assms(2) by (simp add: bitvec_elems_def)
  have "bitvec_elems p' \<subseteq> insert i (bitvec_elems p)"
    unfolding i unfolding bitvec_elems_def by (rule image_mono [OF r(5)])
  moreover have "rc = SQLITE_OK \<Longrightarrow> bitvec_elems p' = insert i (bitvec_elems p)"
    unfolding i unfolding bitvec_elems_def by (simp only: r(6))
  ultimately show ?thesis using r(1-4) by blast
qed

theorem sqlite3BitvecSet_correct_witness:
  "\<exists>rc p' ms'. sqlite3BitvecSet (Some (Bitvec 5000 0 0 (AHash (replicate 125 0)))) 7 [False] = Some (rc, Some p', ms') \<and>
    bitvec_ok p' \<and> iSize p' = 5000 \<and>
    (rc = SQLITE_OK \<and> bitvec_elems p' = {7} \<or> rc = SQLITE_NOMEM \<and> bitvec_elems p' \<subseteq> {7})"
proof -
  have "bitvec_ok (Bitvec 5000 0 0 (AHash (replicate 125 0)))" using hash_ok_replicate by simp
  from sqlite3BitvecSet_correct [OF this, of 7 "[False]"] show ?thesis by (simp add: bitvec_elems_def)
qed

text \<open>
  C8.  After any sequence of sets and clears within the size of a new bitmap of \<open>n\<close> bits, a
  test says whether the last operation on that bit was a set: what
  \<open>sqlite3BitvecBuiltinTest\<close> samples against a linear array.
\<close>

theorem bitvec_history:
  assumes "n < 2 ^ 32" "sqlite3BitvecCreate n ms = (Some p, ms')"
    and "\<forall>x \<in> set ops. 1 \<le> op_index x \<and> op_index x \<le> n" "1 \<le> i" "i \<le> n"
  shows "sqlite3BitvecTest (Some (fold (\<lambda>x p. case x of Add i \<Rightarrow> bitvec_add p i | Remove i \<Rightarrow> bitvec_remove p i) ops p)) i
    = Some (i \<in> fold set_effect ops {})"
proof -
  have p: "bitvec_ok p" "iSize p = n" "bitvec_elems p = {}"
    using create_ok [OF assms(2,1)] by (auto simp: bitvec_elems_def)
  have "(case x of Add i \<Rightarrow> bitvec_add q i | Remove i \<Rightarrow> bitvec_remove q i) = bv.step x q" for x q
    by (cases x) simp_all
  then show ?thesis
    using bv.history [of p ops] p assms(3-5) sqlite3BitvecTest_eq [of "fold bv.step ops p" i] by simp
qed

theorem bitvec_history_witness:
  "sqlite3BitvecTest (Some (fold (\<lambda>x p. case x of Add i \<Rightarrow> bitvec_add p i | Remove i \<Rightarrow> bitvec_remove p i)
     [Add 5, Add 4097, Remove 5] (Bitvec 5000 0 0 (AHash (replicate 125 0))))) 4097 = Some True"
proof -
  have "sqlite3BitvecCreate 5000 [] = (Some (Bitvec 5000 0 0 (AHash (replicate 125 0))), [])"
    by (simp add: sqlite3BitvecCreate_def)
  from bitvec_history [OF _ this, of "[Add 5, Add 4097, Remove 5]" 4097] show ?thesis by simp
qed

end
