(* ===== verification/RowSet.thy ===== *)
theory RowSet
  imports Prelude "HOL-Library.Tree"
begin

text \<open>
  The rowid sets of \<open>rowset.c\<close>.  A \<open>RowSetEntry\<close> is used in three ways: as a cell of a
  list linked by \<open>pRight\<close> (here a list of rowids, the null pointer being the empty list), as a
  node of a binary tree (a tree of the library, the null pointer being \<open>Leaf\<close>) and as a cell
  of the list of trees \<open>pForest\<close>.  \<open>pLast\<close> is the last element of \<open>pEntry\<close>.  Rowids are
  integers, as the code only compares them.  Entries come out of chunks; of a chunk only the
  number of its unused entries matters.  The field \<open>mallocs\<close> holds the outcomes of the
  coming allocations, an exhausted list meaning success.
\<close>

section \<open>State\<close>

definition ROWSET_SORTED :: u16 where "ROWSET_SORTED = 1"
definition ROWSET_NEXT :: u16 where "ROWSET_NEXT = 2"

text \<open>\<open>ROWSET_ALLOCATION_SIZE\<close>, and the entries (16 bytes each on wasm32) of a chunk.\<close>

definition ROWSET_ALLOCATION_SIZE :: nat where "ROWSET_ALLOCATION_SIZE = 1024"
definition ROWSET_ENTRY_PER_CHUNK :: nat where "ROWSET_ENTRY_PER_CHUNK = (ROWSET_ALLOCATION_SIZE - 8) div 16"

record RowSet =
  pChunk :: nat
  pEntry :: "int list"
  nFresh :: nat
  pForest :: "int tree list"
  rsFlags :: u16
  iBatch :: int
  mallocs :: "bool list"

text \<open>\<open>N\<close> is the usable size of the allocation, of which the structure itself takes 32 bytes.\<close>

definition sqlite3RowSetInit :: "nat \<Rightarrow> bool list \<Rightarrow> RowSet option" where
  "sqlite3RowSetInit N ms =
    (if ms \<noteq> [] \<and> \<not> hd ms then None
     else Some \<lparr>pChunk = 0, pEntry = [], nFresh = ((N - 32) div 16) mod 2 ^ 16, pForest = [],
                rsFlags = ROWSET_SORTED, iBatch = 0, mallocs = tl ms\<rparr>)"

definition sqlite3RowSetClear :: "RowSet \<Rightarrow> RowSet" where
  "sqlite3RowSetClear p = p\<lparr>pChunk := 0, nFresh := 0, pEntry := [], pForest := [], rsFlags := ROWSET_SORTED\<rparr>"

text \<open>Whether an entry could be allocated.\<close>

definition rowSetEntryAlloc :: "RowSet \<Rightarrow> bool \<times> RowSet" where
  "rowSetEntryAlloc p =
    (if nFresh p = 0 then
       (if mallocs p \<noteq> [] \<and> \<not> hd (mallocs p) then (False, p\<lparr>mallocs := tl (mallocs p)\<rparr>)
        else (True, p\<lparr>pChunk := pChunk p + 1, nFresh := ROWSET_ENTRY_PER_CHUNK - 1, mallocs := tl (mallocs p)\<rparr>))
     else (True, p\<lparr>nFresh := nFresh p - 1\<rparr>))"

definition sqlite3RowSetInsert :: "RowSet \<Rightarrow> int \<Rightarrow> RowSet" where
  "sqlite3RowSetInsert p rowid =
    (let (ok, p) = rowSetEntryAlloc p
     in if \<not> ok then p else
        let p = (if pEntry p \<noteq> [] \<and> rowid \<le> last (pEntry p)
                 then p\<lparr>rsFlags := rsFlags p AND NOT ROWSET_SORTED\<rparr> else p)
        in p\<lparr>pEntry := pEntry p @ [rowid]\<rparr>)"

section \<open>Sorting\<close>

text \<open>The merge of two sorted lists; the code asserts that neither is empty.\<close>

fun rowSetEntryMerge :: "int list \<Rightarrow> int list \<Rightarrow> int list" where
  "rowSetEntryMerge [] pB = pB"
| "rowSetEntryMerge pA [] = pA"
| "rowSetEntryMerge (a # pA) (b # pB) =
    (if a \<le> b then
       (let rest = (if pA = [] then b # pB else rowSetEntryMerge pA (b # pB))
        in if a < b then a # rest else rest)
     else b # (if pB = [] then a # pA else rowSetEntryMerge (a # pA) pB))"

text \<open>\<open>for(i=0; aBucket[i]; i++)\<close>; \<open>None\<close> stands for an index beyond the array.\<close>

fun bucket_add :: "int list list \<Rightarrow> int list \<Rightarrow> int list list option" where
  "bucket_add [] pIn = None"
| "bucket_add (b # bs) pIn =
    (if b = [] then Some (pIn # bs) else map_option (Cons []) (bucket_add bs (rowSetEntryMerge b pIn)))"

fun sort_fill :: "int list \<Rightarrow> int list list \<Rightarrow> int list list option" where
  "sort_fill [] bs = Some bs"
| "sort_fill (v # pIn) bs = (case bucket_add bs [v] of None \<Rightarrow> None | Some bs \<Rightarrow> sort_fill pIn bs)"

definition sort_join :: "int list list \<Rightarrow> int list" where
  "sort_join bs = fold (\<lambda>b p. if b = [] then p else if p \<noteq> [] then rowSetEntryMerge p b else b) (tl bs) (hd bs)"

definition rowSetEntrySort :: "int list \<Rightarrow> int list option" where
  "rowSetEntrySort pIn = map_option sort_join (sort_fill pIn (replicate 40 []))"

section \<open>Trees\<close>

fun rowSetTreeToList :: "int tree \<Rightarrow> int list" where
  "rowSetTreeToList Leaf = []"
| "rowSetTreeToList (Node l v r) =
    (if l \<noteq> Leaf then rowSetTreeToList l else []) @ v # (if r \<noteq> Leaf then rowSetTreeToList r else [])"

text \<open>The tree and the rest of the list.\<close>

fun rowSetNDeepTree :: "int list \<Rightarrow> nat \<Rightarrow> int tree \<times> int list" where
  "rowSetNDeepTree [] iDepth = (Leaf, [])"
| "rowSetNDeepTree (v # pList) 0 = (Node Leaf v Leaf, pList)"
| "rowSetNDeepTree (v # pList) (Suc iDepth) =
    (if 1 < Suc iDepth then
       (case rowSetNDeepTree (v # pList) iDepth of
          (pLeft, []) \<Rightarrow> (pLeft, [])
        | (pLeft, p # rest) \<Rightarrow> (case rowSetNDeepTree rest iDepth of (pRight, rest) \<Rightarrow> (Node pLeft p pRight, rest)))
     else (Node Leaf v Leaf, pList))"

lemma rowSetNDeepTree_rest: "length (snd (rowSetNDeepTree xs d)) \<le> length xs"
  by (induction xs d rule: rowSetNDeepTree.induct) (fastforce split: prod.splits list.splits)+

lemma rowSetNDeepTree_le:
  "rowSetNDeepTree xs d = (t, rest) \<Longrightarrow> length rest \<le> length xs"
  "(t, rest) = rowSetNDeepTree xs d \<Longrightarrow> length rest \<le> length xs"
  using rowSetNDeepTree_rest [of xs d] by (metis snd_conv)+

function listToTree_loop :: "int tree \<Rightarrow> nat \<Rightarrow> int list \<Rightarrow> int tree" where
  "listToTree_loop p iDepth [] = p"
| "listToTree_loop p iDepth (v # pList) =
    (case rowSetNDeepTree pList iDepth of (r, rest) \<Rightarrow> listToTree_loop (Node p v r) (iDepth + 1) rest)"
  by pat_completeness auto
termination
  by (relation "measure (\<lambda>(p, d, xs). length xs)") (auto simp: less_Suc_eq_le dest: rowSetNDeepTree_le)

fun rowSetListToTree :: "int list \<Rightarrow> int tree" where
  "rowSetListToTree [] = Leaf"
| "rowSetListToTree (v # pList) = listToTree_loop (Node Leaf v Leaf) 1 pList"

section \<open>Extraction and test\<close>

text \<open>The smallest rowid, if any is left.  \<open>None\<close>: the sort ran out of buckets.\<close>

definition sqlite3RowSetNext :: "RowSet \<Rightarrow> (int option \<times> RowSet) option" where
  "sqlite3RowSetNext p =
    (case (if rsFlags p AND ROWSET_NEXT = 0 then
             map_option (\<lambda>xs. p\<lparr>pEntry := xs, rsFlags := rsFlags p OR (ROWSET_SORTED OR ROWSET_NEXT)\<rparr>)
               (if rsFlags p AND ROWSET_SORTED = 0 then rowSetEntrySort (pEntry p) else Some (pEntry p))
           else Some p) of
       None \<Rightarrow> None
     | Some p \<Rightarrow>
       Some (case pEntry p of
          [] \<Rightarrow> (None, p)
        | v # rest \<Rightarrow> (Some v, if rest = [] then sqlite3RowSetClear (p\<lparr>pEntry := rest\<rparr>) else p\<lparr>pEntry := rest\<rparr>)))"

text \<open>The loop over the forest; the list left over when every tree was taken.\<close>

fun forest_add :: "int tree list \<Rightarrow> int list \<Rightarrow> int tree list \<times> int list option" where
  "forest_add [] p = ([], Some p)"
| "forest_add (t # ts) p =
    (if t = Leaf then (rowSetListToTree p # ts, None)
     else (case forest_add ts (rowSetEntryMerge (rowSetTreeToList t) p) of (ts, r) \<Rightarrow> (Leaf # ts, r)))"

fun tree_search :: "int tree \<Rightarrow> int \<Rightarrow> bool" where
  "tree_search Leaf iRowid = False"
| "tree_search (Node l v r) iRowid =
    (if v < iRowid then tree_search r iRowid else if iRowid < v then tree_search l iRowid else True)"

definition new_batch :: "RowSet \<Rightarrow> RowSet option" where
  "new_batch p =
    (if pEntry p = [] then Some p else
     case (if rsFlags p AND ROWSET_SORTED = 0 then rowSetEntrySort (pEntry p) else Some (pEntry p)) of
       None \<Rightarrow> None
     | Some xs \<Rightarrow>
       (let p = (case forest_add (pForest p) xs of
                   (ts, None) \<Rightarrow> p\<lparr>pForest := ts\<rparr>
                 | (ts, Some xs) \<Rightarrow>
                     (case rowSetEntryAlloc (p\<lparr>pForest := ts\<rparr>) of
                        (ok, p) \<Rightarrow> if ok then p\<lparr>pForest := ts @ [rowSetListToTree xs]\<rparr> else p))
        in Some (p\<lparr>pEntry := [], rsFlags := rsFlags p OR ROWSET_SORTED\<rparr>)))"

definition sqlite3RowSetTest :: "RowSet \<Rightarrow> int \<Rightarrow> int \<Rightarrow> (bool \<times> RowSet) option" where
  "sqlite3RowSetTest p batch iRowid =
    (case (if batch \<noteq> iBatch p then map_option (\<lambda>p. p\<lparr>iBatch := batch\<rparr>) (new_batch p) else Some p) of
       None \<Rightarrow> None
     | Some p \<Rightarrow> Some (list_ex (\<lambda>t. tree_search t iRowid) (pForest p), p))"


section \<open>Sorting is correct\<close>

abbreviation strict :: "int list \<Rightarrow> bool" where "strict xs \<equiv> sorted_wrt (<) xs"

lemma merge_correct:
  "strict xs \<Longrightarrow> strict ys \<Longrightarrow>
   strict (rowSetEntryMerge xs ys) \<and> set (rowSetEntryMerge xs ys) = set xs \<union> set ys"
proof (induction xs ys rule: rowSetEntryMerge.induct)
  case (3 a pA b pB)
  consider "a = b" | "a < b" | "b < a" by linarith
  then show ?case
  proof cases
    case 1
    then show ?thesis using 3 by (cases "pA = []") auto
  next
    case 2
    with 3 have "pA \<noteq> [] \<Longrightarrow> strict (rowSetEntryMerge pA (b # pB)) \<and>
        set (rowSetEntryMerge pA (b # pB)) = set pA \<union> set (b # pB)" by simp
    then show ?thesis using 2 3(3,4) by (cases "pA = []") (auto simp: Let_def)
  next
    case 3
    with "3.IH"(2) "3.prems" have "pB \<noteq> [] \<Longrightarrow> strict (rowSetEntryMerge (a # pA) pB) \<and>
        set (rowSetEntryMerge (a # pA) pB) = set (a # pA) \<union> set pB" by simp
    then show ?thesis using 3 "3.prems" by (cases "pB = []") auto
  qed
qed simp_all

lemma merge_Nil [simp]: "rowSetEntryMerge xs ys = [] \<longleftrightarrow> xs = [] \<and> ys = []"
  by (induction xs ys rule: rowSetEntryMerge.induct) (auto simp: Let_def)

text \<open>The number of lists merged into the buckets, as a binary counter.\<close>

fun bucket_count :: "int list list \<Rightarrow> nat" where
  "bucket_count [] = 0"
| "bucket_count (b # bs) = (if b = [] then 0 else 1) + 2 * bucket_count bs"

lemma bucket_count_bound: "bucket_count bs < 2 ^ length bs"
  by (induction bs) auto

lemma bucket_add_correct:
  "\<forall>b \<in> set bs. strict b \<Longrightarrow> strict xs \<Longrightarrow> xs \<noteq> [] \<Longrightarrow> bucket_count bs + 1 < 2 ^ length bs \<Longrightarrow>
   \<exists>bs'. bucket_add bs xs = Some bs' \<and> length bs' = length bs \<and> (\<forall>b \<in> set bs'. strict b) \<and>
     bucket_count bs' = bucket_count bs + 1 \<and> \<Union> (set ` set bs') = \<Union> (set ` set bs) \<union> set xs"
proof (induction bs arbitrary: xs)
  case (Cons b bs)
  show ?case
  proof (cases "b = []")
    case False
    have "bucket_count bs + 1 < 2 ^ length bs" using Cons.prems(4) False by simp
    with Cons.IH [of "rowSetEntryMerge b xs"] Cons.prems merge_correct [of b xs] False
    obtain bs' where "bucket_add bs (rowSetEntryMerge b xs) = Some bs'" "length bs' = length bs"
      "\<forall>b \<in> set bs'. strict b" "bucket_count bs' = bucket_count bs + 1"
      "\<Union> (set ` set bs') = \<Union> (set ` set bs) \<union> (set b \<union> set xs)" by auto
    with False show ?thesis by auto
  qed (use Cons.prems in auto)
qed simp

lemma sort_fill_correct:
  "\<forall>b \<in> set bs. strict b \<Longrightarrow> bucket_count bs + length xs < 2 ^ length bs \<Longrightarrow>
   \<exists>bs'. sort_fill xs bs = Some bs' \<and> length bs' = length bs \<and> (\<forall>b \<in> set bs'. strict b) \<and>
     \<Union> (set ` set bs') = \<Union> (set ` set bs) \<union> set xs"
proof (induction xs arbitrary: bs)
  case (Cons v xs)
  obtain bs' where "bucket_add bs [v] = Some bs'" "length bs' = length bs" "\<forall>b \<in> set bs'. strict b"
    "bucket_count bs' = bucket_count bs + 1" "\<Union> (set ` set bs') = \<Union> (set ` set bs) \<union> {v}"
    using bucket_add_correct [of bs "[v]"] Cons.prems by auto
  with Cons.IH [of bs'] Cons.prems show ?case by auto
qed simp

lemma sort_join_step:
  "\<forall>b \<in> set bs. strict b \<Longrightarrow> strict p \<Longrightarrow>
   strict (fold (\<lambda>b p. if b = [] then p else if p \<noteq> [] then rowSetEntryMerge p b else b) bs p) \<and>
   set (fold (\<lambda>b p. if b = [] then p else if p \<noteq> [] then rowSetEntryMerge p b else b) bs p) = set p \<union> \<Union> (set ` set bs)"
proof (induction bs arbitrary: p)
  case (Cons b bs)
  define q where "q = (if b = [] then p else if p \<noteq> [] then rowSetEntryMerge p b else b)"
  have "strict q \<and> set q = set p \<union> set b"
    using Cons.prems merge_correct [of p b] by (auto simp: q_def)
  with Cons.IH [of q] Cons.prems show ?case by (simp add: q_def [symmetric] Un_assoc)
qed simp

lemma rowSetEntrySort_eq:
  assumes "length xs < 2 ^ 40"
  shows "rowSetEntrySort xs = Some (sorted_list_of_set (set xs))"
proof -
  have "bucket_count (replicate n []) = 0" for n by (induction n) auto
  then obtain bs where bs: "sort_fill xs (replicate 40 []) = Some bs" "length bs = 40" "\<forall>b \<in> set bs. strict b"
    "\<Union> (set ` set bs) = set xs"
    using sort_fill_correct [of "replicate 40 []" xs] assms by auto
  obtain b bs' where c: "bs = b # bs'" using bs(2) by (cases bs) auto
  have "strict (sort_join bs) \<and> set (sort_join bs) = set xs"
    using sort_join_step [of bs' b] bs(3,4) by (auto simp: sort_join_def c)
  then have "sort_join bs = sorted_list_of_set (set xs)"
    by (metis sorted_list_of_set.idem_if_sorted_distinct strict_sorted_iff)
  then show ?thesis by (simp add: rowSetEntrySort_def bs(1))
qed


section \<open>Trees are correct\<close>

lemma rowSetTreeToList_inorder [simp]: "rowSetTreeToList t = inorder t"
  by (induction t) auto

lemma rowSetNDeepTree_inorder:
  "rowSetNDeepTree xs d = (t, rest) \<Longrightarrow> inorder t @ rest = xs"
proof (induction xs d arbitrary: t rest rule: rowSetNDeepTree.induct)
  case (3 v pList iDepth)
  then show ?case by (fastforce split: if_splits prod.splits list.splits)
qed auto

lemma listToTree_loop_inorder: "inorder (listToTree_loop t d xs) = inorder t @ xs"
proof (induction t d xs rule: listToTree_loop.induct)
  case (2 p d v pList)
  obtain r rest where r: "rowSetNDeepTree pList d = (r, rest)" by fastforce
  with 2 [OF r [symmetric]] rowSetNDeepTree_inorder [OF r] show ?case by simp
qed simp

lemma rowSetListToTree_inorder [simp]: "inorder (rowSetListToTree xs) = xs"
  by (cases xs) (simp_all add: listToTree_loop_inorder)

text \<open>A tree of depth \<open>d\<close> that leaves entries over is complete.\<close>

lemma rowSetNDeepTree_depth:
  "0 < d \<Longrightarrow> rowSetNDeepTree xs d = (t, rest) \<Longrightarrow> height t \<le> d \<and> (rest \<noteq> [] \<longrightarrow> size t = 2 ^ d - 1)"
proof (induction xs d arbitrary: t rest rule: rowSetNDeepTree.induct)
  case (3 v pList d)
  show ?case
  proof (cases "d = 0")
    case True
    with 3 show ?thesis by auto
  next
    case False
    obtain l more where l: "rowSetNDeepTree (v # pList) d = (l, more)" by fastforce
    have IH1: "height l \<le> d" "more \<noteq> [] \<Longrightarrow> size l = 2 ^ d - 1"
      using "3.IH"(1) [OF _ _ l] False by auto
    show ?thesis
    proof (cases more)
      case Nil
      with 3 l False IH1 show ?thesis by auto
    next
      case (Cons p more')
      obtain r rest' where r: "rowSetNDeepTree more' d = (r, rest')" by fastforce
      have IH2: "height r \<le> d" "rest' \<noteq> [] \<Longrightarrow> size r = 2 ^ d - 1"
        using "3.IH"(2) [OF _ l [symmetric] Cons _ r] False by auto
      have "t = Node l p r" "rest = rest'" using 3 l r Cons False by auto
      moreover have "(2::nat) ^ Suc d - 1 = (2 ^ d - 1) + (2 ^ d - 1) + 1"
      proof -
        obtain k where "(2::nat) ^ d = Suc k" using one_le_power [of "2::nat" d] by (cases "(2::nat) ^ d") auto
        then show ?thesis by simp
      qed
      ultimately show ?thesis using IH1 IH2 Cons by auto
    qed
  qed
qed auto

lemma listToTree_loop_height:
  "0 < d \<Longrightarrow> height t \<le> d \<Longrightarrow> size t \<ge> 2 ^ d - 1 \<Longrightarrow>
   height (listToTree_loop t d xs) \<le> d \<or> 2 ^ (height (listToTree_loop t d xs) - 1) \<le> size t + length xs"
proof (induction t d xs rule: listToTree_loop.induct)
  case (2 p d v pList)
  obtain r rest where r: "rowSetNDeepTree pList d = (r, rest)" by fastforce
  note D = rowSetNDeepTree_depth [OF 2(2) r]
  have len: "length pList = size r + length rest"
    using arg_cong [OF rowSetNDeepTree_inorder [OF r], of length] by simp
  let ?t = "Node p v r"
  have big: "2 ^ d \<le> size p + length (v # pList)" using 2(4) by simp
  show ?case
  proof (cases rest)
    case Nil
    have "height ?t - 1 \<le> d" using D 2(3) by simp
    then have "(2::nat) ^ (height ?t - 1) \<le> 2 ^ d" by simp
    with big have "2 ^ (height ?t - 1) \<le> size p + length (v # pList)" by linarith
    then show ?thesis using Nil r by simp
  next
    case (Cons x xs)
    have h: "height ?t \<le> d + 1" using D 2(3) by simp
    have "(2::nat) ^ (d + 1) = 2 ^ d + 2 ^ d" by simp
    then have sz: "2 ^ (d + 1) - 1 \<le> size ?t" using D Cons 2(4) by simp
    from 2(1) [OF r [symmetric] _ h sz] have IH: "height (listToTree_loop ?t (d + 1) rest) \<le> d + 1 \<or>
        2 ^ (height (listToTree_loop ?t (d + 1) rest) - 1) \<le> size ?t + length rest"
      by simp
    let ?h = "height (listToTree_loop ?t (d + 1) rest)"
    have "2 ^ (?h - 1) \<le> size ?t + length rest"
    proof (cases "?h \<le> d + 1")
      case True
      then have "(2::nat) ^ (?h - 1) \<le> 2 ^ d" by (intro power_increasing) auto
      also have "\<dots> \<le> size ?t + length rest" using big len by simp
      finally show ?thesis .
    qed (use IH in blast)
    then show ?thesis using len r by simp
  qed
qed simp

lemma rowSetListToTree_height: "2 ^ height (rowSetListToTree xs) \<le> 2 * length xs + 1"
proof (cases xs)
  case (Cons v pList)
  let ?h = "height (listToTree_loop \<langle>Leaf, v, Leaf\<rangle> 1 pList)"
  have "?h \<le> 1 \<or> 2 ^ (?h - 1) \<le> 1 + length pList"
    using listToTree_loop_height [of 1 "\<langle>Leaf, v, Leaf\<rangle>" pList] by simp
  then show ?thesis
  proof
    assume "?h \<le> 1"
    then have "(2::nat) ^ ?h \<le> 2 ^ 1" by (intro power_increasing) auto
    then show ?thesis using Cons by simp
  next
    assume h: "2 ^ (?h - 1) \<le> 1 + length pList"
    have "(2::nat) ^ ?h \<le> 2 * 2 ^ (?h - 1)" by (cases ?h) auto
    with h show ?thesis using Cons by simp
  qed
qed simp


lemma tree_search_correct: "strict (inorder t) \<Longrightarrow> tree_search t x \<longleftrightarrow> x \<in> set_tree t"
proof (induction t)
  case (Node l v r)
  have "strict (inorder l)" "strict (inorder r)" "\<forall>y \<in> set_tree l. y < v" "\<forall>y \<in> set_tree r. v < y"
    using Node.prems by (auto simp: sorted_wrt_append)
  with Node.IH show ?case by auto
qed simp

section \<open>The set of rowids and the invariant\<close>

definition pending :: "RowSet \<Rightarrow> int set" where "pending p = set (pEntry p)"
definition visible :: "RowSet \<Rightarrow> int set" where "visible p = (\<Union>t \<in> set (pForest p). set_tree t)"

definition rowset_ok :: "RowSet \<Rightarrow> bool" where
  "rowset_ok p \<longleftrightarrow> rsFlags p \<in> {0, 1} \<and> (rsFlags p = 1 \<longrightarrow> strict (pEntry p)) \<and>
     (\<forall>t \<in> set (pForest p). strict (inorder t))"

lemma forest_add_correct:
  "\<forall>t \<in> set ts. strict (inorder t) \<Longrightarrow> strict xs \<Longrightarrow>
   \<exists>ts' r. forest_add ts xs = (ts', r) \<and> (\<forall>t \<in> set ts'. strict (inorder t)) \<and>
     (case r of None \<Rightarrow> (\<Union>t \<in> set ts'. set_tree t) = (\<Union>t \<in> set ts. set_tree t) \<union> set xs
      | Some ys \<Rightarrow> strict ys \<and> (\<Union>t \<in> set ts'. set_tree t) = {} \<and> set ys = (\<Union>t \<in> set ts. set_tree t) \<union> set xs)"
proof (induction ts xs rule: forest_add.induct)
  case (2 t ts p)
  show ?case
  proof (cases "t = Leaf")
    case True
    have "set_tree (rowSetListToTree p) = set p" by (metis rowSetListToTree_inorder set_inorder)
    with True 2 show ?thesis by auto
  next
    case False
    define m where "m = rowSetEntryMerge (inorder t) p"
    have m: "strict m" "set m = set_tree t \<union> set p"
      using merge_correct [of "inorder t" p] 2 by (simp_all add: m_def)
    obtain ts' r where IH: "forest_add ts m = (ts', r)" "\<forall>t \<in> set ts'. strict (inorder t)"
      "case r of None \<Rightarrow> (\<Union>t \<in> set ts'. set_tree t) = (\<Union>t \<in> set ts. set_tree t) \<union> set m
      | Some ys \<Rightarrow> strict ys \<and> (\<Union>t \<in> set ts'. set_tree t) = {} \<and> set ys = (\<Union>t \<in> set ts. set_tree t) \<union> set m"
      using "2.IH" [OF False, unfolded rowSetTreeToList_inorder, folded m_def] "2.prems"(1) m(1) by auto
    show ?thesis using False IH by (cases r) (auto simp: m_def [symmetric] m(2))
  qed
qed simp

lemma flags_simps [simp]:
  "ROWSET_SORTED = 1" "ROWSET_NEXT = 2" "(1 :: u16) AND 1 = 1" "(1 :: u16) AND 2 = 0" "(0 :: u16) OR 1 = 1"
  "(1 :: u16) AND NOT 1 = 0" "(1 :: u16) OR 3 = 3" "(3 :: u16) AND 2 = 2" "(1 :: u16) OR 2 = 3"
  by (simp_all add: ROWSET_SORTED_def ROWSET_NEXT_def)

lemma alloc_frame:
  "rowSetEntryAlloc p = (ok, q) \<Longrightarrow> pEntry q = pEntry p \<and> pForest q = pForest p \<and> rsFlags q = rsFlags p \<and>
     iBatch q = iBatch p \<and> (mallocs p = [] \<longrightarrow> ok \<and> mallocs q = [])"
  by (auto simp: rowSetEntryAlloc_def split: if_splits)

lemma insert_correct:
  assumes "rowset_ok p"
  shows "rowset_ok (sqlite3RowSetInsert p x) \<and> pForest (sqlite3RowSetInsert p x) = pForest p \<and>
    iBatch (sqlite3RowSetInsert p x) = iBatch p \<and>
    length (pEntry (sqlite3RowSetInsert p x)) \<le> length (pEntry p) + 1 \<and>
    (mallocs p = [] \<longrightarrow> mallocs (sqlite3RowSetInsert p x) = [] \<and> pending (sqlite3RowSetInsert p x) = insert x (pending p))"
proof -
  obtain ok q where a: "rowSetEntryAlloc p = (ok, q)" by fastforce
  have "strict (pEntry p @ [x])" if a1: "strict (pEntry p)" and a2: "pEntry p \<noteq> [] \<Longrightarrow> last (pEntry p) < x"
  proof -
    have "y < x" if y: "y \<in> set (pEntry p)" for y
    proof -
      have "y \<le> last (pEntry p)"
        using y a1 by (cases "pEntry p" rule: rev_cases) (auto simp: sorted_wrt_append intro: less_imp_le)
      moreover have "last (pEntry p) < x" using a2 y by (cases "pEntry p") auto
      ultimately show ?thesis by simp
    qed
    with a1 show ?thesis by (simp add: sorted_wrt_append)
  qed
  with alloc_frame [OF a] assms show ?thesis
    by (cases ok) (auto simp: sqlite3RowSetInsert_def a rowset_ok_def pending_def Let_def)
qed

lemma new_batch_correct:
  assumes "rowset_ok p" "length (pEntry p) < 2 ^ 40"
  shows "\<exists>q. new_batch p = Some q \<and> rowset_ok q \<and> pEntry q = [] \<and> iBatch q = iBatch p \<and>
    (mallocs p = [] \<longrightarrow> mallocs q = [] \<and> visible q = visible p \<union> pending p)"
proof (cases "pEntry p = []")
  case True
  then show ?thesis using assms by (simp add: new_batch_def pending_def)
next
  case False
  define xs where "xs = (if rsFlags p = 1 then pEntry p else sorted_list_of_set (set (pEntry p)))"
  have xs: "strict xs" "set xs = set (pEntry p)"
    using assms by (auto simp: xs_def rowset_ok_def)
  have s: "(if rsFlags p AND ROWSET_SORTED = 0 then rowSetEntrySort (pEntry p) else Some (pEntry p)) = Some xs"
    using assms rowSetEntrySort_eq [of "pEntry p"] by (auto simp: xs_def rowset_ok_def)
  obtain ts r where f: "forest_add (pForest p) xs = (ts, r)" "\<forall>t \<in> set ts. strict (inorder t)"
    "case r of None \<Rightarrow> (\<Union>t \<in> set ts. set_tree t) = (\<Union>t \<in> set (pForest p). set_tree t) \<union> set xs
      | Some ys \<Rightarrow> strict ys \<and> (\<Union>t \<in> set ts. set_tree t) = {} \<and> set ys = (\<Union>t \<in> set (pForest p). set_tree t) \<union> set xs"
    using forest_add_correct [of "pForest p" xs] assms(1) xs(1) by (auto simp: rowset_ok_def)
  have flags: "rsFlags p OR 1 = 1" using assms(1) by (auto simp: rowset_ok_def)
  have nb: "new_batch p = (let p = (case r of None \<Rightarrow> p\<lparr>pForest := ts\<rparr>
      | Some xs \<Rightarrow> (case rowSetEntryAlloc (p\<lparr>pForest := ts\<rparr>) of
          (ok, p) \<Rightarrow> if ok then p\<lparr>pForest := ts @ [rowSetListToTree xs]\<rparr> else p))
    in Some (p\<lparr>pEntry := [], rsFlags := rsFlags p OR ROWSET_SORTED\<rparr>))"
    by (simp only: new_batch_def False if_False s option.case f(1) prod.case)
  show ?thesis
  proof (cases r)
    case None
    with f flags xs show ?thesis
      by (simp add: nb rowset_ok_def visible_def pending_def)
  next
    case (Some ys)
    obtain ok q where a: "rowSetEntryAlloc (p\<lparr>pForest := ts\<rparr>) = (ok, q)" by fastforce
    have t: "set_tree (rowSetListToTree ys) = set ys" by (metis rowSetListToTree_inorder set_inorder)
    show ?thesis using f flags xs Some alloc_frame [OF a] t
      by (cases ok) (auto simp: nb a rowset_ok_def visible_def pending_def)
  qed
qed

lemma test_correct:
  assumes "rowset_ok p" "length (pEntry p) < 2 ^ 40"
  shows "\<exists>b q. sqlite3RowSetTest p batch x = Some (b, q) \<and> rowset_ok q \<and> length (pEntry q) \<le> length (pEntry p) \<and>
    iBatch q = batch \<and> (mallocs p = [] \<longrightarrow> mallocs q = [] \<and>
      visible q = (if batch = iBatch p then visible p else visible p \<union> pending p) \<and>
      pending q = (if batch = iBatch p then pending p else {}) \<and> (b \<longleftrightarrow> x \<in> visible q))"
proof -
  have search: "list_ex (\<lambda>t. tree_search t x) (pForest q) \<longleftrightarrow> x \<in> visible q" if "rowset_ok q" for q
    using that tree_search_correct by (auto simp: rowset_ok_def visible_def list_ex_iff)
  show ?thesis
  proof (cases "batch = iBatch p")
    case True
    then show ?thesis using assms search [of p] by (auto simp: sqlite3RowSetTest_def)
  next
    case False
    obtain q where q: "new_batch p = Some q" "rowset_ok q" "pEntry q = []"
      "mallocs p = [] \<longrightarrow> mallocs q = [] \<and> visible q = visible p \<union> pending p"
      using new_batch_correct [OF assms] by blast
    then have "rowset_ok (q\<lparr>iBatch := batch\<rparr>)" by (simp add: rowset_ok_def)
    with q search [of "q\<lparr>iBatch := batch\<rparr>"] False show ?thesis
      by (simp add: sqlite3RowSetTest_def pending_def visible_def)
  qed
qed


section \<open>Histories\<close>

datatype rowset_op = RInsert int | RTest int int

text \<open>The answers of the tests of a history, on the structure and on three values: the pending
  and the visible rowids and the current batch.\<close>

fun rowset_run :: "rowset_op list \<Rightarrow> RowSet \<Rightarrow> (bool list \<times> RowSet) option" where
  "rowset_run [] p = Some ([], p)"
| "rowset_run (RInsert x # ops) p = rowset_run ops (sqlite3RowSetInsert p x)"
| "rowset_run (RTest b x # ops) p =
    (case sqlite3RowSetTest p b x of None \<Rightarrow> None
     | Some (r, p) \<Rightarrow> map_option (\<lambda>(rs, p). (r # rs, p)) (rowset_run ops p))"

fun batch_run :: "rowset_op list \<Rightarrow> int set \<times> int set \<times> int \<Rightarrow> bool list" where
  "batch_run [] (pend, vis, batch) = []"
| "batch_run (RInsert x # ops) (pend, vis, batch) = batch_run ops (insert x pend, vis, batch)"
| "batch_run (RTest b x # ops) (pend, vis, batch) =
    (if b = batch then (x \<in> vis) # batch_run ops (pend, vis, batch)
     else (x \<in> vis \<union> pend) # batch_run ops ({}, vis \<union> pend, b))"

lemma rowset_run_correct:
  "rowset_ok p \<Longrightarrow> mallocs p = [] \<Longrightarrow> length (pEntry p) + length ops < 2 ^ 40 \<Longrightarrow>
   \<exists>q. rowset_run ops p = Some (batch_run ops (pending p, visible p, iBatch p), q)"
proof (induction ops arbitrary: p)
  case (Cons op ops)
  show ?case
  proof (cases op)
    case (RInsert x)
    have "visible (sqlite3RowSetInsert p x) = visible p"
      using insert_correct [OF Cons.prems(1), of x] by (simp add: visible_def)
    with RInsert Cons.prems insert_correct [OF Cons.prems(1), of x] Cons.IH [of "sqlite3RowSetInsert p x"]
    show ?thesis by simp
  next
    case (RTest b x)
    obtain r q where t: "sqlite3RowSetTest p b x = Some (r, q)" "rowset_ok q" "length (pEntry q) \<le> length (pEntry p)"
      "iBatch q = b" "mallocs q = []" "visible q = (if b = iBatch p then visible p else visible p \<union> pending p)"
      "pending q = (if b = iBatch p then pending p else {})" "r \<longleftrightarrow> x \<in> visible q"
      using test_correct [OF Cons.prems(1), of b x] Cons.prems by auto
    with Cons.IH [of q] Cons.prems obtain q' where "rowset_run ops q = Some (batch_run ops (pending q, visible q, iBatch q), q')"
      by auto
    with RTest t show ?thesis by auto
  qed
qed simp

text \<open>Calling \<open>sqlite3RowSetNext\<close> until it has nothing to return.\<close>

fun rowset_drain :: "nat \<Rightarrow> RowSet \<Rightarrow> int list option" where
  "rowset_drain 0 p = None"
| "rowset_drain (Suc n) p =
    (case sqlite3RowSetNext p of
       Some (Some v, p) \<Rightarrow> map_option (Cons v) (rowset_drain n p)
     | Some (None, p) \<Rightarrow> Some []
     | None \<Rightarrow> None)"

lemma drain_sorted:
  "pEntry p = xs \<Longrightarrow> rsFlags p \<in> {1, 3} \<Longrightarrow> length xs < n \<Longrightarrow> rowset_drain n p = Some xs"
proof (induction n arbitrary: p xs)
  case (Suc n)
  have step: "sqlite3RowSetNext p = (let p = p\<lparr>rsFlags := 3\<rparr> in
    Some (case xs of [] \<Rightarrow> (None, p)
      | v # rest \<Rightarrow> (Some v, if rest = [] then sqlite3RowSetClear (p\<lparr>pEntry := rest\<rparr>) else p\<lparr>pEntry := rest\<rparr>)))"
    using Suc.prems(1,2) by (cases "rsFlags p = 1") (auto simp: sqlite3RowSetNext_def sqlite3RowSetClear_def split: list.split)
  show ?case
  proof (cases xs)
    case (Cons v rest)
    have "rowset_drain n (if rest = [] then sqlite3RowSetClear (p\<lparr>rsFlags := 3, pEntry := rest\<rparr>)
        else p\<lparr>rsFlags := 3, pEntry := rest\<rparr>) = Some rest"
      using Suc.prems Cons by (intro Suc.IH) (auto simp: sqlite3RowSetClear_def)
    then show ?thesis using Cons by (simp add: step Let_def)
  qed (simp add: step Let_def)
qed simp

lemma drain_correct:
  assumes "rowset_ok p" "length (pEntry p) < 2 ^ 40" "length (pEntry p) < n"
  shows "rowset_drain n p = Some (sorted_list_of_set (pending p))"
proof (cases "rsFlags p = 1")
  case True
  then have "strict (pEntry p)" using assms(1) by (simp add: rowset_ok_def)
  then have "pEntry p = sorted_list_of_set (pending p)"
    by (metis pending_def sorted_list_of_set.idem_if_sorted_distinct strict_sorted_iff)
  then show ?thesis using drain_sorted [of p "pEntry p" n] True assms by simp
next
  case False
  then have 0: "rsFlags p = 0" using assms(1) by (simp add: rowset_ok_def)
  define xs where "xs = sorted_list_of_set (pending p)"
  have "length xs \<le> length (pEntry p)"
    by (simp add: xs_def pending_def card_length)
  then have "rowset_drain n (p\<lparr>pEntry := xs, rsFlags := 3\<rparr>) = Some xs"
    using assms(3) by (intro drain_sorted) auto
  moreover have "sqlite3RowSetNext p = sqlite3RowSetNext (p\<lparr>pEntry := xs, rsFlags := 3\<rparr>)"
    using rowSetEntrySort_eq [OF assms(2)] 0 by (simp add: sqlite3RowSetNext_def xs_def pending_def)
  ultimately show ?thesis by (cases n) (auto simp: xs_def)
qed


section \<open>Properties\<close>

lemma init_correct:
  "sqlite3RowSetInit N ms = Some p \<Longrightarrow> rowset_ok p \<and> pEntry p = [] \<and> pending p = {} \<and> visible p = {} \<and>
     iBatch p = 0 \<and> mallocs p = tl ms"
  by (auto simp: sqlite3RowSetInit_def rowset_ok_def pending_def visible_def split: if_splits)

lemma insert_all:
  "rowset_ok p \<Longrightarrow> mallocs p = [] \<Longrightarrow>
   rowset_ok (fold (\<lambda>x p. sqlite3RowSetInsert p x) xs p) \<and> pending (fold (\<lambda>x p. sqlite3RowSetInsert p x) xs p) = pending p \<union> set xs \<and>
   length (pEntry (fold (\<lambda>x p. sqlite3RowSetInsert p x) xs p)) \<le> length (pEntry p) + length xs"
proof (induction xs arbitrary: p)
  case (Cons x xs)
  have i: "rowset_ok (sqlite3RowSetInsert p x)" "mallocs (sqlite3RowSetInsert p x) = []"
    "pending (sqlite3RowSetInsert p x) = insert x (pending p)"
    "length (pEntry (sqlite3RowSetInsert p x)) \<le> length (pEntry p) + 1"
    using insert_correct [of p x] Cons.prems by simp_all
  show ?case using Cons.IH [OF i(1,2)] i(3,4) by simp
qed simp

text \<open>
  C16.  The rowids inserted in any order, with any duplicates, come out of repeated calls of
  \<open>sqlite3RowSetNext\<close> in increasing order and once each, and then the set reports that it is empty
  (without allocation failures, for fewer than 2^40 rowids, the capacity of the sort).
\<close>

theorem rowset_next_sorted:
  assumes "sqlite3RowSetInit N [] = Some p" "length xs < 2 ^ 40"
  shows "rowset_drain (length xs + 1) (fold (\<lambda>x p. sqlite3RowSetInsert p x) xs p) = Some (sorted_list_of_set (set xs))"
proof -
  have p: "rowset_ok p" "pEntry p = []" "pending p = {}" "mallocs p = []"
    using init_correct [OF assms(1)] by simp_all
  with insert_all [of p xs] assms(2) show ?thesis by (subst drain_correct) auto
qed

theorem rowset_next_sorted_witness:
  "\<exists>p. sqlite3RowSetInit 48 [] = Some p \<and>
     rowset_drain 5 (fold (\<lambda>x p. sqlite3RowSetInsert p x) [5, 3, 5, 9] p) = Some [3, 5, 9]"
proof -
  obtain p where p: "sqlite3RowSetInit 48 [] = Some p" by (simp add: sqlite3RowSetInit_def)
  have "sorted_list_of_set (set [5, 3, 5, 9 :: int]) = [3, 5, 9]" by code_simp
  moreover have "length [5, 3, 5, 9 :: int] + 1 = 5" by simp
  ultimately have "rowset_drain 5 (fold (\<lambda>x p. sqlite3RowSetInsert p x) [5, 3, 5, 9] p) = Some [3, 5, 9]"
    using rowset_next_sorted [OF p, of "[5, 3, 5, 9]"] by (simp only:) simp
  with p show ?thesis by blast
qed

text \<open>
  C15.  In any history of insertions and tests, a test answers whether its rowid was inserted
  before the last change of the batch number, as the abstract machine \<open>batch_run\<close> on two sets
  and a number does; every run ends, within the bounds of the bucket array.
\<close>

theorem rowset_test_refines:
  assumes "sqlite3RowSetInit N [] = Some p" "length ops < 2 ^ 40"
  shows "map_option fst (rowset_run ops p) = Some (batch_run ops ({}, {}, 0))"
proof -
  have p: "rowset_ok p" "pEntry p = []" "pending p = {}" "visible p = {}" "iBatch p = 0" "mallocs p = []"
    using init_correct [OF assms(1)] by simp_all
  with rowset_run_correct [of p ops] assms(2) show ?thesis by auto
qed

theorem rowset_test_refines_witness:
  "\<exists>p. sqlite3RowSetInit 48 [] = Some p \<and>
     map_option fst (rowset_run [RInsert 4, RTest 0 4, RTest 1 4, RInsert 7, RTest 1 7, RTest 2 7] p)
       = Some [False, True, False, True]"
proof -
  obtain p where p: "sqlite3RowSetInit 48 [] = Some p" by (simp add: sqlite3RowSetInit_def)
  from rowset_test_refines [OF p, of "[RInsert 4, RTest 0 4, RTest 1 4, RInsert 7, RTest 1 7, RTest 2 7]"] p
  show ?thesis by simp
qed

text \<open>
  C40.  The tree that \<open>rowSetListToTree\<close> builds has the list as its in-order traversal and is
  balanced: its height is at most one more than the logarithm of its size, so a test costs that
  many steps.
\<close>

theorem rowset_tree_balanced:
  "inorder (rowSetListToTree xs) = xs \<and> 2 ^ height (rowSetListToTree xs) \<le> 2 * length xs + 1"
  using rowSetListToTree_height [of xs] by simp

end
