(* ===== verification/Ctype.thy ===== *)
theory Ctype
  imports Prelude "HOL-Library.Code_Target_Nat"
begin

text \<open>
  Characters and strings as SQLite sees them: the tables of \<open>global.c\<close>, the character
  classes that \<open>sqliteInt.h\<close> reads from them, and the case-insensitive comparisons and hash
  of \<open>util.c\<close>.  A character is a byte; a zero-terminated string is the list of the characters before
  its terminator, and \<open>zat z i\<close> is \<open>z[i]\<close>.
\<close>

section \<open>The tables\<close>

definition sqlite3UpperToLower :: "nat list" where
  "sqlite3UpperToLower =
    [
     0, 1, 2, 3, 4, 5, 6, 7, 8, 9, 10, 11, 12, 13, 14, 15,
     16, 17, 18, 19, 20, 21, 22, 23, 24, 25, 26, 27, 28, 29, 30, 31,
     32, 33, 34, 35, 36, 37, 38, 39, 40, 41, 42, 43, 44, 45, 46, 47,
     48, 49, 50, 51, 52, 53, 54, 55, 56, 57, 58, 59, 60, 61, 62, 63,
     64, 97, 98, 99, 100, 101, 102, 103, 104, 105, 106, 107, 108, 109, 110, 111,
     112, 113, 114, 115, 116, 117, 118, 119, 120, 121, 122, 91, 92, 93, 94, 95,
     96, 97, 98, 99, 100, 101, 102, 103, 104, 105, 106, 107, 108, 109, 110, 111,
     112, 113, 114, 115, 116, 117, 118, 119, 120, 121, 122, 123, 124, 125, 126, 127,
     128, 129, 130, 131, 132, 133, 134, 135, 136, 137, 138, 139, 140, 141, 142, 143,
     144, 145, 146, 147, 148, 149, 150, 151, 152, 153, 154, 155, 156, 157, 158, 159,
     160, 161, 162, 163, 164, 165, 166, 167, 168, 169, 170, 171, 172, 173, 174, 175,
     176, 177, 178, 179, 180, 181, 182, 183, 184, 185, 186, 187, 188, 189, 190, 191,
     192, 193, 194, 195, 196, 197, 198, 199, 200, 201, 202, 203, 204, 205, 206, 207,
     208, 209, 210, 211, 212, 213, 214, 215, 216, 217, 218, 219, 220, 221, 222, 223,
     224, 225, 226, 227, 228, 229, 230, 231, 232, 233, 234, 235, 236, 237, 238, 239,
     240, 241, 242, 243, 244, 245, 246, 247, 248, 249, 250, 251, 252, 253, 254, 255,
     1, 0, 0, 1, 1, 0,
     0, 1, 0, 1, 0, 1,
     1, 0, 1, 0, 0, 1]"

definition sqlite3CtypeMap :: "nat list" where
  "sqlite3CtypeMap =
    [
     0, 0, 0, 0, 0, 0, 0, 0, 0, 1, 1, 1, 1, 1, 0, 0,
     0, 0, 0, 0, 0, 0, 0, 0, 0, 0, 0, 0, 0, 0, 0, 0,
     1, 0, 128, 0, 64, 0, 0, 128, 0, 0, 0, 0, 0, 0, 0, 0,
     12, 12, 12, 12, 12, 12, 12, 12, 12, 12, 0, 0, 0, 0, 0, 0,
     0, 10, 10, 10, 10, 10, 10, 2, 2, 2, 2, 2, 2, 2, 2, 2,
     2, 2, 2, 2, 2, 2, 2, 2, 2, 2, 2, 128, 0, 0, 0, 64,
     128, 42, 42, 42, 42, 42, 42, 34, 34, 34, 34, 34, 34, 34, 34, 34,
     34, 34, 34, 34, 34, 34, 34, 34, 34, 34, 34, 0, 0, 0, 0, 0,
     64, 64, 64, 64, 64, 64, 64, 64, 64, 64, 64, 64, 64, 64, 64, 64,
     64, 64, 64, 64, 64, 64, 64, 64, 64, 64, 64, 64, 64, 64, 64, 64,
     64, 64, 64, 64, 64, 64, 64, 64, 64, 64, 64, 64, 64, 64, 64, 64,
     64, 64, 64, 64, 64, 64, 64, 64, 64, 64, 64, 64, 64, 64, 64, 64,
     64, 64, 64, 64, 64, 64, 64, 64, 64, 64, 64, 64, 64, 64, 64, 64,
     64, 64, 64, 64, 64, 64, 64, 64, 64, 64, 64, 64, 64, 64, 64, 64,
     64, 64, 64, 64, 64, 64, 64, 64, 64, 64, 64, 64, 64, 64, 64, 64,
     64, 64, 64, 64, 64, 64, 64, 64, 64, 64, 64, 64, 64, 64, 64, 64]"

text \<open>The comparison opcodes and the three tables that overlay the end of \<open>sqlite3UpperToLower\<close>.\<close>

definition OP_Ne :: nat where "OP_Ne = 53"
definition OP_Eq :: nat where "OP_Eq = 54"
definition OP_Gt :: nat where "OP_Gt = 55"
definition OP_Le :: nat where "OP_Le = 56"
definition OP_Lt :: nat where "OP_Lt = 57"
definition OP_Ge :: nat where "OP_Ge = 58"

definition sqlite3aLTb :: "nat \<Rightarrow> nat" where "sqlite3aLTb op = sqlite3UpperToLower ! (256 - OP_Ne + op)"
definition sqlite3aEQb :: "nat \<Rightarrow> nat" where "sqlite3aEQb op = sqlite3UpperToLower ! (256 + 6 - OP_Ne + op)"
definition sqlite3aGTb :: "nat \<Rightarrow> nat" where "sqlite3aGTb op = sqlite3UpperToLower ! (256 + 12 - OP_Ne + op)"

section \<open>Character classes\<close>

abbreviation code :: "char \<Rightarrow> nat" where "code \<equiv> of_char"

definition ctype_bit :: "char \<Rightarrow> nat \<Rightarrow> bool" where
  "ctype_bit c m = (sqlite3CtypeMap ! code c AND m \<noteq> 0)"

definition sqlite3Toupper :: "char \<Rightarrow> char" where
  "sqlite3Toupper c = char_of (unat ((of_char c :: u8) AND NOT (of_nat (sqlite3CtypeMap ! code c) AND 0x20)))"

definition sqlite3Isspace :: "char \<Rightarrow> bool" where "sqlite3Isspace c = ctype_bit c 0x01"
definition sqlite3Isalnum :: "char \<Rightarrow> bool" where "sqlite3Isalnum c = ctype_bit c 0x06"
definition sqlite3Isalpha :: "char \<Rightarrow> bool" where "sqlite3Isalpha c = ctype_bit c 0x02"
definition sqlite3Isdigit :: "char \<Rightarrow> bool" where "sqlite3Isdigit c = ctype_bit c 0x04"
definition sqlite3Isxdigit :: "char \<Rightarrow> bool" where "sqlite3Isxdigit c = ctype_bit c 0x08"
definition sqlite3Tolower :: "char \<Rightarrow> nat" where "sqlite3Tolower c = sqlite3UpperToLower ! code c"
definition sqlite3Isquote :: "char \<Rightarrow> bool" where "sqlite3Isquote c = ctype_bit c 0x80"
definition sqlite3JsonId1 :: "char \<Rightarrow> bool" where "sqlite3JsonId1 c = ctype_bit c 0x42"
definition sqlite3JsonId2 :: "char \<Rightarrow> bool" where "sqlite3JsonId2 c = ctype_bit c 0x46"
definition IdChar :: "char \<Rightarrow> bool" where "IdChar c = ctype_bit c 0x46"

section \<open>Strings\<close>

definition zat :: "string \<Rightarrow> nat \<Rightarrow> char" where
  "zat z i = (if i < length z then z ! i else CHR 0x00)"

text \<open>The loop of \<open>sqlite3StrICmp\<close>; a string that has ended reads as the terminator.\<close>

fun sqlite3StrICmp :: "string \<Rightarrow> string \<Rightarrow> int" where
  "sqlite3StrICmp [] [] = 0"
| "sqlite3StrICmp [] (x # b) = 0 - int (sqlite3UpperToLower ! code x)"
| "sqlite3StrICmp (c # a) [] = int (sqlite3UpperToLower ! code c) - 0"
| "sqlite3StrICmp (c # a) (x # b) =
    (if c = x then sqlite3StrICmp a b
     else let d = int (sqlite3UpperToLower ! code c) - int (sqlite3UpperToLower ! code x)
          in if d \<noteq> 0 then d else sqlite3StrICmp a b)"

definition sqlite3_stricmp :: "string option \<Rightarrow> string option \<Rightarrow> int" where
  "sqlite3_stricmp zLeft zRight =
    (case zLeft of None \<Rightarrow> (if zRight \<noteq> None then - 1 else 0)
     | Some a \<Rightarrow> (case zRight of None \<Rightarrow> 1 | Some b \<Rightarrow> sqlite3StrICmp a b))"

text \<open>The loop of \<open>sqlite3_strnicmp\<close> for \<open>N\<close> characters, and what it returns.\<close>

fun strnicmp_loop :: "string \<Rightarrow> string \<Rightarrow> nat \<Rightarrow> int" where
  "strnicmp_loop a b 0 = 0"
| "strnicmp_loop a b (Suc n) =
    (if a \<noteq> [] \<and> sqlite3UpperToLower ! code (zat a 0) = sqlite3UpperToLower ! code (zat b 0)
     then strnicmp_loop (tl a) (tl b) n
     else int (sqlite3UpperToLower ! code (zat a 0)) - int (sqlite3UpperToLower ! code (zat b 0)))"

definition sqlite3_strnicmp :: "string option \<Rightarrow> string option \<Rightarrow> nat \<Rightarrow> int" where
  "sqlite3_strnicmp zLeft zRight n =
    (case zLeft of None \<Rightarrow> (if zRight \<noteq> None then - 1 else 0)
     | Some a \<Rightarrow> (case zRight of None \<Rightarrow> 1 | Some b \<Rightarrow> strnicmp_loop a b n))"

definition sqlite3StrIHash :: "string option \<Rightarrow> u8" where
  "sqlite3StrIHash z = (case z of None \<Rightarrow> 0 | Some z \<Rightarrow> fold (\<lambda>c h. h + of_nat (sqlite3UpperToLower ! code c)) z 0)"

section \<open>The classes in terms of ASCII\<close>

definition lower :: "char \<Rightarrow> char" where
  "lower c = (if 65 \<le> code c \<and> code c \<le> 90 then char_of (code c + 32) else c)"

lemma code_less [simp]: "code c < 256" by simp

lemma table_at: "map f T = map g [0..<256] \<Longrightarrow> f (T ! code c) = g (code c)"
proof -
  assume eq: "map f T = map g [0..<256]"
  then have "length T = 256" by (metis diff_zero length_map length_upt)
  with arg_cong [OF eq, of "\<lambda>xs. xs ! code c"] show ?thesis by simp
qed

lemma tolower_code [simp]: "sqlite3UpperToLower ! code c = code (lower c)"
proof -
  have "map (\<lambda>n. n) (take 256 sqlite3UpperToLower) = map (\<lambda>n. if 65 \<le> n \<and> n \<le> 90 then n + 32 else n) [0..<256]"
    unfolding sqlite3UpperToLower_def by (simp add: upt_rec)
  from table_at [OF this, of c] show ?thesis by (simp add: lower_def)
qed

lemma tolower_0 [simp]: "sqlite3UpperToLower ! 0 = 0" by (simp add: sqlite3UpperToLower_def)

lemma isspace_code: "sqlite3Isspace c \<longleftrightarrow> code c = 32 \<or> 9 \<le> code c \<and> code c \<le> 13"
proof -
  have "map (\<lambda>n. n AND 0x01 \<noteq> 0) sqlite3CtypeMap = map (\<lambda>n. n = 32 \<or> 9 \<le> n \<and> n \<le> 13) [0..<256]"
    unfolding sqlite3CtypeMap_def by (simp add: upt_rec)
  from table_at [OF this, of c] show ?thesis by (simp add: sqlite3Isspace_def ctype_bit_def)
qed

lemma isdigit_code: "sqlite3Isdigit c \<longleftrightarrow> 48 \<le> code c \<and> code c \<le> 57"
proof -
  have "map (\<lambda>n. n AND 0x04 \<noteq> 0) sqlite3CtypeMap = map (\<lambda>n. 48 \<le> n \<and> n \<le> 57) [0..<256]"
    unfolding sqlite3CtypeMap_def by (simp add: upt_rec)
  from table_at [OF this, of c] show ?thesis by (simp add: sqlite3Isdigit_def ctype_bit_def)
qed

lemma isalpha_code: "sqlite3Isalpha c \<longleftrightarrow> 65 \<le> code c \<and> code c \<le> 90 \<or> 97 \<le> code c \<and> code c \<le> 122"
proof -
  have "map (\<lambda>n. n AND 0x02 \<noteq> 0) sqlite3CtypeMap = map (\<lambda>n. 65 \<le> n \<and> n \<le> 90 \<or> 97 \<le> n \<and> n \<le> 122) [0..<256]"
    unfolding sqlite3CtypeMap_def by (simp add: upt_rec)
  from table_at [OF this, of c] show ?thesis by (simp add: sqlite3Isalpha_def ctype_bit_def)
qed

lemma isalnum_code: "sqlite3Isalnum c \<longleftrightarrow> 48 \<le> code c \<and> code c \<le> 57 \<or> 65 \<le> code c \<and> code c \<le> 90 \<or> 97 \<le> code c \<and> code c \<le> 122"
proof -
  have "map (\<lambda>n. n AND 0x06 \<noteq> 0) sqlite3CtypeMap = map (\<lambda>n. 48 \<le> n \<and> n \<le> 57 \<or> 65 \<le> n \<and> n \<le> 90 \<or> 97 \<le> n \<and> n \<le> 122) [0..<256]"
    unfolding sqlite3CtypeMap_def by (simp add: upt_rec)
  from table_at [OF this, of c] show ?thesis by (simp add: sqlite3Isalnum_def ctype_bit_def)
qed

lemma isxdigit_code: "sqlite3Isxdigit c \<longleftrightarrow> 48 \<le> code c \<and> code c \<le> 57 \<or> 65 \<le> code c \<and> code c \<le> 70 \<or> 97 \<le> code c \<and> code c \<le> 102"
proof -
  have "map (\<lambda>n. n AND 0x08 \<noteq> 0) sqlite3CtypeMap = map (\<lambda>n. 48 \<le> n \<and> n \<le> 57 \<or> 65 \<le> n \<and> n \<le> 70 \<or> 97 \<le> n \<and> n \<le> 102) [0..<256]"
    unfolding sqlite3CtypeMap_def by (simp add: upt_rec)
  from table_at [OF this, of c] show ?thesis by (simp add: sqlite3Isxdigit_def ctype_bit_def)
qed

lemma isquote_code: "sqlite3Isquote c \<longleftrightarrow> code c = 34 \<or> code c = 39 \<or> code c = 91 \<or> code c = 96"
proof -
  have "map (\<lambda>n. n AND 0x80 \<noteq> 0) sqlite3CtypeMap = map (\<lambda>n. n = 34 \<or> n = 39 \<or> n = 91 \<or> n = 96) [0..<256]"
    unfolding sqlite3CtypeMap_def by (simp add: upt_rec)
  from table_at [OF this, of c] show ?thesis by (simp add: sqlite3Isquote_def ctype_bit_def)
qed

lemma idchar_code: "IdChar c \<longleftrightarrow> code c = 36 \<or> 48 \<le> code c \<and> code c \<le> 57 \<or> 65 \<le> code c \<and> code c \<le> 90 \<or> code c = 95 \<or> 97 \<le> code c \<and> code c \<le> 122 \<or> 128 \<le> code c"
proof -
  have "map (\<lambda>n. n AND 0x46 \<noteq> 0) sqlite3CtypeMap = map (\<lambda>n. n = 36 \<or> 48 \<le> n \<and> n \<le> 57 \<or> 65 \<le> n \<and> n \<le> 90 \<or> n = 95 \<or> 97 \<le> n \<and> n \<le> 122 \<or> 128 \<le> n) [0..<256]"
    unfolding sqlite3CtypeMap_def by (simp add: upt_rec)
  from table_at [OF this, of c] show ?thesis by (simp add: IdChar_def ctype_bit_def)
qed

lemma length_CtypeMap: "length sqlite3CtypeMap = 256" by (simp add: sqlite3CtypeMap_def)

lemma toupper_code: "sqlite3Toupper c = (if 97 \<le> code c \<and> code c \<le> 122 then char_of (code c - 32) else c)"
proof -
  have "map (\<lambda>(m, n). unat ((of_nat n :: u8) AND NOT (of_nat m AND 0x20))) (zip sqlite3CtypeMap [0..<256])
      = map (\<lambda>n. if 97 \<le> n \<and> n \<le> 122 then n - 32 else n) [0..<256]"
    unfolding sqlite3CtypeMap_def by (simp add: upt_rec)
  from table_at [OF this, of c] show ?thesis
    by (simp add: sqlite3Toupper_def of_nat_of_char length_CtypeMap nth_zip)
qed

lemmas class_codes = isspace_code isdigit_code isalpha_code isalnum_code isxdigit_code isquote_code idchar_code

section \<open>Case-insensitive comparison\<close>

lemma lower_nul [simp]: "lower c = CHR 0x00 \<longleftrightarrow> c = CHR 0x00"
  by (auto simp: lower_def dest: arg_cong [of _ _ code])

lemma code_0: "code c = 0 \<longleftrightarrow> c = CHR 0x00"
  using of_char_eq_iff [of c "CHR 0x00", where ?'a = nat] by simp

lemma strICmp_zero:
  "CHR 0x00 \<notin> set a \<Longrightarrow> CHR 0x00 \<notin> set b \<Longrightarrow> sqlite3StrICmp a b = 0 \<longleftrightarrow> map lower a = map lower b"
  by (induction a b rule: sqlite3StrICmp.induct) (auto simp: code_0 Let_def)

lemma strICmp_antisym: "sqlite3StrICmp a b = - sqlite3StrICmp b a"
  by (induction a b rule: sqlite3StrICmp.induct) (auto simp: Let_def)

lemma strnicmp_take:
  "CHR 0x00 \<notin> set a \<Longrightarrow> CHR 0x00 \<notin> set b \<Longrightarrow>
   strnicmp_loop a b n = 0 \<longleftrightarrow> map lower (take n a) = map lower (take n b)"
proof (induction n arbitrary: a b)
  case (Suc n)
  have tl: "CHR 0x00 \<notin> set (tl a)" "CHR 0x00 \<notin> set (tl b)"
    using Suc.prems by (cases a, simp_all) (cases b, simp_all)
  have n: "code (CHR 0x00) = 0" "lower (CHR 0x00) = CHR 0x00" by (simp_all)
  show ?case using Suc.IH [OF tl] Suc.prems
    by (cases a; cases b) (auto simp: zat_def code_0 n)
qed simp


section \<open>Properties\<close>

text \<open>
  C39.  Two zero-terminated strings compare equal under \<open>sqlite3StrICmp\<close> exactly when they are
  equal up to the case of ASCII letters, their first \<open>n\<close> characters under \<open>sqlite3_strnicmp\<close>
  likewise, and equal strings have the same \<open>sqlite3StrIHash\<close>.
\<close>

theorem strICmp_correct:
  assumes "CHR 0x00 \<notin> set a" "CHR 0x00 \<notin> set b"
  shows "(sqlite3StrICmp a b = 0 \<longleftrightarrow> map lower a = map lower b) \<and>
    sqlite3StrICmp a b = - sqlite3StrICmp b a \<and>
    (sqlite3_strnicmp (Some a) (Some b) n = 0 \<longleftrightarrow> map lower (take n a) = map lower (take n b)) \<and>
    (map lower a = map lower b \<longrightarrow> sqlite3StrIHash (Some a) = sqlite3StrIHash (Some b))"
proof -
  have "fold (\<lambda>c h. h + of_nat (sqlite3UpperToLower ! code c)) z h = fold (\<lambda>c h. h + of_nat (code c)) (map lower z) (h :: u8)"
    for z h by (induction z arbitrary: h) simp_all
  then show ?thesis using strICmp_zero [OF assms] strICmp_antisym [of a b] strnicmp_take [OF assms, of n]
    by (simp add: sqlite3StrIHash_def sqlite3_strnicmp_def)
qed

theorem strICmp_correct_witness:
  "sqlite3StrICmp ''SELECT'' ''select'' = 0 \<and> sqlite3_strnicmp (Some ''weekday 3'') (Some ''WEEKDAY 5'') 8 = 0"
proof -
  have "map lower ''SELECT'' = map lower ''select''" "map lower (take 8 ''weekday 3'') = map lower (take 8 ''WEEKDAY 5'')"
    by code_simp+
  then show ?thesis using strICmp_correct [of "''SELECT''" "''select''" 0] strICmp_correct [of "''weekday 3''" "''WEEKDAY 5''" 8]
    by simp
qed

text \<open>
  The comparison tables that overlay \<open>sqlite3UpperToLower\<close> give, for the outcome of a
  three-way comparison (less, equal, greater), the truth value of the operator whose opcode
  indexes them.
\<close>

definition op_holds :: "nat \<Rightarrow> int \<Rightarrow> bool" where
  "op_holds op cmp = (if op = OP_Ne then cmp \<noteq> 0 else if op = OP_Eq then cmp = 0 else if op = OP_Gt then 0 < cmp
     else if op = OP_Le then cmp \<le> 0 else if op = OP_Lt then cmp < 0 else 0 \<le> cmp)"

theorem comparison_tables:
  "map (\<lambda>op. (sqlite3aLTb op, sqlite3aEQb op, sqlite3aGTb op)) [OP_Ne..<OP_Ge + 1]
   = map (\<lambda>op. (of_bool (op_holds op (- 1)), of_bool (op_holds op 0), of_bool (op_holds op 1))) [OP_Ne..<OP_Ge + 1]"
  by (simp add: OP_Ne_def OP_Eq_def OP_Gt_def OP_Le_def OP_Lt_def OP_Ge_def op_holds_def upt_rec
      sqlite3aLTb_def sqlite3aEQb_def sqlite3aGTb_def sqlite3UpperToLower_def)

end
