(* ===== verification/HashTab.thy ===== *)
theory HashTab
  imports Interfaces Ctype "HOL-Library.Multiset"
begin

text \<open>
  The symbol tables of SQLite (\<open>hash.c\<close>, \<open>hash.h\<close>): all elements are on one doubly-linked
  list, and a bucket is a pointer into that list with a count.  The list is modelled as a list of
  elements that carry their address, so that \<open>prev\<close> and \<open>next\<close> are the neighbours; a
  dereferenced null pointer or a division by zero gives \<open>None\<close>.  A key is the string it points to,
  and a data pointer is its address, 0 for \<open>NULL\<close>.
\<close>

section \<open>State\<close>

record helem =
  eaddr :: nat
  ekey :: string
  ehash :: u32
  edata :: nat

record bucket =
  bcount :: nat
  chain :: "nat option"

record hash_table =
  htsize :: nat
  hcount :: nat
  helems :: "helem list"
  ht :: "bucket list option"

text \<open>
  What the allocator answers: \<open>new_elem\<close> maps the live addresses to the address of a new element, and
  \<open>new_table\<close> the requested number of bytes to the usable size (\<open>sqlite3MallocSize\<close>) of the block;
  \<open>None\<close> is a failed allocation.
\<close>

record allocator =
  new_elem :: "nat list \<Rightarrow> nat option"
  new_table :: "nat \<Rightarrow> nat option"

definition sizeof_ht :: nat where "sizeof_ht = 8"

definition SQLITE_MALLOC_SOFT_LIMIT :: nat where "SQLITE_MALLOC_SOFT_LIMIT = 1024"

section \<open>Operations\<close>

definition sqlite3HashInit :: hash_table where
  "sqlite3HashInit = \<lparr>htsize = 0, hcount = 0, helems = [], ht = None\<rparr>"

definition sqlite3HashClear :: "hash_table \<Rightarrow> hash_table" where
  "sqlite3HashClear H = H\<lparr>helems := [], ht := None, htsize := 0, hcount := 0\<rparr>"

definition strHash :: "string \<Rightarrow> u32" where
  "strHash z = fold (\<lambda>c h. (h + (0xdf AND of_char c)) * 0x9e3779b1) z 0"

text \<open>The list with \<open>e\<close> linked in before the element at address \<open>a\<close>.\<close>

definition insert_before :: "nat \<Rightarrow> helem \<Rightarrow> helem list \<Rightarrow> helem list" where
  "insert_before a e es = takeWhile (\<lambda>x. eaddr x \<noteq> a) es @ e # dropWhile (\<lambda>x. eaddr x \<noteq> a) es"

definition insertElement :: "hash_table \<Rightarrow> nat option \<Rightarrow> helem \<Rightarrow> hash_table" where
  "insertElement H pEntry e =
    (case (pEntry, ht H) of
      (Some i, Some bs) \<Rightarrow>
        let b = bs ! i;
            pHead = (if bcount b \<noteq> 0 then chain b else None);
            bs' = bs[i := \<lparr>bcount = bcount b + 1, chain = Some (eaddr e)\<rparr>]
        in (case pHead of
              Some a \<Rightarrow> H\<lparr>ht := Some bs', helems := insert_before a e (helems H)\<rparr>
            | None \<Rightarrow> H\<lparr>ht := Some bs', helems := e # helems H\<rparr>)
    | _ \<Rightarrow> H\<lparr>helems := e # helems H\<rparr>)"

definition rehash :: "allocator \<Rightarrow> hash_table \<Rightarrow> nat \<Rightarrow> hash_table \<times> bool" where
  "rehash A H n =
    (let new_size = (if n * sizeof_ht > SQLITE_MALLOC_SOFT_LIMIT then SQLITE_MALLOC_SOFT_LIMIT div sizeof_ht else n)
     in if new_size = htsize H then (H, False)
        else case new_table A (new_size * sizeof_ht) of
          None \<Rightarrow> (H, False)
        | Some usable \<Rightarrow>
            let m = usable div sizeof_ht;
                H0 = H\<lparr>ht := Some (replicate m \<lparr>bcount = 0, chain = None\<rparr>), htsize := m, helems := []\<rparr>
            in (foldl (\<lambda>T e. insertElement T (Some (unat (ehash e) mod m)) e) H0 (helems H), True))"

text \<open>The search loop: \<open>count\<close> elements from the given one on.\<close>

fun find_loop :: "u32 \<Rightarrow> string \<Rightarrow> helem list \<Rightarrow> nat \<Rightarrow> helem option option" where
  "find_loop h k es 0 = Some None"
| "find_loop h k [] (Suc n) = None"
| "find_loop h k (e # es) (Suc n) =
    (if h = ehash e \<and> sqlite3StrICmp (ekey e) k = 0 then Some (Some e) else find_loop h k es n)"

text \<open>The part of the list that starts at an address.\<close>

definition from_addr :: "nat option \<Rightarrow> helem list \<Rightarrow> helem list" where
  "from_addr p es = (case p of None \<Rightarrow> [] | Some a \<Rightarrow> dropWhile (\<lambda>x. eaddr x \<noteq> a) es)"

definition findElementWithHash :: "hash_table \<Rightarrow> string \<Rightarrow> (u32 \<times> helem option) option" where
  "findElementWithHash H k =
    (let h = strHash k
     in map_option (Pair h)
        (case ht H of
           Some bs \<Rightarrow> if htsize H = 0 then None
             else let b = bs ! (unat h mod htsize H) in find_loop h k (from_addr (chain b) (helems H)) (bcount b)
         | None \<Rightarrow> find_loop h k (helems H) (hcount H)))"

text \<open>The address in the \<open>next\<close> field of an element.\<close>

definition next_addr :: "helem \<Rightarrow> helem list \<Rightarrow> nat option" where
  "next_addr e es = (case tl (dropWhile (\<lambda>x. eaddr x \<noteq> eaddr e) es) of [] \<Rightarrow> None | x # _ \<Rightarrow> Some (eaddr x))"

definition removeElement :: "hash_table \<Rightarrow> helem \<Rightarrow> hash_table" where
  "removeElement H e =
    (let bs' = (case ht H of
           None \<Rightarrow> None
         | Some bs \<Rightarrow> let i = unat (ehash e) mod htsize H; b = bs ! i
             in Some (bs[i := \<lparr>bcount = bcount b - 1,
                               chain = (if chain b = Some (eaddr e) then next_addr e (helems H) else chain b)\<rparr>]));
         H' = H\<lparr>ht := bs', helems := filter (\<lambda>x. eaddr x \<noteq> eaddr e) (helems H), hcount := hcount H - 1\<rparr>
     in if hcount H' = 0 then sqlite3HashClear H' else H')"

definition sqlite3HashFind :: "hash_table \<Rightarrow> string \<Rightarrow> nat option" where
  "sqlite3HashFind H k =
    map_option (\<lambda>(h, e). case e of None \<Rightarrow> 0 | Some e \<Rightarrow> edata e) (findElementWithHash H k)"

definition sqlite3HashInsert :: "allocator \<Rightarrow> hash_table \<Rightarrow> string \<Rightarrow> nat \<Rightarrow> (hash_table \<times> nat) option" where
  "sqlite3HashInsert A H k d =
    (case findElementWithHash H k of
       None \<Rightarrow> None
     | Some (h, Some e) \<Rightarrow>
         Some (if d = 0 then removeElement H e
               else H\<lparr>helems := map (\<lambda>x. if eaddr x = eaddr e then x\<lparr>edata := d, ekey := k\<rparr> else x) (helems H)\<rparr>,
               edata e)
     | Some (h, None) \<Rightarrow>
         if d = 0 then Some (H, 0)
         else case new_elem A (map eaddr (helems H)) of
           None \<Rightarrow> Some (H, d)
         | Some a \<Rightarrow>
             let e = \<lparr>eaddr = a, ekey = k, ehash = h, edata = d\<rparr>;
                 H1 = H\<lparr>hcount := hcount H + 1\<rparr>;
                 H2 = (if hcount H1 \<ge> 5 \<and> hcount H1 > 2 * htsize H1 then fst (rehash A H1 (hcount H1 * 3)) else H1)
             in Some (insertElement H2 (if ht H2 \<noteq> None then Some (unat (ehash e) mod htsize H2) else None) e, 0))"

section \<open>The invariant\<close>

definition hidx :: "nat \<Rightarrow> helem \<Rightarrow> nat" where "hidx n e = unat (ehash e) mod n"

text \<open>A bucket is the contiguous run of the elements with its index.\<close>

definition bucket_ok :: "nat \<Rightarrow> helem list \<Rightarrow> nat \<Rightarrow> bucket \<Rightarrow> bool" where
  "bucket_ok n es i b \<longleftrightarrow>
    (\<exists>xs seg ys. es = xs @ seg @ ys \<and> (\<forall>e \<in> set xs \<union> set ys. hidx n e \<noteq> i) \<and> (\<forall>e \<in> set seg. hidx n e = i) \<and>
      bcount b = length seg \<and> (seg \<noteq> [] \<longrightarrow> chain b = Some (eaddr (hd seg))))"

definition table_ok :: "hash_table \<Rightarrow> bool" where
  "table_ok H \<longleftrightarrow> distinct (map eaddr (helems H)) \<and>
    (case ht H of None \<Rightarrow> htsize H = 0
     | Some bs \<Rightarrow> htsize H = length bs \<and> 0 < htsize H \<and> (\<forall>i < htsize H. bucket_ok (htsize H) (helems H) i (bs ! i)))"

definition folded :: "string \<Rightarrow> string" where "folded k = map lower k"

definition elem_ok :: "helem \<Rightarrow> bool" where
  "elem_ok e \<longleftrightarrow> ehash e = strHash (ekey e) \<and> CHR 0x00 \<notin> set (ekey e) \<and> edata e \<noteq> 0"

definition hash_inv :: "hash_table \<Rightarrow> bool" where
  "hash_inv H \<longleftrightarrow> table_ok H \<and> hcount H = length (helems H) \<and> list_all elem_ok (helems H) \<and>
    distinct (map (folded \<circ> ekey) (helems H))"

text \<open>The map a table stands for: from keys up to case to data pointers.\<close>

definition hash_map :: "hash_table \<Rightarrow> string \<Rightarrow> nat option" where
  "hash_map H = map_of (map (\<lambda>e. (folded (ekey e), edata e)) (helems H))"

definition allocator_ok :: "allocator \<Rightarrow> bool" where
  "allocator_ok A \<longleftrightarrow> (\<forall>l a. new_elem A l = Some a \<longrightarrow> a \<notin> set l) \<and> (\<forall>n m. new_table A n = Some m \<longrightarrow> n \<le> m)"

section \<open>Linking and unlinking\<close>

lemma insert_before_left:
  "a \<in> eaddr ` set xs \<Longrightarrow> insert_before a e (xs @ ys) = insert_before a e xs @ ys"
  unfolding insert_before_def by (auto simp: takeWhile_append dropWhile_append)

lemma insert_before_right:
  "a \<notin> eaddr ` set xs \<Longrightarrow> insert_before a e (xs @ ys) = xs @ insert_before a e ys"
  unfolding insert_before_def by (subst takeWhile_append2, force, subst dropWhile_append2, force) simp

lemma set_insert_before [simp]: "set (insert_before a e es) = insert e (set es)"
proof -
  have "set es = set (takeWhile (\<lambda>x. eaddr x \<noteq> a) es @ dropWhile (\<lambda>x. eaddr x \<noteq> a) es)" by simp
  then show ?thesis unfolding insert_before_def by (simp only: set_append) auto
qed

lemma distinct_insert_before:
  "distinct (map eaddr (insert_before a e es)) \<longleftrightarrow> distinct (map eaddr es) \<and> eaddr e \<notin> eaddr ` set es"
proof -
  have s: "es = takeWhile (\<lambda>x. eaddr x \<noteq> a) es @ dropWhile (\<lambda>x. eaddr x \<noteq> a) es" by simp
  show ?thesis unfolding insert_before_def
    by (subst (4) s, subst (3) s) (auto simp del: takeWhile_dropWhile_id)
qed

lemma length_insert_before [simp]: "length (insert_before a e es) = Suc (length es)"
  unfolding insert_before_def by (metis length_append length_Cons add_Suc_right takeWhile_dropWhile_id)

lemma insert_before_hd: "insert_before (eaddr x) e (x # xs) = e # x # xs"
  by (simp add: insert_before_def)

lemma dropWhile_addr:
  "x \<notin> eaddr ` set xs \<Longrightarrow> ys \<noteq> [] \<Longrightarrow> eaddr (hd ys) = x \<Longrightarrow> dropWhile (\<lambda>e. eaddr e \<noteq> x) (xs @ ys) = ys"
  by (induction xs) (cases ys, simp_all)

lemma bucket_okI:
  assumes "es = xs @ seg @ ys" "\<And>e. e \<in> set xs \<Longrightarrow> hidx n e \<noteq> i" "\<And>e. e \<in> set ys \<Longrightarrow> hidx n e \<noteq> i"
    "\<And>e. e \<in> set seg \<Longrightarrow> hidx n e = i" "bcount b = length seg" "seg \<noteq> [] \<Longrightarrow> chain b = Some (eaddr (hd seg))"
  shows "bucket_ok n es i b"
  unfolding bucket_ok_def using assms by blast

lemma bucket_okE:
  assumes "bucket_ok n es i b"
  obtains xs seg ys where "es = xs @ seg @ ys" "\<And>e. e \<in> set xs \<Longrightarrow> hidx n e \<noteq> i" "\<And>e. e \<in> set ys \<Longrightarrow> hidx n e \<noteq> i"
    "\<And>e. e \<in> set seg \<Longrightarrow> hidx n e = i" "bcount b = length seg" "seg \<noteq> [] \<Longrightarrow> chain b = Some (eaddr (hd seg))"
  using assms unfolding bucket_ok_def by blast

text \<open>An element linked in anywhere but inside a bucket keeps the bucket.\<close>

lemma bucket_other_front:
  assumes "bucket_ok n es i b" "hidx n e \<noteq> i"
  shows "bucket_ok n (e # es) i b"
proof -
  obtain xs seg ys where "es = xs @ seg @ ys" "\<And>e. e \<in> set xs \<Longrightarrow> hidx n e \<noteq> i" "\<And>e. e \<in> set ys \<Longrightarrow> hidx n e \<noteq> i"
    "\<And>e. e \<in> set seg \<Longrightarrow> hidx n e = i" "bcount b = length seg" "seg \<noteq> [] \<Longrightarrow> chain b = Some (eaddr (hd seg))"
    using bucket_okE [OF assms(1)] by blast
  then show ?thesis using assms(2) by (intro bucket_okI [of _ "e # xs" seg ys]) auto
qed

lemma bucket_other_before:
  assumes "bucket_ok n es i b" "hidx n e \<noteq> i" "f \<in> set es" "hidx n f \<noteq> i" "distinct (map eaddr es)"
  shows "bucket_ok n (insert_before (eaddr f) e es) i b"
proof -
  obtain xs seg ys where d: "es = xs @ seg @ ys" "\<And>e. e \<in> set xs \<Longrightarrow> hidx n e \<noteq> i" "\<And>e. e \<in> set ys \<Longrightarrow> hidx n e \<noteq> i"
    "\<And>e. e \<in> set seg \<Longrightarrow> hidx n e = i" "bcount b = length seg" "seg \<noteq> [] \<Longrightarrow> chain b = Some (eaddr (hd seg))"
    using bucket_okE [OF assms(1)] by blast
  show ?thesis
  proof (cases "f \<in> set xs")
    case True
    then have "insert_before (eaddr f) e es = insert_before (eaddr f) e xs @ seg @ ys"
      unfolding d(1) by (intro insert_before_left) simp
    then show ?thesis using d assms(2) by (intro bucket_okI [of _ "insert_before (eaddr f) e xs" seg ys]) auto
  next
    case False
    then have f: "f \<in> set ys" using assms(3,4) d(1,4) by auto
    then have "eaddr f \<notin> eaddr ` set (xs @ seg)" using assms(5) unfolding d(1) by auto
    then have "insert_before (eaddr f) e es = (xs @ seg) @ insert_before (eaddr f) e ys"
      unfolding d(1) using insert_before_right [of "eaddr f" "xs @ seg" e ys] by simp
    then show ?thesis using d assms(2) by (intro bucket_okI [of _ xs seg "insert_before (eaddr f) e ys"]) auto
  qed
qed

text \<open>Linking an element into its own bucket: the new list and the new bucket.\<close>

definition linked :: "bucket \<Rightarrow> helem \<Rightarrow> helem list \<Rightarrow> helem list" where
  "linked b e es = (case (if bcount b \<noteq> 0 then chain b else None) of
     Some a \<Rightarrow> insert_before a e es | None \<Rightarrow> e # es)"

lemma insertElement_linked:
  "ht H = Some bs \<Longrightarrow> insertElement H (Some i) e =
    H\<lparr>ht := Some (bs[i := \<lparr>bcount = bcount (bs ! i) + 1, chain = Some (eaddr e)\<rparr>]), helems := linked (bs ! i) e (helems H)\<rparr>"
  by (simp add: insertElement_def linked_def Let_def split: option.split)

lemma mset_linked: "mset (linked b e es) = add_mset e (mset es)"
proof -
  have "mset (insert_before a e es) = add_mset e (mset es)" for a
  proof -
    have "mset es = mset (takeWhile (\<lambda>x. eaddr x \<noteq> a) es) + mset (dropWhile (\<lambda>x. eaddr x \<noteq> a) es)"
      by (metis mset_append takeWhile_dropWhile_id)
    then show ?thesis unfolding insert_before_def by simp
  qed
  then show ?thesis by (simp add: linked_def split: option.split)
qed

lemma bucket_own:
  assumes "bucket_ok n es i b" "hidx n e = i" "distinct (map eaddr es)"
  shows "bucket_ok n (linked b e es) i \<lparr>bcount = bcount b + 1, chain = Some (eaddr e)\<rparr>"
proof -
  obtain xs seg ys where d: "es = xs @ seg @ ys" "\<And>e. e \<in> set xs \<Longrightarrow> hidx n e \<noteq> i" "\<And>e. e \<in> set ys \<Longrightarrow> hidx n e \<noteq> i"
    "\<And>e. e \<in> set seg \<Longrightarrow> hidx n e = i" "bcount b = length seg" "seg \<noteq> [] \<Longrightarrow> chain b = Some (eaddr (hd seg))"
    using bucket_okE [OF assms(1)] by blast
  show ?thesis
  proof (cases seg)
    case Nil
    then show ?thesis using d assms(2) by (intro bucket_okI [of _ "[]" "[e]" "xs @ ys"]) (auto simp: linked_def)
  next
    case (Cons f fs)
    have "eaddr f \<notin> eaddr ` set xs" using assms(3) unfolding d(1) Cons by auto
    then have "linked b e es = xs @ (e # seg) @ ys"
      using d Cons by (simp add: linked_def insert_before_right insert_before_hd)
    then show ?thesis using d assms(2) by (intro bucket_okI [of _ xs "e # seg" ys]) auto
  qed
qed

lemma bucket_other:
  assumes "bucket_ok n es i b" "hidx n e \<noteq> i" "distinct (map eaddr es)" "bucket_ok n es j b'" "j \<noteq> i"
  shows "bucket_ok n (linked b' e es) i b"
proof -
  from bucket_okE [OF assms(4)] obtain xs seg ys where d0: "es = xs @ seg @ ys" "\<And>e. e \<in> set xs \<Longrightarrow> hidx n e \<noteq> j"
    "\<And>e. e \<in> set ys \<Longrightarrow> hidx n e \<noteq> j" "\<And>e. e \<in> set seg \<Longrightarrow> hidx n e = j" "bcount b' = length seg"
    "seg \<noteq> [] \<Longrightarrow> chain b' = Some (eaddr (hd seg))" by blast
  note d = d0(1) d0(4,5,6)
  show ?thesis
  proof (cases seg)
    case Nil
    then have "linked b' e es = e # es" using d(3) by (simp add: linked_def)
    then show ?thesis using bucket_other_front [OF assms(1,2)] by simp
  next
    case (Cons f fs)
    have "linked b' e es = insert_before (eaddr f) e es" using d(3,4) Cons by (simp add: linked_def)
    moreover have "f \<in> set es" unfolding d(1) Cons by simp
    moreover have "f \<in> set seg" unfolding Cons by simp
    then have "hidx n f \<noteq> i" using d(2) assms(5) by metis
    ultimately show ?thesis using bucket_other_before [OF assms(1,2) _ _ assms(3), of f] by simp
  qed
qed

lemma distinct_mset_map: "mset xs = mset ys \<Longrightarrow> distinct (map f xs) \<longleftrightarrow> distinct (map f ys)"
  by (metis mset_eq_imp_distinct_iff mset_map)

lemma insertElement_ok:
  assumes "table_ok H" "ht H \<noteq> None" "eaddr e \<notin> eaddr ` set (helems H)" "i = hidx (htsize H) e"
  shows "table_ok (insertElement H (Some i) e) \<and> ht (insertElement H (Some i) e) \<noteq> None \<and>
    htsize (insertElement H (Some i) e) = htsize H \<and> hcount (insertElement H (Some i) e) = hcount H \<and>
    mset (helems (insertElement H (Some i) e)) = add_mset e (mset (helems H))"
proof -
  obtain bs where bs: "ht H = Some bs" using assms(2) by blast
  let ?n = "htsize H" and ?es = "linked (bs ! i) e (helems H)"
  have inv: "distinct (map eaddr (helems H))" "?n = length bs" "0 < ?n"
    "\<And>k. k < ?n \<Longrightarrow> bucket_ok ?n (helems H) k (bs ! k)"
    using assms(1) bs by (auto simp: table_ok_def)
  have i: "i < ?n" using assms(4) inv(3) by (simp add: hidx_def)
  have "distinct (map eaddr ?es)"
    using distinct_mset_map [of ?es "e # helems H" eaddr] inv(1) assms(3) by (simp add: mset_linked)
  moreover have "bucket_ok ?n ?es k (bs[i := \<lparr>bcount = bcount (bs ! i) + 1, chain = Some (eaddr e)\<rparr>] ! k)" if "k < ?n" for k
    using bucket_own [OF inv(4) [OF i] assms(4) [symmetric] inv(1)]
      bucket_other [OF inv(4) [OF that] _ inv(1) inv(4) [OF i], of e] assms(4) that inv(2)
    by (cases "k = i") auto
  ultimately show ?thesis
    using bs inv(2,3) by (simp add: insertElement_linked table_ok_def mset_linked)
qed

lemma insertElement_none: "ht H = None \<Longrightarrow> insertElement H p e = H\<lparr>helems := e # helems H\<rparr>"
  by (simp add: insertElement_def split: option.split)

lemma refill_ok:
  "table_ok T \<Longrightarrow> ht T \<noteq> None \<Longrightarrow> htsize T = n \<Longrightarrow> distinct (map eaddr es) \<Longrightarrow>
   eaddr ` set es \<inter> eaddr ` set (helems T) = {} \<Longrightarrow>
   let T' = foldl (\<lambda>T e. insertElement T (Some (unat (ehash e) mod n)) e) T es
   in table_ok T' \<and> ht T' \<noteq> None \<and> htsize T' = n \<and> hcount T' = hcount T \<and> mset (helems T') = mset es + mset (helems T)"
proof (induction es arbitrary: T)
  case (Cons e es)
  let ?T = "insertElement T (Some (unat (ehash e) mod n)) e"
  have T: "table_ok ?T \<and> ht ?T \<noteq> None \<and> htsize ?T = htsize T \<and> hcount ?T = hcount T \<and>
      mset (helems ?T) = add_mset e (mset (helems T))"
    using Cons.prems by (intro insertElement_ok) (auto simp: hidx_def)
  have "set (helems ?T) = insert e (set (helems T))" using T by (metis set_mset_add_mset_insert set_mset_mset)
  then have "eaddr ` set es \<inter> eaddr ` set (helems ?T) = {}" using Cons.prems by auto
  with Cons.IH [of ?T] T Cons.prems show ?case by (simp add: Let_def)
qed (simp add: Let_def)

text \<open>Resizing, whether it happens or not, keeps the elements and the invariant.\<close>

lemma rehash_ok:
  assumes "table_ok H" "allocator_ok A" "0 < n"
  shows "let H' = fst (rehash A H n) in table_ok H' \<and> hcount H' = hcount H \<and> mset (helems H') = mset (helems H)"
proof -
  let ?s = "if n * sizeof_ht > SQLITE_MALLOC_SOFT_LIMIT then SQLITE_MALLOC_SOFT_LIMIT div sizeof_ht else n"
  consider "?s = htsize H \<or> new_table A (?s * sizeof_ht) = None"
    | m where "?s \<noteq> htsize H" "new_table A (?s * sizeof_ht) = Some m" by blast
  then show ?thesis
  proof cases
    case 1
    then have "fst (rehash A H n) = H" unfolding rehash_def Let_def by auto
    then show ?thesis using assms(1) by simp
  next
    case (2 u)
    let ?m = "u div sizeof_ht"
    let ?T = "H\<lparr>ht := Some (replicate ?m \<lparr>bcount = 0, chain = None\<rparr>), htsize := ?m, helems := []\<rparr>"
    have "?s * sizeof_ht \<le> u" using assms(2) 2(2) unfolding allocator_ok_def by blast
    moreover have "0 < ?s" using assms(3) by (simp add: sizeof_ht_def SQLITE_MALLOC_SOFT_LIMIT_def)
    ultimately have m: "0 < ?m" by (simp add: sizeof_ht_def SQLITE_MALLOC_SOFT_LIMIT_def div_greater_zero_iff split: if_splits)
    have "table_ok ?T" using m by (simp add: table_ok_def bucket_ok_def)
    moreover have "fst (rehash A H n) = foldl (\<lambda>T e. insertElement T (Some (unat (ehash e) mod ?m)) e) ?T (helems H)"
      unfolding rehash_def Let_def using 2 by simp
    ultimately show ?thesis
      using refill_ok [of ?T ?m "helems H"] assms(1) by (simp add: Let_def table_ok_def)
  qed
qed

section \<open>Searching\<close>

lemma and_df_lower: "(0xdf AND of_char (lower c) :: u32) = 0xdf AND of_char c"
proof -
  have all: "\<forall>n \<in> set [65..<91]. 223 AND (n + 32) = 223 AND (n :: nat)" by (simp add: upt_rec)
  have "65 \<le> code c \<and> code c \<le> 90 \<Longrightarrow> 223 AND (code c + 32) = 223 AND code c"
    by (rule bspec [OF all]) (simp del: upt_rec_numeral)
  then have "(223 AND code (lower c)) = (223 AND code c)" by (auto simp: lower_def)
  then have "(of_nat (223 AND code (lower c)) :: u32) = of_nat (223 AND code c)" by simp
  then show ?thesis by (simp add: of_nat_and_eq of_nat_of_char)
qed

lemma strHash_folded: "folded a = folded b \<Longrightarrow> strHash a = strHash b"
proof -
  have "fold (\<lambda>c h. (h + (0xdf AND of_char c)) * 0x9e3779b1) (map lower z) h = fold (\<lambda>c h. (h + (0xdf AND of_char c)) * 0x9e3779b1) z (h :: u32)"
    for z h by (induction z arbitrary: h) (simp_all add: and_df_lower)
  then show "folded a = folded b \<Longrightarrow> strHash a = strHash b" unfolding strHash_def folded_def by metis
qed

lemma match_folded:
  "elem_ok e \<Longrightarrow> CHR 0x00 \<notin> set k \<Longrightarrow>
   strHash k = ehash e \<and> sqlite3StrICmp (ekey e) k = 0 \<longleftrightarrow> folded (ekey e) = folded k"
  unfolding elem_ok_def by (auto simp: strICmp_zero folded_def intro: strHash_folded)

lemma find_loop_take:
  "n \<le> length es \<Longrightarrow> list_all elem_ok es \<Longrightarrow> CHR 0x00 \<notin> set k \<Longrightarrow>
   find_loop (strHash k) k es n = Some (find (\<lambda>e. folded (ekey e) = folded k) (take n es))"
proof (induction "strHash k" k es n rule: find_loop.induct)
  case (3 k e es n)
  then show ?case using match_folded [of e k] by auto
qed simp_all

lemma find_middle:
  "(\<And>e. e \<in> set xs \<union> set ys \<Longrightarrow> \<not> P e) \<Longrightarrow> find P (xs @ seg @ ys) = find P seg"
proof (induction xs)
  case Nil
  then show ?case by (induction seg) (auto simp: find_None_iff)
qed simp

lemma find_ok:
  assumes "hash_inv H" "CHR 0x00 \<notin> set k"
  shows "findElementWithHash H k = Some (strHash k, find (\<lambda>e. folded (ekey e) = folded k) (helems H))"
proof (cases "ht H")
  case None
  then show ?thesis using assms find_loop_take [of "hcount H" "helems H" k]
    by (simp add: findElementWithHash_def Let_def hash_inv_def)
next
  case (Some bs)
  let ?n = "htsize H" and ?F = "\<lambda>e. folded (ekey e) = folded k"
  let ?i = "unat (strHash k) mod htsize H"
  have inv: "distinct (map eaddr (helems H))" "0 < ?n" "list_all elem_ok (helems H)"
    "bucket_ok ?n (helems H) ?i (bs ! ?i)"
    using assms(1) Some by (auto simp: hash_inv_def table_ok_def)
  from bucket_okE [OF inv(4)] obtain xs seg ys where d: "helems H = xs @ seg @ ys"
    "\<And>e. e \<in> set xs \<Longrightarrow> hidx ?n e \<noteq> ?i" "\<And>e. e \<in> set ys \<Longrightarrow> hidx ?n e \<noteq> ?i"
    "\<And>e. e \<in> set seg \<Longrightarrow> hidx ?n e = ?i" "bcount (bs ! ?i) = length seg"
    "seg \<noteq> [] \<Longrightarrow> chain (bs ! ?i) = Some (eaddr (hd seg))" by blast
  have "\<not> ?F e" if "e \<in> set xs \<union> set ys" for e
  proof
    assume "?F e"
    moreover have "ehash e = strHash (ekey e)" using inv(3) that unfolding d(1) elem_ok_def by (auto simp: list_all_iff)
    ultimately have "ehash e = strHash k" using strHash_folded by metis
    then show False using d(2) [of e] d(3) [of e] that by (auto simp: hidx_def)
  qed
  then have f: "find ?F (helems H) = find ?F seg" unfolding d(1) by (rule find_middle)
  have "find_loop (strHash k) k (from_addr (chain (bs ! ?i)) (helems H)) (length seg) = Some (find ?F seg)"
  proof (cases seg)
    case (Cons g gs)
    have "eaddr g \<notin> eaddr ` set xs" using inv(1) unfolding d(1) Cons by auto
    then have "dropWhile (\<lambda>x. eaddr x \<noteq> eaddr g) (xs @ seg @ ys) = seg @ ys"
      using Cons by (intro dropWhile_addr) simp_all
    then have "from_addr (chain (bs ! ?i)) (helems H) = seg @ ys"
      using d(1,6) Cons by (simp add: from_addr_def)
    then show ?thesis using find_loop_take [of "length seg" "seg @ ys" k] inv(3) assms(2) d(1) by simp
  qed simp
  then show ?thesis using Some inv(2) d(5) f by (simp add: findElementWithHash_def Let_def)
qed

lemma find_map_of:
  "map_option edata (find (\<lambda>e. folded (ekey e) = f) es) = map_of (map (\<lambda>e. (folded (ekey e), edata e)) es) f"
  by (induction es) auto

lemma find_SomeD: "find P xs = Some x \<Longrightarrow> x \<in> set xs \<and> P x"
  by (metis find_Some_iff nth_mem)

text \<open>What a lookup returns.\<close>

lemma hashFind_ok:
  assumes "hash_inv H" "CHR 0x00 \<notin> set k"
  shows "sqlite3HashFind H k = Some (case hash_map H (folded k) of None \<Rightarrow> 0 | Some d \<Rightarrow> d)"
  unfolding sqlite3HashFind_def find_ok [OF assms] hash_map_def find_map_of [symmetric]
  by (simp split: option.split)

section \<open>Removing\<close>

lemma filter_other: "eaddr f \<notin> eaddr ` set xs \<Longrightarrow> filter (\<lambda>x. eaddr x \<noteq> eaddr f) xs = xs"
  by (force simp: filter_id_conv)

lemma bucket_remove:
  assumes "bucket_ok n es i b" "f \<in> set es" "distinct (map eaddr es)"
  shows "bucket_ok n (filter (\<lambda>x. eaddr x \<noteq> eaddr f) es) i
    (if hidx n f = i then \<lparr>bcount = bcount b - 1, chain = (if chain b = Some (eaddr f) then next_addr f es else chain b)\<rparr> else b)"
proof -
  from bucket_okE [OF assms(1)] obtain xs seg ys where d: "es = xs @ seg @ ys" "\<And>e. e \<in> set xs \<Longrightarrow> hidx n e \<noteq> i"
    "\<And>e. e \<in> set ys \<Longrightarrow> hidx n e \<noteq> i" "\<And>e. e \<in> set seg \<Longrightarrow> hidx n e = i" "bcount b = length seg"
    "seg \<noteq> [] \<Longrightarrow> chain b = Some (eaddr (hd seg))" by blast
  let ?r = "filter (\<lambda>x. eaddr x \<noteq> eaddr f)"
  have r: "?r es = ?r xs @ ?r seg @ ?r ys" unfolding d(1) by simp
  have sub: "set (?r zs) \<subseteq> set zs" for zs by auto
  show ?thesis
  proof (cases "hidx n f = i")
    case False
    then have "f \<notin> set seg" using d(4) by blast
    then have "eaddr f \<notin> eaddr ` set seg" using assms(2,3) unfolding d(1) by auto
    then have "?r seg = seg" by (rule filter_other)
    then show ?thesis using r d(2-6) sub False by (intro bucket_okI [of _ "?r xs" seg "?r ys"]) auto
  next
    case True
    have "f \<in> set seg" using assms(2) True d(1-3) by auto
    then obtain s1 s2 where s: "seg = s1 @ f # s2" by (metis split_list)
    have a: "eaddr f \<notin> eaddr ` set s1" "eaddr f \<notin> eaddr ` set s2" "eaddr f \<notin> eaddr ` set xs" "eaddr f \<notin> eaddr ` set ys"
      using assms(3) unfolding d(1) s by auto
    have rs: "?r seg = s1 @ s2" unfolding s using filter_other [OF a(1)] filter_other [OF a(2)] by simp
    have "chain \<lparr>bcount = bcount b - 1, chain = (if chain b = Some (eaddr f) then next_addr f es else chain b)\<rparr> = Some (eaddr (hd (s1 @ s2)))"
      if ne: "s1 @ s2 \<noteq> []"
    proof (cases s1)
      case Nil
      have "dropWhile (\<lambda>x. eaddr x \<noteq> eaddr f) (xs @ (f # s2 @ ys)) = f # s2 @ ys"
        using a(3) by (intro dropWhile_addr) simp_all
      then have "next_addr f es = Some (eaddr (hd s2))"
        using ne Nil by (cases s2) (simp_all add: next_addr_def d(1) s)
      then show ?thesis using d(6) s Nil by simp
    next
      case (Cons g gs)
      then show ?thesis using d(6) s a(1) by auto
    qed
    then show ?thesis using r rs d(2-5) sub True s by (intro bucket_okI [of _ "?r xs" "s1 @ s2" "?r ys"]) auto
  qed
qed

lemma removeElement_ok:
  assumes "hash_inv H" "f \<in> set (helems H)"
  shows "hash_inv (removeElement H f) \<and>
    hash_map (removeElement H f) = (hash_map H)(folded (ekey f) := None)"
proof -
  let ?r = "filter (\<lambda>x. eaddr x \<noteq> eaddr f)"
  let ?es = "?r (helems H)"
  have inv: "distinct (map eaddr (helems H))" "hcount H = length (helems H)" "list_all elem_ok (helems H)"
    "distinct (map (folded \<circ> ekey) (helems H))"
    using assms(1) by (auto simp: hash_inv_def table_ok_def)
  obtain s1 s2 where s: "helems H = s1 @ f # s2" using assms(2) by (metis split_list)
  have a: "eaddr f \<notin> eaddr ` set s1" "eaddr f \<notin> eaddr ` set s2" using inv(1) unfolding s by auto
  have es: "?es = s1 @ s2" unfolding s using filter_other [OF a(1)] filter_other [OF a(2)] by simp
  have "folded (ekey f) \<notin> (folded \<circ> ekey) ` set (s1 @ s2)" using inv(4) unfolding s by auto
  then have none: "map_of (map (\<lambda>e. (folded (ekey e), edata e)) s1) (folded (ekey f)) = None"
      "map_of (map (\<lambda>e. (folded (ekey e), edata e)) s2) (folded (ekey f)) = None"
    by (auto simp: map_of_eq_None_iff image_image)
  have map: "map_of (map (\<lambda>e. (folded (ekey e), edata e)) ?es) = (hash_map H)(folded (ekey f) := None)"
    unfolding es using none by (auto simp: hash_map_def s fun_eq_iff map_add_def split: option.split)
  have pre: "distinct (map eaddr ?es)" "hcount H - 1 = length ?es" "list_all elem_ok ?es" "distinct (map (folded \<circ> ekey) ?es)"
    unfolding es using inv unfolding s by auto
  show ?thesis
  proof (cases "hcount H - 1 = 0")
    case True
    then have e: "?es = []" using pre(2) by simp
    have "removeElement H f = \<lparr>htsize = 0, hcount = 0, helems = [], ht = None\<rparr>"
      using True by (simp add: removeElement_def sqlite3HashClear_def)
    then show ?thesis using map unfolding e by (simp add: hash_inv_def table_ok_def hash_map_def)
  next
    case False
    let ?H = "removeElement H f"
    have H: "helems ?H = ?es" "hcount ?H = hcount H - 1" "htsize ?H = htsize H"
      using False by (simp_all add: removeElement_def Let_def)
    have "table_ok ?H"
    proof (cases "ht H")
      case None
      then have "ht ?H = None" "htsize H = 0" using False assms(1)
        by (simp_all add: removeElement_def Let_def hash_inv_def table_ok_def)
      then show ?thesis using H pre(1) by (simp add: table_ok_def)
    next
      case (Some bs)
      let ?i = "hidx (htsize H) f"
      let ?b = "\<lparr>bcount = bcount (bs ! ?i) - 1, chain = (if chain (bs ! ?i) = Some (eaddr f) then next_addr f (helems H) else chain (bs ! ?i))\<rparr>"
      have t: "htsize H = length bs" "0 < htsize H" "\<And>i. i < htsize H \<Longrightarrow> bucket_ok (htsize H) (helems H) i (bs ! i)"
        using assms(1) Some by (auto simp: hash_inv_def table_ok_def)
      have "ht ?H = Some (bs[?i := ?b])"
        using False Some by (simp add: removeElement_def Let_def hidx_def)
      moreover have "bucket_ok (htsize H) ?es i (bs[?i := ?b] ! i)" if "i < htsize H" for i
        using bucket_remove [OF t(3) [OF that] assms(2) inv(1)] that t(1)
        by (cases "?i = i") (auto simp: nth_list_update cong: if_cong split del: if_split)
      ultimately show ?thesis using H pre(1) t(1,2) by (simp add: table_ok_def)
    qed
    then show ?thesis using H pre map by (simp add: hash_inv_def hash_map_def)
  qed
qed

section \<open>Inserting\<close>

lemma bucket_map:
  assumes "bucket_ok n es i b" "\<And>e. eaddr (g e) = eaddr e" "\<And>e. ehash (g e) = ehash e"
  shows "bucket_ok n (map g es) i b"
proof -
  from bucket_okE [OF assms(1)] obtain xs seg ys where d: "es = xs @ seg @ ys" "\<And>e. e \<in> set xs \<Longrightarrow> hidx n e \<noteq> i"
    "\<And>e. e \<in> set ys \<Longrightarrow> hidx n e \<noteq> i" "\<And>e. e \<in> set seg \<Longrightarrow> hidx n e = i" "bcount b = length seg"
    "seg \<noteq> [] \<Longrightarrow> chain b = Some (eaddr (hd seg))" by blast
  have "hidx n (g e) = hidx n e" for e by (simp add: hidx_def assms(3))
  then show ?thesis
    using d(1,5,6) assms(2) by (intro bucket_okI [of _ "map g xs" "map g seg" "map g ys"]) (auto simp: hd_map d(4) dest: d(2,3))
qed

lemma table_ok_map:
  assumes "table_ok H" "\<And>e. eaddr (g e) = eaddr e" "\<And>e. ehash (g e) = ehash e" "distinct (map eaddr (map g (helems H)))"
  shows "table_ok (H\<lparr>helems := map g (helems H)\<rparr>)"
  using assms(1,4) bucket_map [OF _ assms(2,3)] by (cases "ht H") (auto simp: table_ok_def)

text \<open>Overwriting key and data of an element.\<close>

lemma overwrite_ok:
  assumes "hash_inv H" "f \<in> set (helems H)" "CHR 0x00 \<notin> set k" "folded (ekey f) = folded k" "d \<noteq> 0"
  shows "let H' = H\<lparr>helems := map (\<lambda>x. if eaddr x = eaddr f then x\<lparr>edata := d, ekey := k\<rparr> else x) (helems H)\<rparr>
    in hash_inv H' \<and> hash_map H' = (hash_map H)(folded k \<mapsto> d)"
proof -
  let ?g = "\<lambda>x. if eaddr x = eaddr f then x\<lparr>edata := d, ekey := k\<rparr> else x"
  let ?H = "H\<lparr>helems := map ?g (helems H)\<rparr>"
  have inv: "distinct (map eaddr (helems H))" "hcount H = length (helems H)" "list_all elem_ok (helems H)"
    "distinct (map (folded \<circ> ekey) (helems H))"
    using assms(1) by (auto simp: hash_inv_def table_ok_def)
  obtain s1 s2 where s: "helems H = s1 @ f # s2" using assms(2) by (metis split_list)
  have a: "eaddr f \<notin> eaddr ` set s1" "eaddr f \<notin> eaddr ` set s2" using inv(1) unfolding s by auto
  have id: "map ?g zs = zs" if "eaddr f \<notin> eaddr ` set zs" for zs
    using that by (intro map_idI) (auto simp: image_iff)
  have es: "map ?g (helems H) = s1 @ f\<lparr>edata := d, ekey := k\<rparr> # s2"
    unfolding s using id [OF a(1)] id [OF a(2)] by simp
  have keep: "eaddr (?g x) = eaddr x" "ehash (?g x) = ehash x" for x by simp_all
  have "map eaddr (map ?g zs) = map eaddr zs" for zs :: "helem list" by (induction zs) auto
  then have ad: "distinct (map eaddr (map ?g (helems H)))" using inv(1) by (simp only:)
  have "table_ok ?H" using table_ok_map [OF _ keep ad] assms(1) by (simp add: hash_inv_def)
  moreover have eH: "helems ?H = s1 @ f\<lparr>edata := d, ekey := k\<rparr> # s2" using es by simp
  have "list_all elem_ok (helems ?H)"
    using inv(3) assms(3,5) strHash_folded [OF assms(4)] unfolding eH unfolding s by (simp add: elem_ok_def)
  moreover have "map (folded \<circ> ekey) (helems ?H) = map (folded \<circ> ekey) (helems H)"
    using assms(4) unfolding eH unfolding s by simp
  then have "distinct (map (folded \<circ> ekey) (helems ?H))" using inv(4) by (simp only:)
  moreover have "hash_map ?H = (hash_map H)(folded k \<mapsto> d)"
  proof -
    have "folded (ekey f) \<notin> (folded \<circ> ekey) ` set (s1 @ s2)" using inv(4) unfolding s by auto
    then have "map_of (map (\<lambda>e. (folded (ekey e), edata e)) s1) (folded k) = None"
      unfolding assms(4) by (auto simp: map_of_eq_None_iff image_image)
    then show ?thesis using assms(4)
      unfolding hash_map_def eH unfolding s by (auto simp: fun_eq_iff map_add_def split: option.split)
  qed
  ultimately show ?thesis using inv(2) unfolding Let_def hash_inv_def by (simp del: map_map)
qed

lemma hash_map_mset:
  assumes "mset (helems H') = mset (helems H)" "distinct (map (folded \<circ> ekey) (helems H))"
  shows "hash_map H' = hash_map H"
proof -
  let ?p = "\<lambda>e. (folded (ekey e), edata e)"
  have m: "mset (map ?p (helems H')) = mset (map ?p (helems H))" using assms(1) by simp
  have d: "distinct (map fst (map ?p (helems H)))" using assms(2) by (simp add: comp_def)
  then have "distinct (map fst (map ?p (helems H')))" by (simp only: distinct_mset_map [OF m])
  then show ?thesis unfolding hash_map_def by (simp only: map_of_inject_set [OF _ d] mset_eq_setD [OF m])
qed

text \<open>Linking a new element into a table in which its key does not occur.\<close>

lemma link_new_ok:
  assumes "hash_inv H" "allocator_ok A" "new_elem A (map eaddr (helems H)) = Some a" "CHR 0x00 \<notin> set k" "d \<noteq> 0"
    "hash_map H (folded k) = None" "e = \<lparr>eaddr = a, ekey = k, ehash = strHash k, edata = d\<rparr>"
    "H1 = H\<lparr>hcount := hcount H + 1\<rparr>"
    "H2 = H1 \<or> H2 = fst (rehash A H1 (hcount H1 * 3))"
  shows "let H' = insertElement H2 (if ht H2 \<noteq> None then Some (unat (ehash e) mod htsize H2) else None) e
    in hash_inv H' \<and> hash_map H' = (hash_map H)(folded k \<mapsto> d)"
proof -
  have inv: "table_ok H" "hcount H = length (helems H)" "list_all elem_ok (helems H)"
    "distinct (map (folded \<circ> ekey) (helems H))"
    using assms(1) by (auto simp: hash_inv_def)
  have "table_ok H1" "helems H1 = helems H" using inv(1) assms(8) by (auto simp: table_ok_def split: option.splits)
  then have H2: "table_ok H2" "hcount H2 = hcount H + 1" "mset (helems H2) = mset (helems H)"
    using assms(9) rehash_ok [of H1 A "hcount H1 * 3"] assms(2,8) by (auto simp: Let_def)
  have "a \<notin> set (map eaddr (helems H))" using assms(2,3) unfolding allocator_ok_def by blast
  then have fresh: "eaddr e \<notin> eaddr ` set (helems H2)" using assms(7) mset_eq_setD [OF H2(3)] by simp
  define H' where "H' = insertElement H2 (if ht H2 \<noteq> None then Some (unat (ehash e) mod htsize H2) else None) e"
  have H': "table_ok H' \<and> hcount H' = hcount H + 1 \<and> mset (helems H') = add_mset e (mset (helems H))"
  proof (cases "ht H2")
    case None
    then have "H' = H2\<lparr>helems := e # helems H2\<rparr>" by (simp add: H'_def insertElement_none)
    then show ?thesis using None H2 fresh by (simp add: table_ok_def)
  next
    case (Some bs)
    then have "H' = insertElement H2 (Some (hidx (htsize H2) e)) e" by (simp add: H'_def hidx_def)
    then show ?thesis using insertElement_ok [OF H2(1) _ fresh refl] Some H2(2,3) by simp
  qed
  then have m: "mset (helems H') = mset (e # helems H)" by simp
  have new: "folded k \<notin> (folded \<circ> ekey) ` set (helems H)"
    using assms(6) by (auto simp: hash_map_def map_of_eq_None_iff image_image)
  then have dist: "distinct (map (folded \<circ> ekey) (e # helems H))" using inv(4) assms(7) by simp
  have "hash_map H' = hash_map (H\<lparr>helems := e # helems H\<rparr>)"
    using m dist by (intro hash_map_mset) simp_all
  then have map: "hash_map H' = (hash_map H)(folded k \<mapsto> d)" using assms(7) by (simp add: hash_map_def)
  have "list_all elem_ok (helems H')"
    using inv(3) assms(4,5,7) mset_eq_setD [OF m] by (simp add: list_all_iff elem_ok_def)
  moreover have "distinct (map (folded \<circ> ekey) (helems H'))" using distinct_mset_map [OF m] dist by blast
  moreover have "hcount H' = length (helems H')" using H' inv(2) mset_eq_length [OF m] by simp
  ultimately show ?thesis using H' map unfolding Let_def H'_def [symmetric] by (simp add: hash_inv_def)
qed

text \<open>Every insertion, replacement and deletion, with every outcome of the allocator.\<close>

lemma hash_inv_init: "hash_inv sqlite3HashInit"
  by (simp add: hash_inv_def table_ok_def sqlite3HashInit_def)

lemma hashInsert_cases:
  assumes "hash_inv H" "allocator_ok A" "CHR 0x00 \<notin> set k"
  obtains (refused) "d \<noteq> 0" "hash_map H (folded k) = None" "new_elem A (map eaddr (helems H)) = None"
      "sqlite3HashInsert A H k d = Some (H, d)"
  | (accepted) H' where "d \<noteq> 0 \<longrightarrow> hash_map H (folded k) \<noteq> None \<or> new_elem A (map eaddr (helems H)) \<noteq> None"
      "sqlite3HashInsert A H k d = Some (H', case hash_map H (folded k) of None \<Rightarrow> 0 | Some old \<Rightarrow> old)"
      "hash_inv H'" "hash_map H' = (hash_map H)(folded k := (if d = 0 then None else Some d))"
proof (cases "find (\<lambda>e. folded (ekey e) = folded k) (helems H)")
  case (Some e)
  have e: "e \<in> set (helems H)" "folded (ekey e) = folded k" using find_SomeD [OF Some] by auto
  have m: "hash_map H (folded k) = Some (edata e)"
    unfolding hash_map_def find_map_of [symmetric] Some by simp
  show ?thesis
    using accepted [of "fst (the (sqlite3HashInsert A H k d))"] m e removeElement_ok [OF assms(1) e(1)]
      overwrite_ok [OF assms(1) e(1) assms(3) e(2), of d]
    by (simp add: sqlite3HashInsert_def find_ok [OF assms(1,3)] Some Let_def split: if_splits)
next
  case None
  have m: "hash_map H (folded k) = None" unfolding hash_map_def find_map_of [symmetric] None by simp
  have i: "sqlite3HashInsert A H k d = (if d = 0 then Some (H, 0) else case new_elem A (map eaddr (helems H)) of None \<Rightarrow> Some (H, d)
      | Some a \<Rightarrow> let e = \<lparr>eaddr = a, ekey = k, ehash = strHash k, edata = d\<rparr>;
                 H1 = H\<lparr>hcount := hcount H + 1\<rparr>;
                 H2 = (if hcount H1 \<ge> 5 \<and> hcount H1 > 2 * htsize H1 then fst (rehash A H1 (hcount H1 * 3)) else H1)
             in Some (insertElement H2 (if ht H2 \<noteq> None then Some (unat (ehash e) mod htsize H2) else None) e, 0))"
    unfolding sqlite3HashInsert_def find_ok [OF assms(1,3)] None by simp
  consider "d = 0" | "d \<noteq> 0" "new_elem A (map eaddr (helems H)) = None"
    | a where "d \<noteq> 0" "new_elem A (map eaddr (helems H)) = Some a" by blast
  then show ?thesis
  proof cases
    case 1
    then show ?thesis using accepted [of H] i m assms(1) by (simp add: fun_upd_idem)
  next
    case 2
    then show ?thesis using refused i m by simp
  next
    case (3 a)
    show ?thesis
      using accepted link_new_ok [OF assms(1,2) 3(2) assms(3) 3(1) m refl refl, of "let H1 = H\<lparr>hcount := hcount H + 1\<rparr> in
          if hcount H1 \<ge> 5 \<and> hcount H1 > 2 * htsize H1 then fst (rehash A H1 (hcount H1 * 3)) else H1"]
        i m 3 by (simp add: Let_def split: if_splits)
  qed
qed

lemma hashClear_ok: "hash_inv (sqlite3HashClear H) \<and> hash_map (sqlite3HashClear H) = Map.empty"
  by (simp add: hash_inv_def table_ok_def hash_map_def sqlite3HashClear_def)

definition generous :: "allocator \<Rightarrow> bool" where
  "generous A \<longleftrightarrow> allocator_ok A \<and> (\<forall>l. new_elem A l \<noteq> None)"

definition put_symbol :: "allocator \<Rightarrow> hash_table \<Rightarrow> string \<Rightarrow> nat \<Rightarrow> hash_table" where
  "put_symbol A H k d = fst (the (sqlite3HashInsert A H k d))"

interpretation sym: finite_map put_symbol "\<lambda>H k. the (sqlite3HashFind H k)" 0 hash_inv generous "\<lambda>k. CHR 0x00 \<notin> set k" folded hash_map
proof unfold_locales
  fix H A k d assume "hash_inv H" "generous A" "CHR 0x00 \<notin> set k"
  moreover from this have "allocator_ok A" "new_elem A (map eaddr (helems H)) \<noteq> None" by (simp_all add: generous_def)
  ultimately show "hash_inv (put_symbol A H k d) \<and> hash_map (put_symbol A H k d) = (hash_map H)(folded k := (if d = 0 then None else Some d))"
    unfolding put_symbol_def by (elim hashInsert_cases [of H A k d]) auto
qed (simp add: hashFind_ok)

section \<open>Properties\<close>

text \<open>
  C2.  On a table that satisfies the invariant, \<open>sqlite3HashInsert\<close> never follows a null pointer, keeps
  the invariant, and either refuses a new key because no element could be allocated (the data comes
  back and the table is unchanged) or makes exactly that change to the map, up to the case of the
  key, and returns the previous data pointer.
\<close>

theorem hashInsert_refines:
  assumes "hash_inv H" "allocator_ok A" "CHR 0x00 \<notin> set k"
  shows "\<exists>H' r. sqlite3HashInsert A H k d = Some (H', r) \<and> hash_inv H' \<and>
    (if d \<noteq> 0 \<and> hash_map H (folded k) = None \<and> new_elem A (map eaddr (helems H)) = None
     then H' = H \<and> r = d
     else hash_map H' = (hash_map H)(folded k := (if d = 0 then None else Some d)) \<and>
       r = (case hash_map H (folded k) of None \<Rightarrow> 0 | Some old \<Rightarrow> old))"
  by (rule hashInsert_cases [OF assms, of d]) (use assms(1) in auto)

text \<open>An allocator that hands out the next address and rounds tables up to 16 bytes.\<close>

definition bump_allocator :: allocator where
  "bump_allocator = \<lparr>new_elem = \<lambda>l. Some (Suc (foldr max l 0)), new_table = \<lambda>n. Some (16 * ((n + 15) div 16))\<rparr>"

lemma bump_allocator_ok: "allocator_ok bump_allocator"
proof -
  have "x \<in> set l \<Longrightarrow> x \<le> foldr max l 0" for x :: nat and l by (induction l) auto
  then have "Suc (foldr max l 0) \<notin> set l" for l :: "nat list" by (metis not_less_eq_eq order_refl)
  moreover have "n \<le> 16 * ((n + 15) div 16)" for n :: nat by linarith
  ultimately show ?thesis by (simp add: allocator_ok_def bump_allocator_def)
qed

theorem hashInsert_refines_witness:
  "\<exists>H' r. sqlite3HashInsert bump_allocator sqlite3HashInit ''Name'' 7 = Some (H', r) \<and> hash_inv H' \<and>
    hash_map H' ''name'' = Some 7 \<and> r = 0"
proof -
  have "folded ''Name'' = ''name''" by code_simp
  moreover have "hash_map sqlite3HashInit = Map.empty" by (simp add: hash_map_def sqlite3HashInit_def)
  moreover have "new_elem bump_allocator l \<noteq> None" for l by (simp add: bump_allocator_def)
  ultimately show ?thesis
    using hashInsert_refines [OF hash_inv_init bump_allocator_ok, of "''Name''" 7] by auto
qed

text \<open>
  C26.  After any history of insertions, replacements and deletions in which elements can be allocated
  (the bucket array need not be), a lookup finds the data that was last stored under the key, up to
  its case, and \<open>NULL\<close> when there is none.
\<close>

theorem hash_history:
  assumes "\<forall>(A, k, d) \<in> set ops. generous A \<and> CHR 0x00 \<notin> set k" "CHR 0x00 \<notin> set key"
  shows "let H = fold (\<lambda>(A, k, d) H. fst (the (sqlite3HashInsert A H k d))) ops sqlite3HashInit
    in hash_inv H \<and> sqlite3HashFind H key = Some (fold (\<lambda>(A, k, d) r. if folded k = folded key then d else r) ops 0)"
proof -
  let ?H = "fold (\<lambda>(A, k, d) H. put_symbol A H k d) ops sqlite3HashInit"
  have "the (sqlite3HashFind sqlite3HashInit key) = 0"
    by (simp add: sqlite3HashFind_def findElementWithHash_def sqlite3HashInit_def Let_def)
  then have "hash_inv ?H \<and> the (sqlite3HashFind ?H key) = fold (\<lambda>(A, k, d) r. if folded k = folded key then d else r) ops 0"
    using sym.history [OF hash_inv_init, of ops key] assms by simp
  then show ?thesis using hashFind_ok [of ?H key] assms(2) by (simp add: put_symbol_def Let_def)
qed

theorem hash_history_witness:
  "let H = fold (\<lambda>(A, k, d) H. fst (the (sqlite3HashInsert A H k d)))
      [(bump_allocator, ''main'', 3), (bump_allocator, ''Temp'', 4), (bump_allocator, ''MAIN'', 5), (bump_allocator, ''temp'', 0)] sqlite3HashInit
    in sqlite3HashFind H ''Main'' = Some 5 \<and> sqlite3HashFind H ''TEMP'' = Some 0"
proof -
  have g: "generous bump_allocator" using bump_allocator_ok by (simp add: generous_def bump_allocator_def)
  have f: "folded ''main'' = ''main''" "folded ''Main'' = ''main''" "folded ''MAIN'' = ''main''"
    "folded ''temp'' = ''temp''" "folded ''Temp'' = ''temp''" "folded ''TEMP'' = ''temp''" by code_simp+
  show ?thesis
    using hash_history [of "[(bump_allocator, ''main'', 3), (bump_allocator, ''Temp'', 4), (bump_allocator, ''MAIN'', 5), (bump_allocator, ''temp'', 0)]" "''Main''"]
      hash_history [of "[(bump_allocator, ''main'', 3), (bump_allocator, ''Temp'', 4), (bump_allocator, ''MAIN'', 5), (bump_allocator, ''temp'', 0)]" "''TEMP''"]
    by (simp add: g f Let_def)
qed

end
