(* ===== verification/Tokens.thy ===== *)
theory Tokens
  imports Ctype
begin

text \<open>
  The constants of the SQL tokenizer: the token codes that the parser generator assigned
  (\<open>parse.h\<close>), the character classes and their table (\<open>tokenize.c\<close>), and the tables of the keyword
  hash (\<open>keywordhash.h\<close>).
\<close>

section \<open>Token codes\<close>

definition TK_SEMI :: nat where "TK_SEMI = 1"
definition TK_EXPLAIN :: nat where "TK_EXPLAIN = 2"
definition TK_QUERY :: nat where "TK_QUERY = 3"
definition TK_PLAN :: nat where "TK_PLAN = 4"
definition TK_BEGIN :: nat where "TK_BEGIN = 5"
definition TK_TRANSACTION :: nat where "TK_TRANSACTION = 6"
definition TK_DEFERRED :: nat where "TK_DEFERRED = 7"
definition TK_IMMEDIATE :: nat where "TK_IMMEDIATE = 8"
definition TK_EXCLUSIVE :: nat where "TK_EXCLUSIVE = 9"
definition TK_COMMIT :: nat where "TK_COMMIT = 10"
definition TK_END :: nat where "TK_END = 11"
definition TK_ROLLBACK :: nat where "TK_ROLLBACK = 12"
definition TK_SAVEPOINT :: nat where "TK_SAVEPOINT = 13"
definition TK_RELEASE :: nat where "TK_RELEASE = 14"
definition TK_TO :: nat where "TK_TO = 15"
definition TK_TABLE :: nat where "TK_TABLE = 16"
definition TK_CREATE :: nat where "TK_CREATE = 17"
definition TK_IF :: nat where "TK_IF = 18"
definition TK_NOT :: nat where "TK_NOT = 19"
definition TK_EXISTS :: nat where "TK_EXISTS = 20"
definition TK_TEMP :: nat where "TK_TEMP = 21"
definition TK_LP :: nat where "TK_LP = 22"
definition TK_RP :: nat where "TK_RP = 23"
definition TK_AS :: nat where "TK_AS = 24"
definition TK_COMMA :: nat where "TK_COMMA = 25"
definition TK_WITHOUT :: nat where "TK_WITHOUT = 26"
definition TK_ABORT :: nat where "TK_ABORT = 27"
definition TK_ACTION :: nat where "TK_ACTION = 28"
definition TK_AFTER :: nat where "TK_AFTER = 29"
definition TK_ANALYZE :: nat where "TK_ANALYZE = 30"
definition TK_ASC :: nat where "TK_ASC = 31"
definition TK_ATTACH :: nat where "TK_ATTACH = 32"
definition TK_BEFORE :: nat where "TK_BEFORE = 33"
definition TK_BY :: nat where "TK_BY = 34"
definition TK_CASCADE :: nat where "TK_CASCADE = 35"
definition TK_CAST :: nat where "TK_CAST = 36"
definition TK_CONFLICT :: nat where "TK_CONFLICT = 37"
definition TK_DATABASE :: nat where "TK_DATABASE = 38"
definition TK_DESC :: nat where "TK_DESC = 39"
definition TK_DETACH :: nat where "TK_DETACH = 40"
definition TK_EACH :: nat where "TK_EACH = 41"
definition TK_FAIL :: nat where "TK_FAIL = 42"
definition TK_OR :: nat where "TK_OR = 43"
definition TK_AND :: nat where "TK_AND = 44"
definition TK_IS :: nat where "TK_IS = 45"
definition TK_ISNOT :: nat where "TK_ISNOT = 46"
definition TK_MATCH :: nat where "TK_MATCH = 47"
definition TK_LIKE_KW :: nat where "TK_LIKE_KW = 48"
definition TK_BETWEEN :: nat where "TK_BETWEEN = 49"
definition TK_IN :: nat where "TK_IN = 50"
definition TK_ISNULL :: nat where "TK_ISNULL = 51"
definition TK_NOTNULL :: nat where "TK_NOTNULL = 52"
definition TK_NE :: nat where "TK_NE = 53"
definition TK_EQ :: nat where "TK_EQ = 54"
definition TK_GT :: nat where "TK_GT = 55"
definition TK_LE :: nat where "TK_LE = 56"
definition TK_LT :: nat where "TK_LT = 57"
definition TK_GE :: nat where "TK_GE = 58"
definition TK_ESCAPE :: nat where "TK_ESCAPE = 59"
definition TK_ID :: nat where "TK_ID = 60"
definition TK_COLUMNKW :: nat where "TK_COLUMNKW = 61"
definition TK_DO :: nat where "TK_DO = 62"
definition TK_FOR :: nat where "TK_FOR = 63"
definition TK_IGNORE :: nat where "TK_IGNORE = 64"
definition TK_INITIALLY :: nat where "TK_INITIALLY = 65"
definition TK_INSTEAD :: nat where "TK_INSTEAD = 66"
definition TK_NO :: nat where "TK_NO = 67"
definition TK_KEY :: nat where "TK_KEY = 68"
definition TK_OF :: nat where "TK_OF = 69"
definition TK_OFFSET :: nat where "TK_OFFSET = 70"
definition TK_PRAGMA :: nat where "TK_PRAGMA = 71"
definition TK_RAISE :: nat where "TK_RAISE = 72"
definition TK_RECURSIVE :: nat where "TK_RECURSIVE = 73"
definition TK_REPLACE :: nat where "TK_REPLACE = 74"
definition TK_RESTRICT :: nat where "TK_RESTRICT = 75"
definition TK_ROW :: nat where "TK_ROW = 76"
definition TK_ROWS :: nat where "TK_ROWS = 77"
definition TK_TRIGGER :: nat where "TK_TRIGGER = 78"
definition TK_VACUUM :: nat where "TK_VACUUM = 79"
definition TK_VIEW :: nat where "TK_VIEW = 80"
definition TK_VIRTUAL :: nat where "TK_VIRTUAL = 81"
definition TK_WITH :: nat where "TK_WITH = 82"
definition TK_NULLS :: nat where "TK_NULLS = 83"
definition TK_FIRST :: nat where "TK_FIRST = 84"
definition TK_LAST :: nat where "TK_LAST = 85"
definition TK_CURRENT :: nat where "TK_CURRENT = 86"
definition TK_FOLLOWING :: nat where "TK_FOLLOWING = 87"
definition TK_PARTITION :: nat where "TK_PARTITION = 88"
definition TK_PRECEDING :: nat where "TK_PRECEDING = 89"
definition TK_RANGE :: nat where "TK_RANGE = 90"
definition TK_UNBOUNDED :: nat where "TK_UNBOUNDED = 91"
definition TK_EXCLUDE :: nat where "TK_EXCLUDE = 92"
definition TK_GROUPS :: nat where "TK_GROUPS = 93"
definition TK_OTHERS :: nat where "TK_OTHERS = 94"
definition TK_TIES :: nat where "TK_TIES = 95"
definition TK_GENERATED :: nat where "TK_GENERATED = 96"
definition TK_ALWAYS :: nat where "TK_ALWAYS = 97"
definition TK_MATERIALIZED :: nat where "TK_MATERIALIZED = 98"
definition TK_REINDEX :: nat where "TK_REINDEX = 99"
definition TK_RENAME :: nat where "TK_RENAME = 100"
definition TK_CTIME_KW :: nat where "TK_CTIME_KW = 101"
definition TK_ANY :: nat where "TK_ANY = 102"
definition TK_BITAND :: nat where "TK_BITAND = 103"
definition TK_BITOR :: nat where "TK_BITOR = 104"
definition TK_LSHIFT :: nat where "TK_LSHIFT = 105"
definition TK_RSHIFT :: nat where "TK_RSHIFT = 106"
definition TK_PLUS :: nat where "TK_PLUS = 107"
definition TK_MINUS :: nat where "TK_MINUS = 108"
definition TK_STAR :: nat where "TK_STAR = 109"
definition TK_SLASH :: nat where "TK_SLASH = 110"
definition TK_REM :: nat where "TK_REM = 111"
definition TK_CONCAT :: nat where "TK_CONCAT = 112"
definition TK_PTR :: nat where "TK_PTR = 113"
definition TK_COLLATE :: nat where "TK_COLLATE = 114"
definition TK_BITNOT :: nat where "TK_BITNOT = 115"
definition TK_ON :: nat where "TK_ON = 116"
definition TK_INDEXED :: nat where "TK_INDEXED = 117"
definition TK_STRING :: nat where "TK_STRING = 118"
definition TK_JOIN_KW :: nat where "TK_JOIN_KW = 119"
definition TK_CONSTRAINT :: nat where "TK_CONSTRAINT = 120"
definition TK_DEFAULT :: nat where "TK_DEFAULT = 121"
definition TK_NULL :: nat where "TK_NULL = 122"
definition TK_PRIMARY :: nat where "TK_PRIMARY = 123"
definition TK_UNIQUE :: nat where "TK_UNIQUE = 124"
definition TK_CHECK :: nat where "TK_CHECK = 125"
definition TK_REFERENCES :: nat where "TK_REFERENCES = 126"
definition TK_AUTOINCR :: nat where "TK_AUTOINCR = 127"
definition TK_INSERT :: nat where "TK_INSERT = 128"
definition TK_DELETE :: nat where "TK_DELETE = 129"
definition TK_UPDATE :: nat where "TK_UPDATE = 130"
definition TK_SET :: nat where "TK_SET = 131"
definition TK_DEFERRABLE :: nat where "TK_DEFERRABLE = 132"
definition TK_FOREIGN :: nat where "TK_FOREIGN = 133"
definition TK_DROP :: nat where "TK_DROP = 134"
definition TK_UNION :: nat where "TK_UNION = 135"
definition TK_ALL :: nat where "TK_ALL = 136"
definition TK_EXCEPT :: nat where "TK_EXCEPT = 137"
definition TK_INTERSECT :: nat where "TK_INTERSECT = 138"
definition TK_SELECT :: nat where "TK_SELECT = 139"
definition TK_VALUES :: nat where "TK_VALUES = 140"
definition TK_DISTINCT :: nat where "TK_DISTINCT = 141"
definition TK_DOT :: nat where "TK_DOT = 142"
definition TK_FROM :: nat where "TK_FROM = 143"
definition TK_JOIN :: nat where "TK_JOIN = 144"
definition TK_USING :: nat where "TK_USING = 145"
definition TK_ORDER :: nat where "TK_ORDER = 146"
definition TK_GROUP :: nat where "TK_GROUP = 147"
definition TK_HAVING :: nat where "TK_HAVING = 148"
definition TK_LIMIT :: nat where "TK_LIMIT = 149"
definition TK_WHERE :: nat where "TK_WHERE = 150"
definition TK_RETURNING :: nat where "TK_RETURNING = 151"
definition TK_INTO :: nat where "TK_INTO = 152"
definition TK_NOTHING :: nat where "TK_NOTHING = 153"
definition TK_FLOAT :: nat where "TK_FLOAT = 154"
definition TK_BLOB :: nat where "TK_BLOB = 155"
definition TK_INTEGER :: nat where "TK_INTEGER = 156"
definition TK_VARIABLE :: nat where "TK_VARIABLE = 157"
definition TK_CASE :: nat where "TK_CASE = 158"
definition TK_WHEN :: nat where "TK_WHEN = 159"
definition TK_THEN :: nat where "TK_THEN = 160"
definition TK_ELSE :: nat where "TK_ELSE = 161"
definition TK_INDEX :: nat where "TK_INDEX = 162"
definition TK_ALTER :: nat where "TK_ALTER = 163"
definition TK_ADD :: nat where "TK_ADD = 164"
definition TK_WINDOW :: nat where "TK_WINDOW = 165"
definition TK_OVER :: nat where "TK_OVER = 166"
definition TK_FILTER :: nat where "TK_FILTER = 167"
definition TK_COLUMN :: nat where "TK_COLUMN = 168"
definition TK_AGG_FUNCTION :: nat where "TK_AGG_FUNCTION = 169"
definition TK_AGG_COLUMN :: nat where "TK_AGG_COLUMN = 170"
definition TK_TRUEFALSE :: nat where "TK_TRUEFALSE = 171"
definition TK_FUNCTION :: nat where "TK_FUNCTION = 172"
definition TK_UPLUS :: nat where "TK_UPLUS = 173"
definition TK_UMINUS :: nat where "TK_UMINUS = 174"
definition TK_TRUTH :: nat where "TK_TRUTH = 175"
definition TK_REGISTER :: nat where "TK_REGISTER = 176"
definition TK_VECTOR :: nat where "TK_VECTOR = 177"
definition TK_SELECT_COLUMN :: nat where "TK_SELECT_COLUMN = 178"
definition TK_IF_NULL_ROW :: nat where "TK_IF_NULL_ROW = 179"
definition TK_ASTERISK :: nat where "TK_ASTERISK = 180"
definition TK_SPAN :: nat where "TK_SPAN = 181"
definition TK_ERROR :: nat where "TK_ERROR = 182"
definition TK_QNUMBER :: nat where "TK_QNUMBER = 183"
definition TK_SPACE :: nat where "TK_SPACE = 184"
definition TK_COMMENT :: nat where "TK_COMMENT = 185"
definition TK_ILLEGAL :: nat where "TK_ILLEGAL = 186"

lemmas TK_defs =
  TK_SEMI_def TK_EXPLAIN_def TK_QUERY_def TK_PLAN_def TK_BEGIN_def TK_TRANSACTION_def TK_DEFERRED_def TK_IMMEDIATE_def
  TK_EXCLUSIVE_def TK_COMMIT_def TK_END_def TK_ROLLBACK_def TK_SAVEPOINT_def TK_RELEASE_def TK_TO_def TK_TABLE_def
  TK_CREATE_def TK_IF_def TK_NOT_def TK_EXISTS_def TK_TEMP_def TK_LP_def TK_RP_def TK_AS_def
  TK_COMMA_def TK_WITHOUT_def TK_ABORT_def TK_ACTION_def TK_AFTER_def TK_ANALYZE_def TK_ASC_def TK_ATTACH_def
  TK_BEFORE_def TK_BY_def TK_CASCADE_def TK_CAST_def TK_CONFLICT_def TK_DATABASE_def TK_DESC_def TK_DETACH_def
  TK_EACH_def TK_FAIL_def TK_OR_def TK_AND_def TK_IS_def TK_ISNOT_def TK_MATCH_def TK_LIKE_KW_def
  TK_BETWEEN_def TK_IN_def TK_ISNULL_def TK_NOTNULL_def TK_NE_def TK_EQ_def TK_GT_def TK_LE_def
  TK_LT_def TK_GE_def TK_ESCAPE_def TK_ID_def TK_COLUMNKW_def TK_DO_def TK_FOR_def TK_IGNORE_def
  TK_INITIALLY_def TK_INSTEAD_def TK_NO_def TK_KEY_def TK_OF_def TK_OFFSET_def TK_PRAGMA_def TK_RAISE_def
  TK_RECURSIVE_def TK_REPLACE_def TK_RESTRICT_def TK_ROW_def TK_ROWS_def TK_TRIGGER_def TK_VACUUM_def TK_VIEW_def
  TK_VIRTUAL_def TK_WITH_def TK_NULLS_def TK_FIRST_def TK_LAST_def TK_CURRENT_def TK_FOLLOWING_def TK_PARTITION_def
  TK_PRECEDING_def TK_RANGE_def TK_UNBOUNDED_def TK_EXCLUDE_def TK_GROUPS_def TK_OTHERS_def TK_TIES_def TK_GENERATED_def
  TK_ALWAYS_def TK_MATERIALIZED_def TK_REINDEX_def TK_RENAME_def TK_CTIME_KW_def TK_ANY_def TK_BITAND_def TK_BITOR_def
  TK_LSHIFT_def TK_RSHIFT_def TK_PLUS_def TK_MINUS_def TK_STAR_def TK_SLASH_def TK_REM_def TK_CONCAT_def
  TK_PTR_def TK_COLLATE_def TK_BITNOT_def TK_ON_def TK_INDEXED_def TK_STRING_def TK_JOIN_KW_def TK_CONSTRAINT_def
  TK_DEFAULT_def TK_NULL_def TK_PRIMARY_def TK_UNIQUE_def TK_CHECK_def TK_REFERENCES_def TK_AUTOINCR_def TK_INSERT_def
  TK_DELETE_def TK_UPDATE_def TK_SET_def TK_DEFERRABLE_def TK_FOREIGN_def TK_DROP_def TK_UNION_def TK_ALL_def
  TK_EXCEPT_def TK_INTERSECT_def TK_SELECT_def TK_VALUES_def TK_DISTINCT_def TK_DOT_def TK_FROM_def TK_JOIN_def
  TK_USING_def TK_ORDER_def TK_GROUP_def TK_HAVING_def TK_LIMIT_def TK_WHERE_def TK_RETURNING_def TK_INTO_def
  TK_NOTHING_def TK_FLOAT_def TK_BLOB_def TK_INTEGER_def TK_VARIABLE_def TK_CASE_def TK_WHEN_def TK_THEN_def
  TK_ELSE_def TK_INDEX_def TK_ALTER_def TK_ADD_def TK_WINDOW_def TK_OVER_def TK_FILTER_def TK_COLUMN_def
  TK_AGG_FUNCTION_def TK_AGG_COLUMN_def TK_TRUEFALSE_def TK_FUNCTION_def TK_UPLUS_def TK_UMINUS_def TK_TRUTH_def TK_REGISTER_def
  TK_VECTOR_def TK_SELECT_COLUMN_def TK_IF_NULL_ROW_def TK_ASTERISK_def TK_SPAN_def TK_ERROR_def TK_QNUMBER_def TK_SPACE_def
  TK_COMMENT_def TK_ILLEGAL_def

section \<open>Character classes\<close>

definition CC_X :: nat where "CC_X = 0"
definition CC_KYWD0 :: nat where "CC_KYWD0 = 1"
definition CC_KYWD :: nat where "CC_KYWD = 2"
definition CC_DIGIT :: nat where "CC_DIGIT = 3"
definition CC_DOLLAR :: nat where "CC_DOLLAR = 4"
definition CC_VARALPHA :: nat where "CC_VARALPHA = 5"
definition CC_VARNUM :: nat where "CC_VARNUM = 6"
definition CC_SPACE :: nat where "CC_SPACE = 7"
definition CC_QUOTE :: nat where "CC_QUOTE = 8"
definition CC_QUOTE2 :: nat where "CC_QUOTE2 = 9"
definition CC_PIPE :: nat where "CC_PIPE = 10"
definition CC_MINUS :: nat where "CC_MINUS = 11"
definition CC_LT :: nat where "CC_LT = 12"
definition CC_GT :: nat where "CC_GT = 13"
definition CC_EQ :: nat where "CC_EQ = 14"
definition CC_BANG :: nat where "CC_BANG = 15"
definition CC_SLASH :: nat where "CC_SLASH = 16"
definition CC_LP :: nat where "CC_LP = 17"
definition CC_RP :: nat where "CC_RP = 18"
definition CC_SEMI :: nat where "CC_SEMI = 19"
definition CC_PLUS :: nat where "CC_PLUS = 20"
definition CC_STAR :: nat where "CC_STAR = 21"
definition CC_PERCENT :: nat where "CC_PERCENT = 22"
definition CC_COMMA :: nat where "CC_COMMA = 23"
definition CC_AND :: nat where "CC_AND = 24"
definition CC_TILDA :: nat where "CC_TILDA = 25"
definition CC_DOT :: nat where "CC_DOT = 26"
definition CC_ID :: nat where "CC_ID = 27"
definition CC_ILLEGAL :: nat where "CC_ILLEGAL = 28"
definition CC_NUL :: nat where "CC_NUL = 29"
definition CC_BOM :: nat where "CC_BOM = 30"

lemmas CC_defs =
  CC_X_def CC_KYWD0_def CC_KYWD_def CC_DIGIT_def CC_DOLLAR_def CC_VARALPHA_def CC_VARNUM_def CC_SPACE_def
  CC_QUOTE_def CC_QUOTE2_def CC_PIPE_def CC_MINUS_def CC_LT_def CC_GT_def CC_EQ_def CC_BANG_def
  CC_SLASH_def CC_LP_def CC_RP_def CC_SEMI_def CC_PLUS_def CC_STAR_def CC_PERCENT_def CC_COMMA_def
  CC_AND_def CC_TILDA_def CC_DOT_def CC_ID_def CC_ILLEGAL_def CC_NUL_def CC_BOM_def

definition aiClass :: "nat list" where
  "aiClass =
    [29, 28, 28, 28, 28, 28, 28, 28, 28, 7, 7, 28, 7, 7, 28, 28,
     28, 28, 28, 28, 28, 28, 28, 28, 28, 28, 28, 28, 28, 28, 28, 28,
     7, 15, 8, 5, 4, 22, 24, 8, 17, 18, 21, 20, 23, 11, 26, 16,
     3, 3, 3, 3, 3, 3, 3, 3, 3, 3, 5, 19, 12, 14, 13, 6,
     5, 1, 1, 1, 1, 1, 1, 1, 1, 1, 1, 1, 1, 1, 1, 1,
     1, 1, 1, 1, 1, 1, 1, 1, 0, 2, 2, 9, 28, 28, 28, 2,
     8, 1, 1, 1, 1, 1, 1, 1, 1, 1, 1, 1, 1, 1, 1, 1,
     1, 1, 1, 1, 1, 1, 1, 1, 0, 2, 2, 28, 10, 28, 25, 28,
     27, 27, 27, 27, 27, 27, 27, 27, 27, 27, 27, 27, 27, 27, 27, 27,
     27, 27, 27, 27, 27, 27, 27, 27, 27, 27, 27, 27, 27, 27, 27, 27,
     27, 27, 27, 27, 27, 27, 27, 27, 27, 27, 27, 27, 27, 27, 27, 27,
     27, 27, 27, 27, 27, 27, 27, 27, 27, 27, 27, 27, 27, 27, 27, 27,
     27, 27, 27, 27, 27, 27, 27, 27, 27, 27, 27, 27, 27, 27, 27, 27,
     27, 27, 27, 27, 27, 27, 27, 27, 27, 27, 27, 27, 27, 27, 27, 27,
     27, 27, 27, 27, 27, 27, 27, 27, 27, 27, 27, 27, 27, 27, 27, 30,
     27, 27, 27, 27, 27, 27, 27, 27, 27, 27, 27, 27, 27, 27, 27, 27]"

section \<open>Keyword tables\<close>

text \<open>The 666 characters of \<open>zKWText\<close>.\<close>

definition zKWText :: string where
  "zKWText =
    ''REINDEXEDESCAPEACHECKEYBEFOREIGNOREGEXPLAINSTEADDATABASELECT'' @
    ''ABLEFTHENDEFERRABLELSEXCLUDELETEMPORARYISNULLSAVEPOINTERSECT'' @
    ''IESNOTNULLIKEXCEPTRANSACTIONATURALTERAISEXCLUSIVEXISTSCONSTR'' @
    ''AINTOFFSETRIGGERANGENERATEDETACHAVINGLOBEGINNEREFERENCESUNIQ'' @
    ''UERYWITHOUTERELEASEATTACHBETWEENOTHINGROUPSCASCADEFAULTCASEC'' @
    ''OLLATECREATECURRENT_DATEIMMEDIATEJOINSERTMATCHPLANALYZEPRAGM'' @
    ''ATERIALIZEDEFERREDISTINCTUPDATEVALUESVIRTUALWAYSWHENWHERECUR'' @
    ''SIVEABORTAFTERENAMEANDROPARTITIONAUTOINCREMENTCASTCOLUMNCOMM'' @
    ''ITCONFLICTCROSSCURRENT_TIMESTAMPRECEDINGFAILASTFILTEREPLACEF'' @
    ''IRSTFOLLOWINGFROMFULLIMITIFORDERESTRICTOTHERSOVERETURNINGRIG'' @
    ''HTROLLBACKROWSUNBOUNDEDUNIONUSINGVACUUMVIEWINDOWBYINITIALLYP'' @
    ''RIMARY''"

definition aKWHash :: "nat list" where
  "aKWHash =
    [84, 92, 134, 82, 105, 29, 0, 0, 94, 0, 85, 72, 0,
     53, 35, 86, 15, 0, 42, 97, 54, 89, 135, 19, 0, 0,
     140, 0, 40, 129, 0, 22, 107, 0, 9, 0, 0, 123, 80,
     0, 78, 6, 0, 65, 103, 147, 0, 136, 115, 0, 0, 48,
     0, 90, 24, 0, 17, 0, 27, 70, 23, 26, 5, 60, 142,
     110, 122, 0, 73, 91, 71, 145, 61, 120, 74, 0, 49, 0,
     11, 41, 0, 113, 0, 0, 0, 109, 10, 111, 116, 125, 14,
     50, 124, 0, 100, 0, 18, 121, 144, 56, 130, 139, 88, 83,
     37, 30, 126, 0, 0, 108, 51, 131, 128, 0, 34, 0, 0,
     132, 0, 98, 38, 39, 0, 20, 45, 117, 93]"

definition aKWNext :: "nat list" where
  "aKWNext =
    [0, 0, 0, 0, 0, 4, 0, 43, 0, 0, 106, 114, 0,
     0, 0, 2, 0, 0, 143, 0, 0, 0, 13, 0, 0, 0,
     0, 141, 0, 0, 119, 52, 0, 0, 137, 12, 0, 0, 62,
     0, 138, 0, 133, 0, 0, 36, 0, 0, 28, 77, 0, 0,
     0, 0, 59, 0, 47, 0, 0, 0, 0, 0, 0, 0, 0,
     0, 0, 69, 0, 0, 0, 0, 0, 146, 3, 0, 58, 0,
     1, 75, 0, 0, 0, 31, 0, 0, 0, 0, 0, 127, 0,
     104, 0, 64, 66, 63, 0, 0, 0, 0, 0, 46, 0, 16,
     8, 0, 0, 0, 0, 0, 0, 0, 0, 0, 0, 81, 101,
     0, 112, 21, 7, 67, 0, 79, 96, 118, 0, 0, 68, 0,
     0, 99, 44, 0, 55, 0, 76, 0, 95, 32, 33, 57, 25,
     0, 102, 0, 0, 87]"

definition aKWLen :: "nat list" where
  "aKWLen =
    [0, 7, 7, 5, 4, 6, 4, 5, 3, 6, 7, 3, 6,
     6, 7, 7, 3, 8, 2, 6, 5, 4, 4, 3, 10, 4,
     7, 6, 9, 4, 2, 6, 5, 9, 9, 4, 7, 3, 2,
     4, 4, 6, 11, 6, 2, 7, 5, 5, 9, 6, 10, 4,
     6, 2, 3, 7, 5, 9, 6, 6, 4, 5, 5, 10, 6,
     5, 7, 4, 5, 7, 6, 7, 7, 6, 5, 7, 3, 7,
     4, 7, 6, 12, 9, 4, 6, 5, 4, 7, 6, 12, 8,
     8, 2, 6, 6, 7, 6, 4, 5, 9, 5, 5, 6, 3,
     4, 9, 13, 2, 2, 4, 6, 6, 8, 5, 17, 12, 7,
     9, 4, 4, 6, 7, 5, 9, 4, 4, 5, 2, 5, 8,
     6, 4, 9, 5, 8, 4, 3, 9, 5, 5, 6, 4, 6,
     2, 2, 9, 3, 7]"

definition aKWOffset :: "nat list" where
  "aKWOffset =
    [0, 0, 2, 2, 8, 9, 14, 16, 20, 23, 25, 25, 29,
     33, 36, 41, 46, 48, 53, 54, 59, 62, 65, 67, 69, 78,
     81, 86, 90, 90, 94, 99, 101, 105, 111, 119, 123, 123, 123,
     126, 129, 132, 137, 142, 146, 147, 152, 156, 160, 168, 174, 181,
     184, 184, 187, 189, 195, 198, 206, 211, 216, 219, 222, 226, 236,
     239, 244, 244, 248, 252, 259, 265, 271, 277, 277, 283, 284, 288,
     295, 299, 306, 312, 324, 333, 335, 341, 346, 348, 355, 359, 370,
     377, 378, 385, 391, 397, 402, 408, 412, 415, 424, 429, 433, 439,
     441, 444, 453, 455, 457, 466, 470, 476, 482, 490, 495, 495, 495,
     511, 520, 523, 527, 532, 539, 544, 553, 557, 560, 565, 567, 571,
     579, 585, 588, 597, 602, 610, 610, 614, 623, 628, 633, 639, 642,
     645, 648, 650, 655, 659]"

definition aKWCode :: "nat list" where
  "aKWCode =
    [0, TK_REINDEX, TK_INDEXED, TK_INDEX, TK_DESC, TK_ESCAPE,
     TK_EACH, TK_CHECK, TK_KEY, TK_BEFORE, TK_FOREIGN,
     TK_FOR, TK_IGNORE, TK_LIKE_KW, TK_EXPLAIN, TK_INSTEAD,
     TK_ADD, TK_DATABASE, TK_AS, TK_SELECT, TK_TABLE,
     TK_JOIN_KW, TK_THEN, TK_END, TK_DEFERRABLE, TK_ELSE,
     TK_EXCLUDE, TK_DELETE, TK_TEMP, TK_TEMP, TK_OR,
     TK_ISNULL, TK_NULLS, TK_SAVEPOINT, TK_INTERSECT, TK_TIES,
     TK_NOTNULL, TK_NOT, TK_NO, TK_NULL, TK_LIKE_KW,
     TK_EXCEPT, TK_TRANSACTION, TK_ACTION, TK_ON, TK_JOIN_KW,
     TK_ALTER, TK_RAISE, TK_EXCLUSIVE, TK_EXISTS, TK_CONSTRAINT,
     TK_INTO, TK_OFFSET, TK_OF, TK_SET, TK_TRIGGER,
     TK_RANGE, TK_GENERATED, TK_DETACH, TK_HAVING, TK_LIKE_KW,
     TK_BEGIN, TK_JOIN_KW, TK_REFERENCES, TK_UNIQUE, TK_QUERY,
     TK_WITHOUT, TK_WITH, TK_JOIN_KW, TK_RELEASE, TK_ATTACH,
     TK_BETWEEN, TK_NOTHING, TK_GROUPS, TK_GROUP, TK_CASCADE,
     TK_ASC, TK_DEFAULT, TK_CASE, TK_COLLATE, TK_CREATE,
     TK_CTIME_KW, TK_IMMEDIATE, TK_JOIN, TK_INSERT, TK_MATCH,
     TK_PLAN, TK_ANALYZE, TK_PRAGMA, TK_MATERIALIZED, TK_DEFERRED,
     TK_DISTINCT, TK_IS, TK_UPDATE, TK_VALUES, TK_VIRTUAL,
     TK_ALWAYS, TK_WHEN, TK_WHERE, TK_RECURSIVE, TK_ABORT,
     TK_AFTER, TK_RENAME, TK_AND, TK_DROP, TK_PARTITION,
     TK_AUTOINCR, TK_TO, TK_IN, TK_CAST, TK_COLUMNKW,
     TK_COMMIT, TK_CONFLICT, TK_JOIN_KW, TK_CTIME_KW, TK_CTIME_KW,
     TK_CURRENT, TK_PRECEDING, TK_FAIL, TK_LAST, TK_FILTER,
     TK_REPLACE, TK_FIRST, TK_FOLLOWING, TK_FROM, TK_JOIN_KW,
     TK_LIMIT, TK_IF, TK_ORDER, TK_RESTRICT, TK_OTHERS,
     TK_OVER, TK_RETURNING, TK_JOIN_KW, TK_ROLLBACK, TK_ROWS,
     TK_ROW, TK_UNBOUNDED, TK_UNION, TK_USING, TK_VACUUM,
     TK_VIEW, TK_WINDOW, TK_DO, TK_BY, TK_INITIALLY,
     TK_ALL, TK_PRIMARY]"

end
