(* ===== verification/Keywords.thy ===== *)
theory Keywords
  imports Tokens
begin

text \<open>
  The keyword recogniser generated into \<open>keywordhash.h\<close>: a hash of the first and last letter and
  the length selects a chain of candidates whose texts overlap in one character array.  The search
  loop runs on fuel; \<open>None\<close> would be a chain of more than 148 links, which no hash value has
  (\<open>chain_ends\<close>).
\<close>

section \<open>The recogniser\<close>

text \<open>\<open>c & ~0x20\<close>, which maps lower-case letters to upper case.\<close>

definition clear20 :: "char \<Rightarrow> nat" where "clear20 c = nat (int (code c) AND NOT 0x20)"

definition charMap :: "char \<Rightarrow> nat" where "charMap c = sqlite3UpperToLower ! code c"

definition kw_hash :: "string \<Rightarrow> nat \<Rightarrow> nat" where
  "kw_hash z n = (((charMap (zat z 0) * 4) XOR (charMap (zat z (n - 1)) * 3)) XOR n) mod 127"

definition kw_match :: "string \<Rightarrow> nat \<Rightarrow> nat \<Rightarrow> bool" where
  "kw_match z n off =
    (clear20 (zat z 0) = code (zKWText ! off) \<and> clear20 (zat z 1) = code (zKWText ! (off + 1)) \<and>
     list_all (\<lambda>j. clear20 (zat z j) = code (zKWText ! (off + j))) [2..<n])"

text \<open>The loop over the chain: the index of the keyword, or 0 at its end.\<close>

fun kw_loop :: "nat \<Rightarrow> string \<Rightarrow> nat \<Rightarrow> nat \<Rightarrow> nat option" where
  "kw_loop 0 z n i = (if i = 0 then Some 0 else None)"
| "kw_loop (Suc f) z n i =
    (if i = 0 then Some 0
     else if aKWLen ! i = n \<and> kw_match z n (aKWOffset ! i) then Some i
     else kw_loop f z n (aKWNext ! i))"

text \<open>The new value of \<open>*pType\<close>.\<close>

definition keywordCode :: "string \<Rightarrow> nat \<Rightarrow> nat \<Rightarrow> nat" where
  "keywordCode z n pType =
    (case kw_loop 148 z n (aKWHash ! kw_hash z n) of
       None \<Rightarrow> pType
     | Some i \<Rightarrow> if i = 0 then pType else aKWCode ! i)"

definition sqlite3KeywordCode :: "string \<Rightarrow> nat \<Rightarrow> nat" where
  "sqlite3KeywordCode z n = (if n \<ge> 2 then keywordCode z n TK_ID else TK_ID)"

definition SQLITE_N_KEYWORD :: nat where "SQLITE_N_KEYWORD = 147"

text \<open>The name of the \<open>i\<close>-th keyword, \<open>None\<close> for \<open>SQLITE_ERROR\<close>.\<close>

definition sqlite3_keyword_name :: "int \<Rightarrow> string option" where
  "sqlite3_keyword_name i =
    (if i < 0 \<or> i \<ge> int SQLITE_N_KEYWORD then None
     else let k = nat i + 1 in Some (take (aKWLen ! k) (drop (aKWOffset ! k) zKWText)))"

definition sqlite3_keyword_count :: nat where "sqlite3_keyword_count = SQLITE_N_KEYWORD"

definition sqlite3_keyword_check :: "string \<Rightarrow> nat \<Rightarrow> bool" where
  "sqlite3_keyword_check zName nName = (TK_ID \<noteq> sqlite3KeywordCode zName nName)"

section \<open>The keyword list and the decoded hash table\<close>

text \<open>The keywords and their token codes, in the order of the tables.\<close>

definition keyword_list :: "(string \<times> nat) list" where
  "keyword_list =
    [(''REINDEX'', TK_REINDEX), (''INDEXED'', TK_INDEXED), (''INDEX'', TK_INDEX), (''DESC'', TK_DESC),
     (''ESCAPE'', TK_ESCAPE), (''EACH'', TK_EACH), (''CHECK'', TK_CHECK), (''KEY'', TK_KEY),
     (''BEFORE'', TK_BEFORE), (''FOREIGN'', TK_FOREIGN), (''FOR'', TK_FOR), (''IGNORE'', TK_IGNORE),
     (''REGEXP'', TK_LIKE_KW), (''EXPLAIN'', TK_EXPLAIN), (''INSTEAD'', TK_INSTEAD), (''ADD'', TK_ADD),
     (''DATABASE'', TK_DATABASE), (''AS'', TK_AS), (''SELECT'', TK_SELECT), (''TABLE'', TK_TABLE),
     (''LEFT'', TK_JOIN_KW), (''THEN'', TK_THEN), (''END'', TK_END), (''DEFERRABLE'', TK_DEFERRABLE),
     (''ELSE'', TK_ELSE), (''EXCLUDE'', TK_EXCLUDE), (''DELETE'', TK_DELETE), (''TEMPORARY'', TK_TEMP),
     (''TEMP'', TK_TEMP), (''OR'', TK_OR), (''ISNULL'', TK_ISNULL), (''NULLS'', TK_NULLS),
     (''SAVEPOINT'', TK_SAVEPOINT), (''INTERSECT'', TK_INTERSECT), (''TIES'', TK_TIES), (''NOTNULL'', TK_NOTNULL),
     (''NOT'', TK_NOT), (''NO'', TK_NO), (''NULL'', TK_NULL), (''LIKE'', TK_LIKE_KW),
     (''EXCEPT'', TK_EXCEPT), (''TRANSACTION'', TK_TRANSACTION), (''ACTION'', TK_ACTION), (''ON'', TK_ON),
     (''NATURAL'', TK_JOIN_KW), (''ALTER'', TK_ALTER), (''RAISE'', TK_RAISE), (''EXCLUSIVE'', TK_EXCLUSIVE),
     (''EXISTS'', TK_EXISTS), (''CONSTRAINT'', TK_CONSTRAINT), (''INTO'', TK_INTO), (''OFFSET'', TK_OFFSET),
     (''OF'', TK_OF), (''SET'', TK_SET), (''TRIGGER'', TK_TRIGGER), (''RANGE'', TK_RANGE),
     (''GENERATED'', TK_GENERATED), (''DETACH'', TK_DETACH), (''HAVING'', TK_HAVING), (''GLOB'', TK_LIKE_KW),
     (''BEGIN'', TK_BEGIN), (''INNER'', TK_JOIN_KW), (''REFERENCES'', TK_REFERENCES), (''UNIQUE'', TK_UNIQUE),
     (''QUERY'', TK_QUERY), (''WITHOUT'', TK_WITHOUT), (''WITH'', TK_WITH), (''OUTER'', TK_JOIN_KW),
     (''RELEASE'', TK_RELEASE), (''ATTACH'', TK_ATTACH), (''BETWEEN'', TK_BETWEEN), (''NOTHING'', TK_NOTHING),
     (''GROUPS'', TK_GROUPS), (''GROUP'', TK_GROUP), (''CASCADE'', TK_CASCADE), (''ASC'', TK_ASC),
     (''DEFAULT'', TK_DEFAULT), (''CASE'', TK_CASE), (''COLLATE'', TK_COLLATE), (''CREATE'', TK_CREATE),
     (''CURRENT_DATE'', TK_CTIME_KW), (''IMMEDIATE'', TK_IMMEDIATE), (''JOIN'', TK_JOIN), (''INSERT'', TK_INSERT),
     (''MATCH'', TK_MATCH), (''PLAN'', TK_PLAN), (''ANALYZE'', TK_ANALYZE), (''PRAGMA'', TK_PRAGMA),
     (''MATERIALIZED'', TK_MATERIALIZED), (''DEFERRED'', TK_DEFERRED), (''DISTINCT'', TK_DISTINCT), (''IS'', TK_IS),
     (''UPDATE'', TK_UPDATE), (''VALUES'', TK_VALUES), (''VIRTUAL'', TK_VIRTUAL), (''ALWAYS'', TK_ALWAYS),
     (''WHEN'', TK_WHEN), (''WHERE'', TK_WHERE), (''RECURSIVE'', TK_RECURSIVE), (''ABORT'', TK_ABORT),
     (''AFTER'', TK_AFTER), (''RENAME'', TK_RENAME), (''AND'', TK_AND), (''DROP'', TK_DROP),
     (''PARTITION'', TK_PARTITION), (''AUTOINCREMENT'', TK_AUTOINCR), (''TO'', TK_TO), (''IN'', TK_IN),
     (''CAST'', TK_CAST), (''COLUMN'', TK_COLUMNKW), (''COMMIT'', TK_COMMIT), (''CONFLICT'', TK_CONFLICT),
     (''CROSS'', TK_JOIN_KW), (''CURRENT_TIMESTAMP'', TK_CTIME_KW), (''CURRENT_TIME'', TK_CTIME_KW), (''CURRENT'', TK_CURRENT),
     (''PRECEDING'', TK_PRECEDING), (''FAIL'', TK_FAIL), (''LAST'', TK_LAST), (''FILTER'', TK_FILTER),
     (''REPLACE'', TK_REPLACE), (''FIRST'', TK_FIRST), (''FOLLOWING'', TK_FOLLOWING), (''FROM'', TK_FROM),
     (''FULL'', TK_JOIN_KW), (''LIMIT'', TK_LIMIT), (''IF'', TK_IF), (''ORDER'', TK_ORDER),
     (''RESTRICT'', TK_RESTRICT), (''OTHERS'', TK_OTHERS), (''OVER'', TK_OVER), (''RETURNING'', TK_RETURNING),
     (''RIGHT'', TK_JOIN_KW), (''ROLLBACK'', TK_ROLLBACK), (''ROWS'', TK_ROWS), (''ROW'', TK_ROW),
     (''UNBOUNDED'', TK_UNBOUNDED), (''UNION'', TK_UNION), (''USING'', TK_USING), (''VACUUM'', TK_VACUUM),
     (''VIEW'', TK_VIEW), (''WINDOW'', TK_WINDOW), (''DO'', TK_DO), (''BY'', TK_BY),
     (''INITIALLY'', TK_INITIALLY), (''ALL'', TK_ALL), (''PRIMARY'', TK_PRIMARY)]"

text \<open>The chain of every hash value.\<close>

definition chains :: "nat list list" where
  "chains =
    [[84], [92], [134, 55], [82], [105], [29], [], [],
     [94, 66], [], [85], [72], [], [53], [35, 12], [86],
     [15, 2], [], [42, 133], [97], [54, 59], [89, 127], [135], [19],
     [], [], [140, 33], [], [40, 138, 95, 63], [129], [], [22, 13],
     [107], [], [9], [], [], [123, 79, 75], [80], [],
     [78, 1], [6], [], [65], [103, 16], [147, 87], [], [136, 76, 58],
     [115, 81], [], [], [48, 28], [], [90], [24], [],
     [17], [], [27, 141, 57], [70], [23], [26], [5, 4], [60],
     [142, 25], [110], [122], [], [73, 146], [91, 104, 8], [71], [145],
     [61], [120, 7, 43], [74, 3], [], [49, 77], [], [11, 114], [41],
     [], [113], [], [], [], [109], [10, 106], [111],
     [116, 101, 46], [125, 118, 112], [14], [50], [124, 96], [], [100], [],
     [18, 143], [121, 67, 69], [144, 102], [56, 47], [130], [139, 32], [88], [83, 31, 52],
     [37], [30, 119, 21], [126], [], [], [108], [51], [131, 99],
     [128, 68], [], [34, 137], [], [], [132, 44], [], [98],
     [38, 62], [39], [], [20], [45, 36], [117], [93, 64]]"

lemma length_tables: "length aKWHash = 127" "length aKWNext = 148" "length aKWLen = 148" "length aKWOffset = 148"
  "length aKWCode = 148" "length keyword_list = 147" "length chains = 127"
  by (simp_all add: aKWHash_def aKWNext_def aKWLen_def aKWOffset_def aKWCode_def keyword_list_def chains_def)

lemma length_zKWText: "length zKWText = 666"
  by (simp add: zKWText_def)

text \<open>Following the links from a keyword.\<close>

fun chain :: "nat \<Rightarrow> nat \<Rightarrow> nat list" where
  "chain 0 i = []"
| "chain (Suc f) i = (if i = 0 then [] else i # chain f (aKWNext ! i))"

lemma chain_numeral: "chain (numeral v) i = (if i = 0 then [] else i # chain (pred_numeral v) (aKWNext ! i))"
  by (simp add: numeral_eq_Suc)

lemma chain_table: "map (chain 148) aKWHash = chains"
  unfolding aKWHash_def chains_def
  by (simp add: chain_numeral aKWNext_def)

lemma kw_codes: "map snd keyword_list = tl aKWCode"
  by (simp add: keyword_list_def aKWCode_def)

lemma kw_lens: "map (length \<circ> fst) keyword_list = tl aKWLen"
  by (simp add: keyword_list_def aKWLen_def)

text \<open>The offsets increase, so that the slices can be cut in one pass.\<close>

fun slices :: "nat \<Rightarrow> 'a list \<Rightarrow> (nat \<times> nat) list \<Rightarrow> 'a list list"
  and cut :: "nat \<Rightarrow> nat \<Rightarrow> 'a list \<Rightarrow> (nat \<times> nat) list \<Rightarrow> 'a list list" where
  "slices pos z [] = []"
| "slices pos z ((l, off) # r) = cut l off (drop (off - pos) z) r"
| "cut l off z r = take l z # slices off z r"

lemma slices_eq:
  "sorted (pos # map snd lo) \<Longrightarrow> slices pos (drop pos z) lo = map (\<lambda>(l, off). take l (drop off z)) lo"
proof (induction lo arbitrary: pos)
  case (Cons x lo)
  then show ?case by (cases x) simp
qed simp

fun increasing :: "nat list \<Rightarrow> bool" where
  "increasing (x # y # r) = (x \<le> y \<and> increasing (y # r))"
| "increasing r = True"

lemma increasing_sorted: "increasing xs = sorted xs"
  by (induction xs rule: increasing.induct) (auto simp: sorted2 intro: order_trans)

lemma kw_texts: "map (\<lambda>(l, off). take l (drop off zKWText)) (zip aKWLen aKWOffset) = [] # map fst keyword_list"
proof -
  have "sorted (0 # aKWOffset)" unfolding aKWOffset_def increasing_sorted [symmetric] by simp
  moreover have "map snd (zip aKWLen aKWOffset) = aKWOffset" by (simp add: length_tables map_snd_zip)
  ultimately have "map (\<lambda>(l, off). take l (drop off zKWText)) (zip aKWLen aKWOffset) = slices 0 zKWText (zip aKWLen aKWOffset)"
    using slices_eq [of 0 "zip aKWLen aKWOffset" zKWText] by simp
  moreover have "list_all2 (=) (slices 0 zKWText (zip aKWLen aKWOffset)) ([] # map fst keyword_list)"
    unfolding aKWLen_def aKWOffset_def keyword_list_def zKWText_def by simp
  ultimately show ?thesis unfolding list.rel_eq by simp
qed

lemma charMap_num: "charMap c = (if 65 \<le> code c \<and> code c \<le> 90 then code c + 32 else code c)"
proof -
  have "code (lower c) = (if 65 \<le> code c \<and> code c \<le> 90 then code c + 32 else code c)" by (simp add: lower_def)
  then show ?thesis unfolding charMap_def tolower_code .
qed

lemma kw_hash_eval: "kw_hash (c # z) (length (c # z)) = (((charMap c * 4) XOR (charMap (last (c # z)) * 3)) XOR length (c # z)) mod 127"
  by (simp add: kw_hash_def zat_def last_conv_nth)

text \<open>The hash values of the keywords, and that each keyword is on the chain of its hash value.\<close>

lemma kw_hashes: "map (\<lambda>k. kw_hash k (length k)) (map fst keyword_list) =
    [40, 16, 74, 62, 62, 41, 73, 69, 34, 86, 78, 14, 31, 90, 16, 44, 56, 96, 23, 123,
     105, 31, 60, 54, 64, 61, 58, 51, 5, 105, 103, 101, 26, 114, 14, 124, 104, 120, 121, 28,
     79, 18, 73, 117, 124, 88, 99, 51, 76, 91, 110, 103, 13, 20, 2, 99, 58, 47, 20, 63,
     72, 120, 28, 126, 43, 8, 97, 112, 97, 59, 70, 11, 68, 74, 37, 47, 76, 40, 37, 38,
     48, 3, 103, 0, 10, 15, 45, 102, 21, 53, 69, 1, 126, 8, 28, 92, 19, 119, 111, 94,
     88, 98, 44, 69, 4, 86, 32, 109, 85, 65, 87, 89, 81, 78, 48, 88, 125, 89, 105, 73,
     97, 66, 37, 92, 89, 106, 21, 112, 29, 100, 111, 117, 18, 2, 22, 47, 114, 28, 101, 26,
     58, 64, 96, 98, 71, 68, 45]"
  unfolding keyword_list_def list.map fst_conv kw_hash_eval charMap_num by (simp add: numeral_2_eq_2 [symmetric])

lemma kw_on_chain: "list_all (\<lambda>(h, i). i \<in> set (chains ! h)) (zip (map (\<lambda>k. kw_hash k (length k)) (map fst keyword_list)) [1..<148])"
  unfolding kw_hashes by (simp add: upt_rec chains_def)

section \<open>Every keyword and nothing else\<close>

lemma kw_entry:
  assumes "1 \<le> i" "i < 148"
  shows "aKWLen ! i = length (fst (keyword_list ! (i - 1)))" "aKWCode ! i = snd (keyword_list ! (i - 1))"
    "take (aKWLen ! i) (drop (aKWOffset ! i) zKWText) = fst (keyword_list ! (i - 1))"
proof -
  have tl: "xs ! i = tl xs ! (i - 1)" if "length xs = 148" for xs :: "nat list"
    using assms that by (cases xs) auto
  have j: "i - 1 < length keyword_list" using assms by (simp add: length_tables)
  show "aKWLen ! i = length (fst (keyword_list ! (i - 1)))"
    unfolding tl [OF length_tables(3)] kw_lens [symmetric] using j by simp
  show "aKWCode ! i = snd (keyword_list ! (i - 1))"
    unfolding tl [OF length_tables(5)] kw_codes [symmetric] using j by simp
  have "map (\<lambda>(l, off). take l (drop off zKWText)) (zip aKWLen aKWOffset) ! i = ([] # map fst keyword_list) ! i"
    by (simp only: kw_texts)
  then show "take (aKWLen ! i) (drop (aKWOffset ! i) zKWText) = fst (keyword_list ! (i - 1))"
    using assms j by (simp add: length_tables nth_Cons')
qed

lemma kw_lengths: "list_all (\<lambda>k. 2 \<le> length (fst k)) keyword_list"
  by (simp add: keyword_list_def)

text \<open>A candidate is accepted exactly when the cleared characters are its text.\<close>

lemma kw_match_text:
  assumes "1 \<le> i" "i < 148" "aKWLen ! i = n" "length z = n"
  shows "kw_match z n (aKWOffset ! i) \<longleftrightarrow> map clear20 z = map code (fst (keyword_list ! (i - 1)))"
proof -
  let ?t = "fst (keyword_list ! (i - 1))" and ?o = "aKWOffset ! i"
  have t: "take n (drop ?o zKWText) = ?t" "length ?t = n" using kw_entry [OF assms(1,2)] assms(3) by auto
  have n: "2 \<le> n" using kw_lengths t(2) assms(1,2) by (auto simp: list_all_length length_tables)
  have at: "zKWText ! (?o + j) = ?t ! j" if "j < n" for j
  proof -
    have "?t ! j = drop ?o zKWText ! j" using that unfolding t(1) [symmetric] by simp
    moreover have "?o + j < length zKWText" using that t by (metis length_drop length_take less_diff_conv2 min.strict_boundedE not_less_iff_gr_or_eq add.commute less_diff_conv)
    ultimately show ?thesis by simp
  qed
  have "kw_match z n ?o \<longleftrightarrow> (\<forall>j < n. clear20 (z ! j) = code (?t ! j))"
  proof
    assume m: "kw_match z n ?o"
    show "\<forall>j < n. clear20 (z ! j) = code (?t ! j)"
    proof (intro allI impI)
      fix j assume "j < n"
      then consider "j = 0" | "j = 1" | "2 \<le> j" "j < n" by linarith
      then show "clear20 (z ! j) = code (?t ! j)"
        using m at [of j] n assms(4) by cases (auto simp: kw_match_def zat_def list_all_iff)
    qed
  next
    assume "\<forall>j < n. clear20 (z ! j) = code (?t ! j)"
    then show "kw_match z n ?o" using at [of 0] at [of 1] at n assms(4)
      by (auto simp: kw_match_def zat_def list_all_iff)
  qed
  also have "\<dots> \<longleftrightarrow> map clear20 z = map code ?t"
    using t(2) assms(4) by (auto simp: list_eq_iff_nth_eq)
  finally show ?thesis .
qed

lemma clear20_code: "clear20 c = (if odd (code c div 32) then code c - 32 else code c)"
proof -
  have "map (\<lambda>n. nat (int n AND NOT 0x20)) [0..<256] = map (\<lambda>n. if odd (n div 32) then n - 32 else n) [0..<256]"
    by (simp add: upt_rec)
  then have "(\<lambda>n. nat (int n AND NOT 0x20)) (code c) = (if odd (code c div 32) then code c - 32 else code c)"
    by (rule map_eq_conv [THEN iffD1, THEN bspec]) (simp del: upt_rec_numeral)
  then show ?thesis by (simp only: clear20_def)
qed

text \<open>For a letter \<open>m\<close>, \<open>c\<close> is the letter in either case.\<close>

lemma clear20_letter: "clear20 c = m \<Longrightarrow> 65 \<le> m \<Longrightarrow> m \<le> 90 \<Longrightarrow> charMap c = m + 32"
  unfolding clear20_code charMap_num by (auto split: if_splits)

lemma keyword_ends: "list_all (\<lambda>(t, _). 65 \<le> code (hd t) \<and> code (hd t) \<le> 90 \<and> 65 \<le> code (last t) \<and> code (last t) \<le> 90) keyword_list"
  by (simp add: keyword_list_def)

lemma hash_of_text:
  assumes "(t, k) \<in> set keyword_list" "map clear20 z = map code t"
  shows "kw_hash z (length z) = kw_hash t (length t)"
proof -
  have e: "65 \<le> code (hd t)" "code (hd t) \<le> 90" "65 \<le> code (last t)" "code (last t) \<le> 90"
    using keyword_ends assms(1) by (auto simp: list_all_iff)
  have ne: "t \<noteq> []" using kw_lengths assms(1) by (auto simp: list_all_iff)
  have len: "length z = length t" using assms(2) by (metis length_map)
  with ne have nz: "z \<noteq> []" by auto
  have "clear20 (hd z) = code (hd t)" "clear20 (last z) = code (last t)"
    using assms(2) ne nz by (metis hd_map, metis last_map)
  then have "charMap (hd z) = code (hd t) + 32" "charMap (last z) = code (last t) + 32"
    using clear20_letter e by blast+
  moreover have "charMap (hd t) = code (hd t) + 32" "charMap (last t) = code (last t) + 32"
    using e by (simp_all add: charMap_num)
  moreover have "zat z 0 = hd z" "zat z (length z - 1) = last z" "zat t 0 = hd t" "zat t (length t - 1) = last t"
    using ne nz by (simp_all add: zat_def hd_conv_nth last_conv_nth)
  ultimately show ?thesis unfolding kw_hash_def using len by simp
qed

lemma kw_loop_chain:
  "length (chain f i) < f \<Longrightarrow>
   kw_loop f z n i = Some (case find (\<lambda>i. aKWLen ! i = n \<and> kw_match z n (aKWOffset ! i)) (chain f i) of None \<Rightarrow> 0 | Some i \<Rightarrow> i)"
  by (induction f arbitrary: i) auto

lemma chains_small: "list_all (\<lambda>c. length c < 148 \<and> list_all (\<lambda>i. 1 \<le> i \<and> i < 148) c) chains"
  by (simp add: chains_def)

lemma kw_hash_less: "kw_hash z n < 127" by (simp add: kw_hash_def)

lemma chain_ends:
  "kw_loop 148 z n (aKWHash ! kw_hash z n) =
   Some (case find (\<lambda>i. aKWLen ! i = n \<and> kw_match z n (aKWOffset ! i)) (chains ! kw_hash z n) of None \<Rightarrow> 0 | Some i \<Rightarrow> i)"
proof -
  have "map (chain 148) aKWHash ! kw_hash z n = chains ! kw_hash z n" by (simp only: chain_table)
  then have c: "chain 148 (aKWHash ! kw_hash z n) = chains ! kw_hash z n" using kw_hash_less by (simp add: length_tables)
  have "length (chains ! kw_hash z n) < 148" using chains_small kw_hash_less [of z n] by (simp add: list_all_length length_tables)
  then show ?thesis using kw_loop_chain [of 148 "aKWHash ! kw_hash z n" z n] unfolding c by blast
qed

lemma keyword_distinct: "distinct (map fst keyword_list)"
  by (simp add: keyword_list_def)

lemma inj_code_map: "map code a = map code b \<longleftrightarrow> a = b"
  by (rule inj_map_eq_map) (rule inj_onI, simp)

lemma lookup_text:
  assumes "(t, k) \<in> set keyword_list"
  shows "map_of (map (\<lambda>(t, k). (map code t, k)) keyword_list) (map code t) = Some k"
proof (rule map_of_is_SomeI)
  have "distinct (map (map code) (map fst keyword_list))"
    using keyword_distinct by (simp add: distinct_map inj_on_def inj_code_map)
  then show "distinct (map fst (map (\<lambda>(t, k). (map code t, k)) keyword_list))"
    by (simp add: comp_def split_beta)
  show "(map code t, k) \<in> set (map (\<lambda>(t, k). (map code t, k)) keyword_list)" using assms by force
qed

lemma lookup_none:
  "map_of (map (\<lambda>(t, k). (map code t, k)) keyword_list) (map clear20 z) = None \<longleftrightarrow>
   (\<forall>(t, k) \<in> set keyword_list. map clear20 z \<noteq> map code t)"
  by (force simp: map_of_eq_None_iff)

lemma zat_take: "n \<le> length z \<Longrightarrow> j < n \<Longrightarrow> zat (take n z) j = zat z j"
  by (simp add: zat_def)

lemma keywordCode_take:
  assumes "2 \<le> n" "n \<le> length z"
  shows "keywordCode z n t = keywordCode (take n z) n t"
proof -
  have h: "kw_hash z n = kw_hash (take n z) n" using assms by (simp add: kw_hash_def zat_take)
  have m: "kw_match z n off = kw_match (take n z) n off" for off
    using assms by (auto simp: kw_match_def zat_take list_all_iff)
  have "kw_loop 148 z n (aKWHash ! kw_hash z n) = kw_loop 148 (take n z) n (aKWHash ! kw_hash (take n z) n)"
    unfolding chain_ends unfolding h m ..
  then show ?thesis by (simp only: keywordCode_def)
qed

lemma keywordCode_full:
  assumes "2 \<le> length z"
  shows "keywordCode z (length z) t =
    (case map_of (map (\<lambda>(t, k). (map code t, k)) keyword_list) (map clear20 z) of None \<Rightarrow> t | Some k \<Rightarrow> k)"
proof -
  let ?c = "chains ! kw_hash z (length z)"
  let ?P = "\<lambda>i. aKWLen ! i = length z \<and> kw_match z (length z) (aKWOffset ! i)"
  have range: "\<forall>i \<in> set ?c. 1 \<le> i \<and> i < 148"
    using chains_small nth_mem [of "kw_hash z (length z)" chains] kw_hash_less [of z "length z"]
    by (auto simp: list_all_iff length_tables)
  have entry: "(fst (keyword_list ! (i - 1)), snd (keyword_list ! (i - 1))) \<in> set keyword_list" if "1 \<le> i" "i < 148" for i
    using that by (simp add: length_tables)
  have P: "?P i \<longleftrightarrow> map clear20 z = map code (fst (keyword_list ! (i - 1)))" if "1 \<le> i" "i < 148" for i
  proof
    assume "?P i" then show "map clear20 z = map code (fst (keyword_list ! (i - 1)))" using kw_match_text [OF that _ refl] by blast
  next
    assume e: "map clear20 z = map code (fst (keyword_list ! (i - 1)))"
    then have "aKWLen ! i = length z" using kw_entry(1) [OF that] by (metis length_map)
    then show "?P i" using kw_match_text [OF that _ refl] e by blast
  qed
  show ?thesis
  proof (cases "find ?P ?c")
    case None
    have "map clear20 z \<noteq> map code t" if tk: "(t, k) \<in> set keyword_list" for t k
    proof
      assume e: "map clear20 z = map code t"
      obtain j where j: "j < 147" "keyword_list ! j = (t, k)" using tk by (auto simp: in_set_conv_nth length_tables)
      have "(kw_hash t (length t), Suc j) \<in> set (zip (map (\<lambda>k. kw_hash k (length k)) (map fst keyword_list)) [1..<148])"
        using j by (auto simp: set_zip length_tables intro!: exI [of _ j])
      then have "Suc j \<in> set (chains ! kw_hash t (length t))" using kw_on_chain by (auto simp: list_all_iff)
      then have "Suc j \<in> set ?c" using hash_of_text [OF tk e] by simp
      moreover have "?P (Suc j)" using P [of "Suc j"] j e by simp
      ultimately show False using None unfolding find_None_iff by blast
    qed
    then have "map_of (map (\<lambda>(t, k). (map code t, k)) keyword_list) (map clear20 z) = None"
      unfolding lookup_none by blast
    then show ?thesis using None by (simp add: keywordCode_def chain_ends)
  next
    case (Some i)
    then have i: "i \<in> set ?c" "?P i" by (auto simp: find_Some_iff)
    then have r: "1 \<le> i" "i < 148" using range by auto
    have "map_of (map (\<lambda>(t, k). (map code t, k)) keyword_list) (map clear20 z) = Some (snd (keyword_list ! (i - 1)))"
      using lookup_text [OF entry [OF r]] P [OF r] i(2) by simp
    then show ?thesis using Some r kw_entry(2) [OF r] by (simp add: keywordCode_def chain_ends)
  qed
qed

section \<open>Properties\<close>

text \<open>
  C10.  The generated hash recognises exactly the keywords: for a text of at least two characters the
  search ends, and it stores the token code of the keyword that the text spells when the case bit of
  every character is cleared, or leaves \<open>*pType\<close> alone when there is none.
\<close>

theorem keyword_recognised:
  assumes "2 \<le> n" "n \<le> length z"
  shows "kw_loop 148 z n (aKWHash ! kw_hash z n) \<noteq> None \<and>
    keywordCode z n t =
      (case map_of (map (\<lambda>(t, k). (map code t, k)) keyword_list) (map clear20 (take n z)) of None \<Rightarrow> t | Some k \<Rightarrow> k)"
  using keywordCode_full [of "take n z" t] keywordCode_take [OF assms] assms by (simp add: chain_ends)

theorem keyword_recognised_witness:
  "keywordCode ''Select *'' 6 TK_ID = TK_SELECT \<and> keywordCode ''selects'' 7 TK_ID = TK_ID"
proof -
  have "map clear20 (take 6 ''Select *'') = map code ''SELECT''" "map clear20 (take 7 ''selects'') = map code ''SELECTS''"
    by (simp_all add: clear20_code)
  moreover have "(''SELECT'', TK_SELECT) \<in> set keyword_list" by (simp add: keyword_list_def)
  from lookup_text [OF this] have "map_of (map (\<lambda>(t, k). (map code t, k)) keyword_list) (map code ''SELECT'') = Some TK_SELECT" .
  moreover have "''SELECTS'' \<notin> set (map fst keyword_list)" by (simp add: keyword_list_def)
  then have "map_of (map (\<lambda>(t, k). (map code t, k)) keyword_list) (map code ''SELECTS'') = None"
    unfolding map_of_eq_None_iff by (force simp: inj_code_map simp del: list.map)
  ultimately show ?thesis
    using keyword_recognised [of 6 "''Select *''" TK_ID] keyword_recognised [of 7 "''selects''" TK_ID] by simp
qed

text \<open>
  The case bit is also cleared in characters that are no letters: \<open>DEL\<close> counts as an underscore.
\<close>

lemma keyword_with_delete: "sqlite3_keyword_check (''CURRENT'' @ [CHR 0x7F] @ ''DATE'') 12"
proof -
  let ?z = "''CURRENT'' @ [CHR 0x7F] @ ''DATE''"
  have "map clear20 ?z = map code ''CURRENT_DATE''" by (simp add: clear20_code)
  moreover have "(''CURRENT_DATE'', TK_CTIME_KW) \<in> set keyword_list" by (simp add: keyword_list_def)
  from lookup_text [OF this]
  have "map_of (map (\<lambda>(t, k). (map code t, k)) keyword_list) (map code ''CURRENT_DATE'') = Some TK_CTIME_KW" .
  moreover have "length ?z = 12" by simp
  ultimately have "keywordCode ?z 12 TK_ID = TK_CTIME_KW"
    using keywordCode_full [of ?z TK_ID] by (simp only: option.case)
  then show ?thesis by (simp add: sqlite3_keyword_check_def sqlite3KeywordCode_def TK_ID_def TK_CTIME_KW_def)
qed

end
