(* ===== verification/Tokenize.thy ===== *)
theory Tokenize
  imports Keywords
begin

text \<open>
  The SQL tokenizer (\<open>tokenize.c\<close>): \<open>sqlite3GetToken\<close> returns the length of the token at the start
  of a zero-terminated text and stores its type.  Each case of its switch on the character class is
  a function here, each loop a recursion on the index that the loop variable \<open>i\<close> runs through.
\<close>

section \<open>Loops\<close>

text \<open>\<open>for(; P(z[i]); i++)\<close> for a condition that the terminator does not satisfy.\<close>

function scan :: "(char \<Rightarrow> bool) \<Rightarrow> string \<Rightarrow> nat \<Rightarrow> nat" where
  "scan P z i = (if i < length z \<and> P (zat z i) then scan P z (i + 1) else i)"
  by auto
termination by (relation "measure (\<lambda>(P, z, i). length z - i)") auto

lemma zat_nonzero: "zat z i \<noteq> CHR 0x00 \<Longrightarrow> i < length z"
  by (simp add: zat_def split: if_splits)

text \<open>The loop over a C comment: the index and the last \<open>c\<close>.\<close>

function slash_loop :: "string \<Rightarrow> nat \<Rightarrow> char \<Rightarrow> nat \<times> char" where
  "slash_loop z i c =
    (if c \<noteq> CHR ''*'' \<or> zat z i \<noteq> CHR ''/''
     then if zat z i \<noteq> CHR 0x00 then slash_loop z (i + 1) (zat z i) else (i, zat z i)
     else (i, c))"
  by auto
termination by (relation "measure (\<lambda>(z, i, c). length z - i)") (auto dest: zat_nonzero)

text \<open>The loop over a quoted string: the index of the closing delimiter, or of the terminator.\<close>

function quote_loop :: "char \<Rightarrow> string \<Rightarrow> nat \<Rightarrow> nat \<times> char" where
  "quote_loop delim z i =
    (if zat z i = CHR 0x00 then (i, zat z i)
     else if zat z i = delim \<and> zat z (i + 1) \<noteq> delim then (i, zat z i)
     else quote_loop delim z (if zat z i = delim then i + 2 else i + 1))"
  by auto
termination by (relation "measure (\<lambda>(d, z, i). length z - i)") (auto dest: zat_nonzero)

definition SQLITE_DIGIT_SEPARATOR :: char where "SQLITE_DIGIT_SEPARATOR = CHR ''_''"

text \<open>Digits with separators: the index and the token type.\<close>

function digit_loop :: "(char \<Rightarrow> bool) \<Rightarrow> string \<Rightarrow> nat \<Rightarrow> nat \<Rightarrow> nat \<times> nat" where
  "digit_loop P z i t =
    (if i < length z \<and> P (zat z i) then digit_loop P z (i + 1) t
     else if i < length z \<and> zat z i = SQLITE_DIGIT_SEPARATOR then digit_loop P z (i + 1) TK_QNUMBER
     else (i, t))"
  by auto
termination by (relation "measure (\<lambda>(P, z, i, t). length z - i)") auto

text \<open>Identifier characters behind a number make it illegal.\<close>

function illegal_loop :: "string \<Rightarrow> nat \<Rightarrow> nat \<Rightarrow> nat \<times> nat" where
  "illegal_loop z i t = (if i < length z \<and> IdChar (zat z i) then illegal_loop z (i + 1) TK_ILLEGAL else (i, t))"
  by auto
termination by (relation "measure (\<lambda>(z, i, t). length z - i)") auto

function bracket_loop :: "string \<Rightarrow> nat \<Rightarrow> char \<Rightarrow> nat \<times> char" where
  "bracket_loop z i c =
    (if c \<noteq> CHR '']'' then if zat z i \<noteq> CHR 0x00 then bracket_loop z (i + 1) (zat z i) else (i, zat z i)
     else (i, c))"
  by auto
termination by (relation "measure (\<lambda>(z, i, c). length z - i)") (auto dest: zat_nonzero)

text \<open>The loop over a variable: the index, the number of identifier characters and the token type.\<close>

function var_loop :: "string \<Rightarrow> nat \<Rightarrow> nat \<Rightarrow> nat \<times> nat \<times> nat" where
  "var_loop z i n =
    (let c = zat z i
     in if c = CHR 0x00 then (i, n, TK_VARIABLE)
        else if IdChar c then var_loop z (i + 1) (n + 1)
        else if c = CHR ''('' \<and> n > 0 then
          let i' = scan (\<lambda>c. c \<noteq> CHR 0x00 \<and> \<not> sqlite3Isspace c \<and> c \<noteq> CHR '')'') z (i + 1)
          in if zat z i' = CHR '')'' then (i' + 1, n, TK_VARIABLE) else (i', n, TK_ILLEGAL)
        else if c = CHR '':'' \<and> zat z (i + 1) = CHR '':'' then var_loop z (i + 2) n
        else (i, n, TK_VARIABLE))"
  by auto
termination by (relation "measure (\<lambda>(z, i, n). length z - i)") (auto dest: zat_nonzero)

declare scan.simps [simp del] slash_loop.simps [simp del] quote_loop.simps [simp del] digit_loop.simps [simp del]
  illegal_loop.simps [simp del] bracket_loop.simps [simp del] var_loop.simps [simp del]

section \<open>The cases of \<open>sqlite3GetToken\<close>\<close>

definition tok_space :: "string \<Rightarrow> nat \<times> nat" where
  "tok_space z = (scan sqlite3Isspace z 1, TK_SPACE)"

definition tok_minus :: "string \<Rightarrow> nat \<times> nat" where
  "tok_minus z =
    (if zat z 1 = CHR ''-'' then (scan (\<lambda>c. c \<noteq> CHR 0x00 \<and> c \<noteq> CHR 0x0A) z 2, TK_COMMENT)
     else if zat z 1 = CHR ''>'' then (2 + of_bool (zat z 2 = CHR ''>''), TK_PTR)
     else (1, TK_MINUS))"

definition tok_slash :: "string \<Rightarrow> nat \<times> nat" where
  "tok_slash z =
    (if zat z 1 \<noteq> CHR ''*'' \<or> zat z 2 = CHR 0x00 then (1, TK_SLASH)
     else let (i, c) = slash_loop z 3 (zat z 2) in (if c \<noteq> CHR 0x00 then i + 1 else i, TK_COMMENT))"

definition tok_eq :: "string \<Rightarrow> nat \<times> nat" where
  "tok_eq z = (1 + of_bool (zat z 1 = CHR ''=''), TK_EQ)"

definition tok_lt :: "string \<Rightarrow> nat \<times> nat" where
  "tok_lt z =
    (let c = zat z 1
     in if c = CHR ''='' then (2, TK_LE) else if c = CHR ''>'' then (2, TK_NE)
        else if c = CHR ''<'' then (2, TK_LSHIFT) else (1, TK_LT))"

definition tok_gt :: "string \<Rightarrow> nat \<times> nat" where
  "tok_gt z =
    (let c = zat z 1
     in if c = CHR ''='' then (2, TK_GE) else if c = CHR ''>'' then (2, TK_RSHIFT) else (1, TK_GT))"

definition tok_bang :: "string \<Rightarrow> nat \<times> nat" where
  "tok_bang z = (if zat z 1 \<noteq> CHR ''='' then (1, TK_ILLEGAL) else (2, TK_NE))"

definition tok_pipe :: "string \<Rightarrow> nat \<times> nat" where
  "tok_pipe z = (if zat z 1 \<noteq> CHR ''|'' then (1, TK_BITOR) else (2, TK_CONCAT))"

definition tok_quote :: "string \<Rightarrow> nat \<times> nat" where
  "tok_quote z =
    (let (i, c) = quote_loop (zat z 0) z 1
     in if c = CHR 0x27 then (i + 1, TK_STRING) else if c \<noteq> CHR 0x00 then (i + 1, TK_ID) else (i, TK_ILLEGAL))"

text \<open>The fraction and the exponent of a decimal number, after its integer part.\<close>

definition tok_fraction :: "string \<Rightarrow> nat \<Rightarrow> nat \<Rightarrow> nat \<times> nat" where
  "tok_fraction z i t =
    (if zat z i = CHR ''.'' then digit_loop sqlite3Isdigit z (i + 1) (if t = TK_INTEGER then TK_FLOAT else t)
     else (i, t))"

definition tok_exponent :: "string \<Rightarrow> nat \<Rightarrow> nat \<Rightarrow> nat \<times> nat" where
  "tok_exponent z i t =
    (if (zat z i = CHR ''e'' \<or> zat z i = CHR ''E'') \<and>
        (sqlite3Isdigit (zat z (i + 1)) \<or>
         (zat z (i + 1) = CHR ''+'' \<or> zat z (i + 1) = CHR ''-'') \<and> sqlite3Isdigit (zat z (i + 2)))
     then digit_loop sqlite3Isdigit z (i + 2) (if t = TK_INTEGER then TK_FLOAT else t)
     else (i, t))"

definition tok_number :: "string \<Rightarrow> nat \<times> nat" where
  "tok_number z =
    (let (i, t) =
       (if zat z 0 = CHR ''0'' \<and> (zat z 1 = CHR ''x'' \<or> zat z 1 = CHR ''X'') \<and> sqlite3Isxdigit (zat z 2)
        then digit_loop sqlite3Isxdigit z 3 TK_INTEGER
        else let (i, t) = digit_loop sqlite3Isdigit z 0 TK_INTEGER;
                 (i, t) = tok_fraction z i t
             in tok_exponent z i t)
     in illegal_loop z i t)"

definition tok_bracket :: "string \<Rightarrow> nat \<times> nat" where
  "tok_bracket z = (let (i, c) = bracket_loop z 1 (zat z 0) in (i, if c = CHR '']'' then TK_ID else TK_ILLEGAL))"

definition tok_varnum :: "string \<Rightarrow> nat \<times> nat" where
  "tok_varnum z = (scan sqlite3Isdigit z 1, TK_VARIABLE)"

definition tok_varalpha :: "string \<Rightarrow> nat \<times> nat" where
  "tok_varalpha z = (let (i, n, t) = var_loop z 1 0 in (i, if n = 0 then TK_ILLEGAL else t))"

text \<open>The loop behind the switch, where identifiers end up.\<close>

definition tok_id :: "string \<Rightarrow> nat \<Rightarrow> nat \<times> nat" where
  "tok_id z i = (scan IdChar z i, TK_ID)"

definition class_of :: "char \<Rightarrow> nat" where "class_of c = aiClass ! code c"

definition tok_kywd0 :: "string \<Rightarrow> nat \<times> nat" where
  "tok_kywd0 z =
    (if class_of (zat z 1) > CC_KYWD then tok_id z 1
     else let i = scan (\<lambda>c. class_of c \<le> CC_KYWD) z 2
          in if IdChar (zat z i) then tok_id z (i + 1) else (i, keywordCode z i TK_ID))"

definition tok_x :: "string \<Rightarrow> nat \<times> nat" where
  "tok_x z =
    (if zat z 1 = CHR 0x27 then
       let i = scan sqlite3Isxdigit z 2;
           (i, t) = (if zat z i \<noteq> CHR 0x27 \<or> i mod 2 \<noteq> 0
                     then (scan (\<lambda>c. c \<noteq> CHR 0x00 \<and> c \<noteq> CHR 0x27) z i, TK_ILLEGAL) else (i, TK_BLOB))
       in (if zat z i \<noteq> CHR 0x00 then i + 1 else i, t)
     else tok_id z 1)"

definition tok_bom :: "string \<Rightarrow> nat \<times> nat" where
  "tok_bom z = (if zat z 1 = CHR 0xBB \<and> zat z 2 = CHR 0xBF then (3, TK_SPACE) else tok_id z 1)"

definition sqlite3GetToken :: "string \<Rightarrow> nat \<times> nat" where
  "sqlite3GetToken z =
    (let k = class_of (zat z 0)
     in if k = CC_SPACE then tok_space z
        else if k = CC_MINUS then tok_minus z
        else if k = CC_LP then (1, TK_LP)
        else if k = CC_RP then (1, TK_RP)
        else if k = CC_SEMI then (1, TK_SEMI)
        else if k = CC_PLUS then (1, TK_PLUS)
        else if k = CC_STAR then (1, TK_STAR)
        else if k = CC_SLASH then tok_slash z
        else if k = CC_PERCENT then (1, TK_REM)
        else if k = CC_EQ then tok_eq z
        else if k = CC_LT then tok_lt z
        else if k = CC_GT then tok_gt z
        else if k = CC_BANG then tok_bang z
        else if k = CC_PIPE then tok_pipe z
        else if k = CC_COMMA then (1, TK_COMMA)
        else if k = CC_AND then (1, TK_BITAND)
        else if k = CC_TILDA then (1, TK_BITNOT)
        else if k = CC_QUOTE then tok_quote z
        else if k = CC_DOT then (if \<not> sqlite3Isdigit (zat z 1) then (1, TK_DOT) else tok_number z)
        else if k = CC_DIGIT then tok_number z
        else if k = CC_QUOTE2 then tok_bracket z
        else if k = CC_VARNUM then tok_varnum z
        else if k = CC_DOLLAR \<or> k = CC_VARALPHA then tok_varalpha z
        else if k = CC_KYWD0 then tok_kywd0 z
        else if k = CC_X then tok_x z
        else if k = CC_KYWD \<or> k = CC_ID then tok_id z 1
        else if k = CC_BOM then tok_bom z
        else if k = CC_NUL then (0, TK_ILLEGAL)
        else (1, TK_ILLEGAL))"

section \<open>Tokens stay inside the text and make progress\<close>

lemma scan_bounds: "i \<le> length z \<Longrightarrow> i \<le> scan P z i \<and> scan P z i \<le> length z"
  by (induction P z i rule: scan.induct) (subst (1 2) scan.simps, auto)

lemma slash_bounds:
  "i \<le> length z \<Longrightarrow> i \<le> fst (slash_loop z i c) \<and> fst (slash_loop z i c) \<le> length z \<and>
   (snd (slash_loop z i c) \<noteq> CHR 0x00 \<longrightarrow> fst (slash_loop z i c) < length z)"
proof (induction z i c rule: slash_loop.induct)
  case (1 z i c)
  then show ?case using zat_nonzero [of z i] by (subst (1 2 3 4) slash_loop.simps) auto
qed

lemma quote_bounds:
  "i \<le> length z \<Longrightarrow> i \<le> fst (quote_loop d z i) \<and> fst (quote_loop d z i) \<le> length z \<and>
   (snd (quote_loop d z i) \<noteq> CHR 0x00 \<longrightarrow> fst (quote_loop d z i) < length z)"
proof (induction d z i rule: quote_loop.induct)
  case (1 d z i)
  then show ?case using zat_nonzero [of z i] zat_nonzero [of z "i + 1"] by (subst (1 2 3 4) quote_loop.simps) auto
qed

lemma digit_bounds: "i \<le> length z \<Longrightarrow> i \<le> fst (digit_loop P z i t) \<and> fst (digit_loop P z i t) \<le> length z"
  by (induction P z i t rule: digit_loop.induct) (subst (1 2) digit_loop.simps, auto)

lemma illegal_bounds: "i \<le> length z \<Longrightarrow> i \<le> fst (illegal_loop z i t) \<and> fst (illegal_loop z i t) \<le> length z"
  by (induction z i t rule: illegal_loop.induct) (subst (1 2) illegal_loop.simps, auto)

lemma bracket_bounds: "i \<le> length z \<Longrightarrow> i \<le> fst (bracket_loop z i c) \<and> fst (bracket_loop z i c) \<le> length z"
proof (induction z i c rule: bracket_loop.induct)
  case (1 z i c)
  then show ?case using zat_nonzero [of z i] by (subst (1 2) bracket_loop.simps) auto
qed

lemma var_bounds: "i \<le> length z \<Longrightarrow> i \<le> fst (var_loop z i n) \<and> fst (var_loop z i n) \<le> length z"
proof (induction z i n rule: var_loop.induct)
  case (1 z i n)
  let ?P = "\<lambda>c. c \<noteq> CHR 0x00 \<and> \<not> sqlite3Isspace c \<and> c \<noteq> CHR '')''"
  have s: "i < length z \<Longrightarrow> i + 1 \<le> scan ?P z (i + 1) \<and> scan ?P z (i + 1) \<le> length z"
    using scan_bounds [of "i + 1" z ?P] by simp
  have b: "zat z (scan ?P z (i + 1)) = CHR '')'' \<Longrightarrow> scan ?P z (i + 1) < length z"
    using zat_nonzero [of z "scan ?P z (i + 1)"] by simp
  show ?case using 1 s b zat_nonzero [of z i] zat_nonzero [of z "i + 1"]
    by (subst (1 2) var_loop.simps) (auto simp: Let_def)
qed

lemma table_class: "map f aiClass = map g [0..<256] \<Longrightarrow> f (class_of c) = g (code c)"
  unfolding class_of_def by (rule table_at)

lemma class_nul: "class_of c = CC_NUL \<longleftrightarrow> c = CHR 0x00"
proof -
  have "map (\<lambda>k. k = CC_NUL) aiClass = map (\<lambda>n. n = 0) [0..<256]" by (simp add: upt_rec aiClass_def CC_defs)
  from table_class [OF this, of c] show ?thesis by (simp add: code_0)
qed

lemma class_keyword: "class_of c \<le> CC_KYWD \<longleftrightarrow> sqlite3Isalpha c \<or> c = CHR ''_''"
proof -
  have "map (\<lambda>k. k \<le> CC_KYWD) aiClass = map (\<lambda>n. 65 \<le> n \<and> n \<le> 90 \<or> 97 \<le> n \<and> n \<le> 122 \<or> n = 95) [0..<256]"
    by (simp add: upt_rec aiClass_def CC_defs)
  from table_class [OF this, of c] have "class_of c \<le> CC_KYWD \<longleftrightarrow> sqlite3Isalpha c \<or> code c = code (CHR ''_'')"
    by (simp add: isalpha_code)
  then show ?thesis using of_char_eq_iff [of c "CHR ''_''", where ?'a = nat] by simp
qed

definition in_text :: "string \<Rightarrow> nat \<times> nat \<Rightarrow> bool" where
  "in_text z tok \<longleftrightarrow> 0 < fst tok \<and> fst tok \<le> length z"

lemma in_text_pair: "0 < n \<Longrightarrow> n \<le> length z \<Longrightarrow> in_text z (n, t)"
  by (simp add: in_text_def)

lemma in_text_two: "zat z 1 \<noteq> CHR 0x00 \<Longrightarrow> in_text z (2, t)"
  using zat_nonzero [of z 1] by (simp add: in_text_def)

lemma zat_1: "zat z 1 = c \<Longrightarrow> c \<noteq> CHR 0x00 \<Longrightarrow> 2 \<le> length z"
  using zat_nonzero [of z 1] by simp

lemma zat_2: "zat z 2 = c \<Longrightarrow> c \<noteq> CHR 0x00 \<Longrightarrow> 3 \<le> length z"
  using zat_nonzero [of z 2] by simp

lemma nul_classes [simp]:
  "\<not> sqlite3Isdigit (CHR 0x00)" "\<not> IdChar (CHR 0x00)" "\<not> sqlite3Isspace (CHR 0x00)" "\<not> sqlite3Isxdigit (CHR 0x00)"
  "\<not> sqlite3Isalpha (CHR 0x00)"
  by (simp_all add: class_codes)

lemma zat_class: "P (zat z i) \<Longrightarrow> \<not> P (CHR 0x00) \<Longrightarrow> i < length z"
  using zat_nonzero [of z i] by metis

lemma scan_in_text: "1 \<le> length z \<Longrightarrow> in_text z (scan P z 1, t)"
  using scan_bounds [of 1 z P] by (simp add: in_text_def)

lemma tok_id_in_text: "1 \<le> i \<Longrightarrow> i \<le> length z \<Longrightarrow> in_text z (tok_id z i)"
  using scan_bounds [of i z IdChar] by (simp add: in_text_def tok_id_def)

lemma minus_in_text: "1 \<le> length z \<Longrightarrow> in_text z (tok_minus z)"
proof -
  have "zat z 1 = CHR ''-'' \<Longrightarrow> in_text z (scan (\<lambda>c. c \<noteq> CHR 0x00 \<and> c \<noteq> CHR 0x0A) z 2, TK_COMMENT)"
    using zat_1 [of z "CHR ''-''"] scan_bounds [of 2 z "\<lambda>c. c \<noteq> CHR 0x00 \<and> c \<noteq> CHR 0x0A"] by (simp add: in_text_def)
  moreover have "zat z 1 = CHR ''>'' \<Longrightarrow> in_text z (2 + of_bool (zat z 2 = CHR ''>''), TK_PTR)"
    using zat_1 [of z "CHR ''>''"] zat_2 [of z "CHR ''>''"] by (auto simp: in_text_def)
  ultimately show "1 \<le> length z \<Longrightarrow> ?thesis" by (auto simp: tok_minus_def in_text_def)
qed

lemma slash_in_text:
  assumes "1 \<le> length z"
  shows "in_text z (tok_slash z)"
proof (cases "zat z 1 \<noteq> CHR ''*'' \<or> zat z 2 = CHR 0x00")
  case True
  then show ?thesis using assms by (auto simp: tok_slash_def in_text_def)
next
  case False
  then have "3 \<le> length z" using zat_2 [of z "zat z 2"] by simp
  then show ?thesis using False slash_bounds [of 3 z "zat z 2"]
    by (auto simp: tok_slash_def in_text_def split_beta)
qed

lemma ops_in_text:
  assumes "1 \<le> length z"
  shows "in_text z (tok_eq z)" "in_text z (tok_lt z)" "in_text z (tok_gt z)" "in_text z (tok_bang z)" "in_text z (tok_pipe z)"
proof -
  show "in_text z (tok_eq z)" using assms zat_1 [of z "CHR ''=''"] by (auto simp: in_text_def tok_eq_def)
  show "in_text z (tok_lt z)"
    using assms zat_1 [of z "CHR ''=''"] zat_1 [of z "CHR ''>''"] zat_1 [of z "CHR ''<''"] by (auto simp: in_text_def tok_lt_def Let_def)
  show "in_text z (tok_gt z)"
    using assms zat_1 [of z "CHR ''=''"] zat_1 [of z "CHR ''>''"] by (auto simp: in_text_def tok_gt_def Let_def)
  show "in_text z (tok_bang z)" using assms zat_1 [of z "CHR ''=''"] by (auto simp: in_text_def tok_bang_def)
  show "in_text z (tok_pipe z)" using assms zat_1 [of z "CHR ''|''"] by (auto simp: in_text_def tok_pipe_def)
qed

lemma quote_in_text: "1 \<le> length z \<Longrightarrow> in_text z (tok_quote z)"
  using quote_bounds [of 1 z "zat z 0"] by (auto simp: in_text_def tok_quote_def split_beta)

lemma fraction_bounds:
  assumes "i \<le> length z"
  shows "i \<le> fst (tok_fraction z i t) \<and> fst (tok_fraction z i t) \<le> length z"
  using digit_bounds [of "i + 1" z sqlite3Isdigit "if t = TK_INTEGER then TK_FLOAT else t"] zat_nonzero [of z i] assms
  unfolding tok_fraction_def by auto

lemma exponent_bounds:
  assumes "i \<le> length z"
  shows "i \<le> fst (tok_exponent z i t) \<and> fst (tok_exponent z i t) \<le> length z"
proof -
  have "sqlite3Isdigit (zat z (i + 1)) \<Longrightarrow> i + 1 < length z" by (rule zat_class [of sqlite3Isdigit]) simp_all
  moreover have "zat z (i + 1) \<noteq> CHR 0x00 \<Longrightarrow> i + 1 < length z" by (rule zat_nonzero)
  ultimately show ?thesis
    using assms digit_bounds [of "i + 2" z sqlite3Isdigit "if t = TK_INTEGER then TK_FLOAT else t"]
    unfolding tok_exponent_def by auto
qed

lemma digit_loop_step: "i < length z \<Longrightarrow> P (zat z i) \<Longrightarrow> digit_loop P z i t = digit_loop P z (i + 1) t"
  by (subst digit_loop.simps) simp

lemma number_in_text:
  assumes "sqlite3Isdigit (zat z 0) \<or> zat z 0 = CHR ''.'' "
  shows "in_text z (tok_number z)"
proof -
  have ne: "1 \<le> length z" using assms zat_nonzero [of z 0] by (cases z) (auto simp: zat_def)
  define r where "r = (if zat z 0 = CHR ''0'' \<and> (zat z 1 = CHR ''x'' \<or> zat z 1 = CHR ''X'') \<and> sqlite3Isxdigit (zat z 2)
        then digit_loop sqlite3Isxdigit z 3 TK_INTEGER
        else let (i, t) = digit_loop sqlite3Isdigit z 0 TK_INTEGER; (i, t) = tok_fraction z i t in tok_exponent z i t)"
  have "1 \<le> fst r \<and> fst r \<le> length z"
  proof (cases "zat z 0 = CHR ''0'' \<and> (zat z 1 = CHR ''x'' \<or> zat z 1 = CHR ''X'') \<and> sqlite3Isxdigit (zat z 2)")
    case True
    then have "2 < length z" by (intro zat_class [of sqlite3Isxdigit]) simp_all
    then show ?thesis using digit_bounds [of 3 z sqlite3Isxdigit TK_INTEGER] True by (simp add: r_def)
  next
    case False
    obtain i t where d: "digit_loop sqlite3Isdigit z 0 TK_INTEGER = (i, t)" by force
    have i: "i \<le> length z" using digit_bounds [of 0 z sqlite3Isdigit TK_INTEGER] d by simp
    obtain j u where f: "tok_fraction z i t = (j, u)" by force
    have j: "i \<le> j" "j \<le> length z" using fraction_bounds [OF i, of t] f by simp_all
    have "1 \<le> j"
    proof (cases "sqlite3Isdigit (zat z 0)")
      case True
      have "digit_loop sqlite3Isdigit z 0 TK_INTEGER = digit_loop sqlite3Isdigit z (0 + 1) TK_INTEGER"
        by (rule digit_loop_step) (use ne True in \<open>linarith, simp\<close>)
      then have "1 \<le> i" using d digit_bounds [OF ne, of sqlite3Isdigit TK_INTEGER] by (metis add_0 fst_conv)
      then show ?thesis using j by simp
    next
      case False
      then have dot: "zat z 0 = CHR ''.''" using assms by blast
      then have "(i, t) = (0, TK_INTEGER)" using d False by (subst (asm) digit_loop.simps) (simp add: SQLITE_DIGIT_SEPARATOR_def)
      then show ?thesis using f dot digit_bounds [of 1 z sqlite3Isdigit TK_FLOAT] ne by (auto simp: tok_fraction_def)
    qed
    then show ?thesis using exponent_bounds [OF j(2), of u] d f False by (auto simp: r_def)
  qed
  moreover have "tok_number z = illegal_loop z (fst r) (snd r)" unfolding tok_number_def r_def [symmetric] by (simp add: split_beta)
  ultimately show ?thesis using illegal_bounds [of "fst r" z "snd r"] by (simp add: in_text_def)
qed

lemma bracket_in_text: "1 \<le> length z \<Longrightarrow> in_text z (tok_bracket z)"
  using bracket_bounds [of 1 z "zat z 0"] by (auto simp: in_text_def tok_bracket_def split_beta)

lemma varalpha_in_text: "1 \<le> length z \<Longrightarrow> in_text z (tok_varalpha z)"
  using var_bounds [of 1 z 0] by (auto simp: in_text_def tok_varalpha_def split_beta)

lemma kywd0_in_text:
  assumes "1 \<le> length z"
  shows "in_text z (tok_kywd0 z)"
proof (cases "class_of (zat z 1) > CC_KYWD")
  case True
  then show ?thesis using tok_id_in_text [of 1 z] assms by (simp add: tok_kywd0_def)
next
  case False
  let ?i = "scan (\<lambda>c. class_of c \<le> CC_KYWD) z 2"
  have "class_of (zat z 1) \<le> CC_KYWD" using False by simp
  then have "1 < length z" by (rule zat_class [of "\<lambda>c. class_of c \<le> CC_KYWD"]) (simp add: class_keyword)
  then have i: "2 \<le> ?i" "?i \<le> length z" using scan_bounds [of 2 z] by auto
  have "IdChar (zat z ?i) \<Longrightarrow> ?i < length z" by (rule zat_class [of IdChar]) simp_all
  then show ?thesis using i False tok_id_in_text [of "?i + 1" z] by (auto simp: tok_kywd0_def Let_def in_text_def)
qed

lemma x_in_text:
  assumes "1 \<le> length z"
  shows "in_text z (tok_x z)"
proof (cases "zat z 1 = CHR 0x27")
  case False
  then show ?thesis using tok_id_in_text [of 1 z] assms by (simp add: tok_x_def)
next
  case True
  then have "2 \<le> length z" using zat_1 [of z "CHR 0x27"] by simp
  then have i: "2 \<le> scan sqlite3Isxdigit z 2" "scan sqlite3Isxdigit z 2 \<le> length z" using scan_bounds [of 2 z] by auto
  define r where "r = (if zat z (scan sqlite3Isxdigit z 2) \<noteq> CHR 0x27 \<or> scan sqlite3Isxdigit z 2 mod 2 \<noteq> 0
    then (scan (\<lambda>c. c \<noteq> CHR 0x00 \<and> c \<noteq> CHR 0x27) z (scan sqlite3Isxdigit z 2), TK_ILLEGAL) else (scan sqlite3Isxdigit z 2, TK_BLOB))"
  have r: "2 \<le> fst r" "fst r \<le> length z"
    using i scan_bounds [OF i(2), of "\<lambda>c. c \<noteq> CHR 0x00 \<and> c \<noteq> CHR 0x27"] unfolding r_def by auto
  have "tok_x z = (if zat z (fst r) \<noteq> CHR 0x00 then fst r + 1 else fst r, snd r)"
    using True unfolding tok_x_def Let_def r_def [symmetric] by (simp add: split_beta)
  then show ?thesis using r zat_nonzero [of z "fst r"] by (auto simp: in_text_def)
qed

lemma bom_in_text: "1 \<le> length z \<Longrightarrow> in_text z (tok_bom z)"
  using tok_id_in_text [of 1 z] zat_2 [of z "CHR 0xBF"] by (auto simp: tok_bom_def in_text_def)

lemma class_dot: "class_of c = CC_DOT \<longleftrightarrow> c = CHR ''.''" "class_of c = CC_DIGIT \<longleftrightarrow> sqlite3Isdigit c"
proof -
  have "map (\<lambda>k. k = CC_DOT) aiClass = map (\<lambda>n. n = 46) [0..<256]" by (simp add: upt_rec aiClass_def CC_defs)
  from table_class [OF this, of c] show "class_of c = CC_DOT \<longleftrightarrow> c = CHR ''.''"
    using of_char_eq_iff [of c "CHR ''.''", where ?'a = nat] by simp
  have "map (\<lambda>k. k = CC_DIGIT) aiClass = map (\<lambda>n. 48 \<le> n \<and> n \<le> 57) [0..<256]" by (simp add: upt_rec aiClass_def CC_defs)
  from table_class [OF this, of c] show "class_of c = CC_DIGIT \<longleftrightarrow> sqlite3Isdigit c" by (simp add: isdigit_code)
qed

lemma get_token_in_text:
  assumes "zat z 0 \<noteq> CHR 0x00"
  shows "in_text z (sqlite3GetToken z)"
proof -
  have ne: "1 \<le> length z" using zat_nonzero [OF assms] by linarith
  have one: "in_text z (1, t)" for t using ne by (simp add: in_text_def)
  note parts = scan_in_text tok_id_in_text [of 1] minus_in_text slash_in_text ops_in_text quote_in_text bracket_in_text
    varalpha_in_text kywd0_in_text x_in_text bom_in_text
  show ?thesis
    unfolding sqlite3GetToken_def Let_def tok_space_def tok_varnum_def
    using assms ne class_nul [of "zat z 0"] class_dot [of "zat z 0"]
    by (simp add: one parts number_in_text del: One_nat_def)
qed

lemma get_token_end:
  assumes "zat z 0 = CHR 0x00"
  shows "sqlite3GetToken z = (0, TK_ILLEGAL)"
proof -
  have "class_of (zat z 0) = CC_NUL" using assms class_nul by blast
  then show ?thesis by (simp add: sqlite3GetToken_def CC_defs)
qed


text \<open>
  C29. Every token lies inside the text, and the tokenizer makes progress until the terminator: the
  length is 0 at the end of the text and only there.
\<close>

theorem token_bounds:
  "fst (sqlite3GetToken z) \<le> length z \<and> (fst (sqlite3GetToken z) = 0 \<longleftrightarrow> zat z 0 = CHR 0x00)"
  by (cases "zat z 0 = CHR 0x00") (use get_token_in_text [of z] get_token_end [of z] in \<open>auto simp: in_text_def\<close>)

section \<open>Identifiers and keywords\<close>

lemma zat_append: "zat (a @ b) i = (if i < length a then a ! i else zat b (i - length a))"
  by (auto simp: zat_def nth_append)

lemma zat_Cons: "zat (c # s) 0 = c" "zat (c # s) (Suc i) = zat s i"
  by (simp_all add: zat_def)

lemma scan_over: "list_all P s \<Longrightarrow> \<not> P (zat r 0) \<Longrightarrow> scan P (p @ s @ r) (length p) = length p + length s"
proof (induction s arbitrary: p)
  case Nil
  then show ?case by (subst scan.simps) (simp add: zat_append)
next
  case (Cons c s)
  have "scan P ((p @ [c]) @ s @ r) (length (p @ [c])) = length (p @ [c]) + length s" using Cons by (intro Cons.IH) simp_all
  then show ?case using Cons.prems by (subst scan.simps) (simp add: zat_append zat_Cons)
qed

lemma scan_rest:
  assumes "list_all P (drop i s)" "i \<le> length s" "\<not> P (zat r 0)"
  shows "scan P (s @ r) i = length s"
  using scan_over [OF assms(1,3), of "take i s"] assms(2) by (simp add: append_assoc [symmetric] del: append_assoc)

definition ident_start :: "char \<Rightarrow> bool" where
  "ident_start c \<longleftrightarrow> IdChar c \<and> \<not> sqlite3Isdigit c \<and> c \<noteq> CHR ''$''"

lemma class_ident:
  "ident_start c \<longleftrightarrow> class_of c \<in> {CC_X, CC_KYWD0, CC_KYWD, CC_ID, CC_BOM}"
proof -
  have "map (\<lambda>k. k \<in> {CC_X, CC_KYWD0, CC_KYWD, CC_ID, CC_BOM}) aiClass =
      map (\<lambda>n. 65 \<le> n \<and> n \<le> 90 \<or> n = 95 \<or> 97 \<le> n \<and> n \<le> 122 \<or> 128 \<le> n) [0..<256]"
    by (simp add: upt_rec aiClass_def CC_defs)
  from table_class [OF this, of c] show ?thesis
    using of_char_eq_iff [of c "CHR ''$''", where ?'a = nat] by (auto simp: ident_start_def idchar_code isdigit_code)
qed

lemma class_xbom:
  "class_of c = CC_X \<longleftrightarrow> c = CHR ''x'' \<or> c = CHR ''X''" "class_of c = CC_BOM \<longleftrightarrow> c = CHR 0xEF"
  "class_of c = CC_KYWD \<longleftrightarrow> c \<in> {CHR ''Y'', CHR ''Z'', CHR ''y'', CHR ''z'', CHR ''_''}"
proof -
  have "map (\<lambda>k. k = CC_X) aiClass = map (\<lambda>n. n = 120 \<or> n = 88) [0..<256]" by (simp add: upt_rec aiClass_def CC_defs)
  from table_class [OF this, of c] show "class_of c = CC_X \<longleftrightarrow> c = CHR ''x'' \<or> c = CHR ''X''"
    using of_char_eq_iff [of c "CHR ''x''", where ?'a = nat] of_char_eq_iff [of c "CHR ''X''", where ?'a = nat] by simp
  have "map (\<lambda>k. k = CC_BOM) aiClass = map (\<lambda>n. n = 239) [0..<256]" by (simp add: upt_rec aiClass_def CC_defs)
  from table_class [OF this, of c] show "class_of c = CC_BOM \<longleftrightarrow> c = CHR 0xEF"
    using of_char_eq_iff [of c "CHR 0xEF", where ?'a = nat] by simp
  have "map (\<lambda>k. k = CC_KYWD) aiClass = map (\<lambda>n. n = 89 \<or> n = 90 \<or> n = 121 \<or> n = 122 \<or> n = 95) [0..<256]"
    by (simp add: upt_rec aiClass_def CC_defs)
  from table_class [OF this, of c] show "class_of c = CC_KYWD \<longleftrightarrow> c \<in> {CHR ''Y'', CHR ''Z'', CHR ''y'', CHR ''z'', CHR ''_''}"
    using of_char_eq_iff [of c "CHR ''Y''", where ?'a = nat] of_char_eq_iff [of c "CHR ''Z''", where ?'a = nat]
      of_char_eq_iff [of c "CHR ''y''", where ?'a = nat] of_char_eq_iff [of c "CHR ''z''", where ?'a = nat]
      of_char_eq_iff [of c "CHR ''_''", where ?'a = nat] by simp
qed

text \<open>What the token type of an identifier should be: the keyword of this spelling up to case, or \<open>TK_ID\<close>.\<close>

definition ident_type :: "string \<Rightarrow> nat" where
  "ident_type s = (case map_of keyword_list (map sqlite3Toupper s) of None \<Rightarrow> TK_ID | Some k \<Rightarrow> k)"

lemma ident_type_other: "map sqlite3Toupper s \<notin> set (map fst keyword_list) \<Longrightarrow> ident_type s = TK_ID"
  by (simp add: ident_type_def map_of_eq_None_iff [THEN iffD2])

lemma keyword_letters:
  "list_all (\<lambda>(t, _). list_all (\<lambda>c. 65 \<le> code c \<and> code c \<le> 90 \<or> code c = 95) t \<and> code (hd t) \<notin> {88, 89, 90, 95}) keyword_list"
  by (simp add: keyword_list_def)

lemma keyword_word:
  assumes "t \<in> set (map fst keyword_list)"
  shows "2 \<le> length t" "\<And>c. c \<in> set t \<Longrightarrow> 65 \<le> code c \<and> code c \<le> 90 \<or> code c = 95" "code (hd t) \<notin> {88, 89, 90, 95}"
  using assms keyword_letters kw_lengths by (fastforce simp: list_all_iff)+


lemma map_of_code: "map_of (map (\<lambda>(t, k). (map code t, k)) kws) (map code u) = map_of kws u"
  by (induction kws) (auto simp: inj_code_map)

lemma clear20_letter_upper: "sqlite3Isalpha c \<or> c = CHR ''_'' \<Longrightarrow> clear20 c = code (sqlite3Toupper c)"
proof -
  have up: "65 \<le> n \<Longrightarrow> n \<le> 90 \<Longrightarrow> n div 32 = 2" and lo: "97 \<le> n \<Longrightarrow> n \<le> 122 \<Longrightarrow> n div 32 = 3" for n :: nat
    by (rule div_nat_eqI; simp)+
  have b: "code (char_of (code c - 32) :: char) = code c - 32"
    by (simp add: of_char_of less_imp_diff_less)
  assume "sqlite3Isalpha c \<or> c = CHR ''_''"
  then consider "65 \<le> code c" "code c \<le> 90" | "97 \<le> code c" "code c \<le> 122" | "c = CHR ''_''"
    by (auto simp: isalpha_code)
  then show ?thesis by cases (simp_all add: clear20_code toupper_code up lo b)
qed

lemma keywordCode_ident:
  assumes "2 \<le> length s" "list_all (\<lambda>c. class_of c \<le> CC_KYWD) s"
  shows "keywordCode (s @ r) (length s) TK_ID = ident_type s"
proof -
  have "map clear20 s = map code (map sqlite3Toupper s)"
    using assms(2) by (simp add: list_all_iff class_keyword clear20_letter_upper)
  then show ?thesis
    using keywordCode_full [of s TK_ID] keywordCode_take [of "length s" "s @ r" TK_ID] assms(1)
    by (simp only: map_of_code ident_type_def take_append) simp
qed

lemma toupper_keyword_char:
  assumes "65 \<le> code (sqlite3Toupper c) \<and> code (sqlite3Toupper c) \<le> 90 \<or> code (sqlite3Toupper c) = 95"
  shows "class_of c \<le> CC_KYWD"
proof -
  have "sqlite3Isalpha c \<or> code c = code (CHR ''_'')"
    using assms by (auto simp: toupper_code isalpha_code of_char_of split: if_splits)
  then show ?thesis using of_char_eq_iff [of c "CHR ''_''", where ?'a = nat] by (simp add: class_keyword)
qed

lemma ident_type_nonletter:
  assumes "c \<in> set s" "\<not> class_of c \<le> CC_KYWD"
  shows "ident_type s = TK_ID"
proof (rule ident_type_other, rule notI)
  assume "map sqlite3Toupper s \<in> set (map fst keyword_list)"
  then show False using keyword_word(2) [of "map sqlite3Toupper s" "sqlite3Toupper c"] assms toupper_keyword_char [of c] by auto
qed

lemma ident_type_short: "length s < 2 \<Longrightarrow> ident_type s = TK_ID"
  using keyword_word(1) [of "map sqlite3Toupper s"] by (intro ident_type_other) fastforce

lemma ident_type_xyz:
  assumes "class_of c = CC_X \<or> class_of c = CC_KYWD"
  shows "ident_type (c # s) = TK_ID"
proof (rule ident_type_other, rule notI)
  assume "map sqlite3Toupper (c # s) \<in> set (map fst keyword_list)"
  moreover have "code (sqlite3Toupper c) \<in> {88, 89, 90, 95}"
    using assms by (auto simp: class_xbom toupper_code of_char_of)
  ultimately show False using keyword_word(3) [of "map sqlite3Toupper (c # s)"] by simp
qed

lemma kywd0_ident:
  assumes c: "class_of c \<le> CC_KYWD" and s: "list_all IdChar (c # s)" and r: "\<not> IdChar (zat r 0)"
  shows "tok_kywd0 (c # s @ r) = (length (c # s), ident_type (c # s))"
proof -
  let ?z = "c # s @ r" and ?K = "\<lambda>c. class_of c \<le> CC_KYWD"
  have notk: "\<not> ?K (zat r 0)" using r by (auto simp: class_keyword isalpha_code idchar_code)
  have id: "tok_id ?z i = (length (c # s), TK_ID)" if i: "i \<le> length (c # s)" for i
  proof -
    have "list_all IdChar (drop i (c # s))" using s set_drop_subset [of i "c # s"] unfolding list_all_iff by blast
    from scan_rest [OF this i r] show ?thesis by (simp add: tok_id_def)
  qed
  show ?thesis
  proof (cases "list_all ?K s")
    case True
    show ?thesis
    proof (cases s)
      case Nil
      then show ?thesis using notk id [of 1] ident_type_short [of "[c]"] by (simp add: tok_kywd0_def zat_Cons)
    next
      case (Cons d u)
      then have "scan ?K ?z 2 = length (c # s)" "?K (zat ?z 1)"
        using scan_rest [of ?K 2 "c # s" r] True notk by (simp_all add: zat_Cons)
      then show ?thesis
        using r True c Cons keywordCode_ident [of "c # s" r] by (simp add: tok_kywd0_def zat_append zat_Cons)
    qed
  next
    case False
    then obtain d where d: "d \<in> set s" "\<not> ?K d" by (auto simp: list_all_iff)
    have t: "ident_type (c # s) = TK_ID" using d by (intro ident_type_nonletter [of d]) simp_all
    obtain u e v where s': "s = u @ e # v" "list_all ?K u" "\<not> ?K e"
      using split_list_first_propE [of s "\<lambda>x. \<not> ?K x"] d by (metis list_all_iff)
    have e: "IdChar e" using s s' by simp
    show ?thesis
    proof (cases "u = []")
      case True
      then show ?thesis using s' t id [of 1] by (simp add: tok_kywd0_def zat_Cons)
    next
      case False
      then obtain a w where u: "u = a # w" by (cases u) auto
      have i: "scan ?K ?z 2 = length (c # u)"
        using scan_rest [of ?K 2 "c # u" "e # v @ r"] s' u by (simp add: zat_Cons)
      have "?K (zat ?z 1)" "zat ?z (length (c # u)) = e" using s' u by (simp_all add: zat_append zat_Cons)
      then have "tok_kywd0 ?z = tok_id ?z (length (c # u) + 1)"
        using e unfolding tok_kywd0_def i Let_def by simp
      then show ?thesis using t id [of "length (c # u) + 1"] s' by simp
    qed
  qed
qed

lemma get_token_case:
  "class_of (zat z 0) = CC_X \<Longrightarrow> sqlite3GetToken z = tok_x z"
  "class_of (zat z 0) = CC_KYWD0 \<Longrightarrow> sqlite3GetToken z = tok_kywd0 z"
  "class_of (zat z 0) = CC_KYWD \<Longrightarrow> sqlite3GetToken z = tok_id z 1"
  "class_of (zat z 0) = CC_ID \<Longrightarrow> sqlite3GetToken z = tok_id z 1"
  "class_of (zat z 0) = CC_SPACE \<Longrightarrow> sqlite3GetToken z = tok_space z"
  "class_of (zat z 0) = CC_MINUS \<Longrightarrow> sqlite3GetToken z = tok_minus z"
  "class_of (zat z 0) = CC_SLASH \<Longrightarrow> sqlite3GetToken z = tok_slash z"
  "class_of (zat z 0) = CC_QUOTE \<Longrightarrow> sqlite3GetToken z = tok_quote z"
  by (simp_all add: sqlite3GetToken_def CC_defs)

lemma word_token:
  assumes "list_all IdChar (c # s)" "ident_start c" "\<not> IdChar (zat r 0)"
    and "c \<noteq> CHR 0xEF" "c = CHR ''x'' \<or> c = CHR ''X'' \<Longrightarrow> s = [] \<Longrightarrow> zat r 0 \<noteq> CHR 0x27"
  shows "sqlite3GetToken ((c # s) @ r) = (length (c # s), ident_type (c # s))"
proof -
  let ?z = "c # s @ r"
  have id: "tok_id ?z 1 = (length (c # s), TK_ID)"
    using scan_rest [of IdChar 1 "c # s" r] assms(1,3) by (simp add: tok_id_def)
  have k: "class_of (zat ?z 0) = class_of c" by (simp add: zat_Cons)
  consider (x) "class_of c = CC_X" | (k0) "class_of c = CC_KYWD0" | (k) "class_of c = CC_KYWD" | (i) "class_of c = CC_ID"
    using assms(2,4) class_ident [of c] class_xbom(2) [of c] by blast
  then have "sqlite3GetToken ?z = (length (c # s), ident_type (c # s))"
  proof cases
    case x
    have "zat ?z 1 \<noteq> CHR 0x27"
      using x assms(1,5) by (cases s) (auto simp: class_xbom zat_Cons idchar_code)
    then have "tok_x ?z = tok_id ?z 1" by (simp only: tok_x_def if_False)
    then show ?thesis using id ident_type_xyz [of c s] x get_token_case(1) [of ?z] k by simp
  next
    case k0
    then have "class_of c \<le> CC_KYWD" by (simp add: CC_defs)
    then show ?thesis using k0 k get_token_case(2) [of ?z] kywd0_ident [of c s r] assms(1,3) by simp
  next
    case k
    then show ?thesis using id ident_type_xyz [of c s] get_token_case(3) [of ?z] by (simp add: zat_Cons)
  next
    case i
    then have "ident_type (c # s) = TK_ID" by (intro ident_type_nonletter [of c]) (simp_all add: CC_defs)
    then show ?thesis using i id get_token_case(4) [of ?z] k by simp
  qed
  then show ?thesis by simp
qed


text \<open>
  C30. A word of identifier characters that does not start like a number, a variable, a blob literal
  or a byte-order mark is one token, and its type is the keyword that it spells in any case, or \<open>TK_ID\<close>.
\<close>

theorem identifier_token:
  assumes "list_all IdChar (c # s)" "ident_start c" "\<not> IdChar (zat r 0)"
    and "c \<noteq> CHR 0xEF" "c = CHR ''x'' \<or> c = CHR ''X'' \<Longrightarrow> s = [] \<Longrightarrow> zat r 0 \<noteq> CHR 0x27"
  shows "sqlite3GetToken ((c # s) @ r) = (length (c # s), ident_type (c # s))"
  by (rule word_token [OF assms])

theorem identifier_token_witness:
  "sqlite3GetToken ''Where(x)'' = (5, TK_WHERE) \<and> sqlite3GetToken ''x1 + 2'' = (2, TK_ID)"
proof -
  have w: "ident_type ''Where'' = TK_WHERE" "ident_type ''x1'' = TK_ID"
    by (simp_all add: ident_type_def keyword_list_def toupper_code char_of_eq_iff take_bit_eq_mod)
  have "list_all IdChar ''Where''" "ident_start (CHR ''W'')" "\<not> IdChar (zat ''(x)'' 0)"
    "list_all IdChar ''x1''" "ident_start (CHR ''x'')" "\<not> IdChar (zat '' + 2'' 0)"
    by (simp_all add: idchar_code ident_start_def isdigit_code zat_def)
  then show ?thesis
    using identifier_token [of "CHR ''W''" "''here''" "''(x)''"] identifier_token [of "CHR ''x''" "''1''" "'' + 2''"]
    unfolding w append.simps by (simp add: w)
qed

end
