(* ===== verification/Lookahead.thy ===== *)
theory Lookahead
  imports Tokenize
begin

text \<open>
  Looking ahead in the token stream (\<open>tokenize.c\<close>): \<open>getToken\<close> skips white space and comments and
  folds every token that can stand for an identifier into \<open>TK_ID\<close>; \<open>WINDOW\<close>, \<open>OVER\<close> and \<open>FILTER\<close> are
  keywords or identifiers depending on the tokens around them.  The position in the text is the
  suffix that is left.
\<close>

section \<open>The model\<close>

text \<open>The generated table of the tokens that can fall back to an identifier (\<open>parse.c\<close>).\<close>

definition yyFallback :: "nat list" where
  "yyFallback =
    [0, 0, 60, 60, 60, 60, 0, 60, 60, 60, 0, 60, 60, 60, 60, 0, 0, 0, 60, 0,
     0, 60, 0, 0, 0, 0, 60, 60, 60, 60, 60, 60, 60, 60, 60, 60, 60, 60, 60, 60,
     60, 60, 60, 0, 0, 0, 0, 60, 60, 0, 0, 0, 0, 0, 0, 0, 0, 0, 0, 0,
     0, 60, 60, 60, 60, 60, 60, 60, 60, 60, 60, 60, 60, 60, 60, 60, 60, 60, 60, 60,
     60, 60, 60, 60, 60, 60, 60, 60, 60, 60, 60, 60, 60, 60, 60, 60, 60, 60, 60, 60,
     60, 60, 0, 0, 0, 0, 0, 0, 0, 0, 0, 0, 0, 0, 0, 0, 0, 0, 0, 0,
     0, 0, 0, 0, 0, 0, 0, 0, 0, 0, 0, 0, 0, 0, 0, 0, 0, 0, 0, 0,
     0, 0, 0, 0, 0, 0, 0, 0, 0, 0, 0, 0, 0, 0, 0, 0, 0, 0, 0, 0,
     0, 0, 0, 0, 0, 0, 0, 0, 0, 0, 0, 0, 0, 0, 0, 0, 0, 0, 0, 0,
     0, 0, 0, 0, 0, 0, 0]"

definition sqlite3ParserFallback :: "nat \<Rightarrow> nat" where "sqlite3ParserFallback t = yyFallback ! t"

definition sqlite3IsIdChar :: "char \<Rightarrow> bool" where "sqlite3IsIdChar c = IdChar c"

function getToken :: "string \<Rightarrow> nat \<times> string" where
  "getToken z =
    (let (n, t) = sqlite3GetToken z; z = drop n z
     in if t = TK_SPACE \<or> t = TK_COMMENT then getToken z
        else (if t = TK_ID \<or> t = TK_STRING \<or> t = TK_JOIN_KW \<or> t = TK_WINDOW \<or> t = TK_OVER \<or> sqlite3ParserFallback t = TK_ID
              then TK_ID else t, z))"
  by auto
termination
proof (relation "measure length")
  fix z :: string and p n t z'
  assume *: "p = sqlite3GetToken z" "(n, t) = p" "z' = drop n z" "t = TK_SPACE \<or> t = TK_COMMENT"
  have "zat z 0 \<noteq> CHR 0x00" using * get_token_end [of z] by (auto simp: TK_defs)
  then have "0 < n" "n \<le> length z" using * get_token_in_text [of z] by (auto simp: in_text_def) (metis fst_conv)+
  then show "(z', z) \<in> measure length" using * by simp
qed simp

declare getToken.simps [simp del]


definition analyzeOverKeyword :: "string \<Rightarrow> nat \<Rightarrow> nat" where
  "analyzeOverKeyword z lastToken =
    (if lastToken = TK_RP then
       let (t, z) = getToken z in if t = TK_LP \<or> t = TK_ID then TK_OVER else TK_ID
     else TK_ID)"

definition analyzeFilterKeyword :: "string \<Rightarrow> nat \<Rightarrow> nat" where
  "analyzeFilterKeyword z lastToken = (if lastToken = TK_RP \<and> fst (getToken z) = TK_LP then TK_FILTER else TK_ID)"

section \<open>White space and comments\<close>

lemma class_space: "class_of c = CC_SPACE \<longleftrightarrow> code c \<in> {9, 10, 12, 13, 32}"
proof -
  have "map (\<lambda>k. k = CC_SPACE) aiClass = map (\<lambda>n. n \<in> {9, 10, 12, 13, 32}) [0..<256]"
    by (simp add: upt_rec aiClass_def CC_defs)
  from table_class [OF this, of c] show ?thesis by simp
qed

lemma class_comment: "class_of (CHR ''-'') = CC_MINUS" "class_of (CHR ''/'') = CC_SLASH"
  by (simp_all add: class_of_def aiClass_def CC_defs)

text \<open>The text of a C comment does not contain the end of a comment.\<close>

fun no_close :: "string \<Rightarrow> bool" where
  "no_close (a # b # s) = (\<not> (a = CHR ''*'' \<and> b = CHR ''/'') \<and> no_close (b # s))"
| "no_close s = True"

text \<open>Text between tokens: blanks, line comments with their newline and closed C comments.\<close>

inductive blank_text :: "string \<Rightarrow> bool" where
  empty: "blank_text []"
| space: "class_of c = CC_SPACE \<Longrightarrow> blank_text w \<Longrightarrow> blank_text (c # w)"
| line: "CHR 0x00 \<notin> set s \<Longrightarrow> CHR 0x0A \<notin> set s \<Longrightarrow> blank_text w \<Longrightarrow> blank_text (''--'' @ s @ [CHR 0x0A] @ w)"
| block: "CHR 0x00 \<notin> set s \<Longrightarrow> no_close s \<Longrightarrow> blank_text w \<Longrightarrow> blank_text (''/*'' @ s @ ''*/'' @ w)"

lemma drop_scan: "i \<le> length z \<Longrightarrow> drop (scan P z i) z = dropWhile P (drop i z)"
proof (induction P z i rule: scan.induct)
  case (1 P z i)
  show ?case
  proof (cases "i < length z")
    case True
    then have "drop i z = zat z i # drop (i + 1) z" by (simp add: zat_def Cons_nth_drop_Suc)
    then show ?thesis using 1 True by (subst scan.simps) auto
  qed (use 1 in \<open>subst scan.simps, simp\<close>)
qed

lemma slash_over:
  "no_close (c # s) \<Longrightarrow> CHR 0x00 \<notin> set s \<Longrightarrow>
   slash_loop (p @ c # s @ ''*/'' @ r) (length p + 1) c = (length p + length s + 2, CHR ''*'')"
proof (induction s arbitrary: p c)
  case Nil
  have "slash_loop (p @ c # ''*/'' @ r) (length p + 1) c = slash_loop (p @ c # ''*/'' @ r) (length p + 2) (CHR ''*'')"
    by (subst slash_loop.simps) (simp add: zat_append zat_Cons)
  also have "\<dots> = (length p + 2, CHR ''*'')"
    by (subst slash_loop.simps) (simp add: zat_append zat_Cons numeral_2_eq_2)
  finally show ?case by simp
next
  case (Cons d s)
  have "slash_loop ((p @ [c]) @ d # s @ ''*/'' @ r) (length (p @ [c]) + 1) d = (length (p @ [c]) + length s + 2, CHR ''*'')"
    using Cons.prems by (intro Cons.IH) auto
  then show ?case using Cons.prems by (subst slash_loop.simps) (auto simp: zat_append zat_Cons)
qed

lemma block_token:
  assumes "no_close s" "CHR 0x00 \<notin> set s"
  shows "sqlite3GetToken (''/*'' @ s @ ''*/'' @ r) = (length s + 4, TK_COMMENT)"
proof -
  let ?z = "''/*'' @ s @ ''*/'' @ r"
  have "sqlite3GetToken ?z = tok_slash ?z" by (rule get_token_case) (simp add: zat_Cons class_comment)
  moreover have "slash_loop ?z 3 (zat ?z 2) = (length s + 3, CHR ''*'')"
  proof (cases s)
    case Nil
    then show ?thesis by (subst slash_loop.simps) (simp add: zat_def)
  next
    case (Cons c u)
    then show ?thesis using slash_over [of c u "''/*''" r] assms by (simp add: zat_def numeral_3_eq_3 numeral_2_eq_2)
  qed
  moreover have "zat ?z 1 = CHR ''*''" "zat ?z 2 \<noteq> CHR 0x00" using assms(2) by (cases s, auto simp: zat_def numeral_2_eq_2)+
  ultimately show ?thesis by (simp add: tok_slash_def)
qed

lemma getToken_skip:
  assumes "sqlite3GetToken z = (n, t)" "t = TK_SPACE \<or> t = TK_COMMENT"
  shows "getToken z = getToken (drop n z)"
  using assms by (subst getToken.simps) simp

lemma getToken_spaces:
  assumes "class_of c = CC_SPACE"
  shows "getToken (c # z) = getToken (dropWhile sqlite3Isspace z)"
proof -
  have "sqlite3GetToken (c # z) = tok_space (c # z)" using assms by (intro get_token_case) (simp add: zat_Cons)
  then show ?thesis
    using getToken_skip [of "c # z" "scan sqlite3Isspace (c # z) 1" TK_SPACE] drop_scan [of 1 "c # z" sqlite3Isspace]
    by (simp add: tok_space_def)
qed

lemma getToken_space:
  assumes "class_of c = CC_SPACE" "zat z 0 \<noteq> CHR 0x0B"
  shows "getToken (c # z) = getToken z"
proof (cases "sqlite3Isspace (zat z 0)")
  case False
  then show ?thesis using getToken_spaces [OF assms(1), of z] by (cases z) (simp_all add: zat_Cons)
next
  case True
  then obtain d u where z: "z = d # u" by (cases z) (auto simp: zat_def)
  have "class_of d = CC_SPACE"
    using True assms(2) of_char_eq_iff [of d "CHR 0x0B", where ?'a = nat] by (auto simp: z zat_Cons isspace_code class_space)
  then show ?thesis using getToken_spaces [OF assms(1), of z] getToken_spaces [of d u] True by (simp add: z zat_Cons)
qed

lemma blank_text_start: "blank_text w \<Longrightarrow> zat z 0 \<noteq> CHR 0x0B \<Longrightarrow> zat (w @ z) 0 \<noteq> CHR 0x0B"
  by (erule blank_text.cases) (auto simp: zat_Cons class_space)

lemma getToken_blank:
  assumes "blank_text w" "zat z 0 \<noteq> CHR 0x0B"
  shows "getToken (w @ z) = getToken z"
  using assms
proof (induction rule: blank_text.induct)
  case (space c w)
  then show ?case using getToken_space [of c "w @ z"] blank_text_start [of w z] by simp
next
  case (line s w)
  let ?z = "''--'' @ s @ [CHR 0x0A] @ w @ z" and ?P = "\<lambda>c. c \<noteq> CHR 0x00 \<and> c \<noteq> CHR 0x0A"
  have "sqlite3GetToken ?z = tok_minus ?z" by (rule get_token_case) (simp add: zat_Cons class_comment)
  then have t: "sqlite3GetToken ?z = (scan ?P ?z 2, TK_COMMENT)" by (simp add: tok_minus_def zat_Cons)
  have "dropWhile ?P (s @ [CHR 0x0A] @ w @ z) = [CHR 0x0A] @ w @ z"
    using line(1,2) by (subst dropWhile_append2) auto
  then have "drop (scan ?P ?z 2) ?z = [CHR 0x0A] @ w @ z"
    using drop_scan [of 2 ?z ?P] by (simp add: numeral_2_eq_2)
  then have "getToken ?z = getToken ([CHR 0x0A] @ w @ z)" using getToken_skip [OF t] by simp
  also have "\<dots> = getToken (w @ z)"
    using getToken_space [of "CHR 0x0A" "w @ z"] blank_text_start [of w z] line by (simp add: class_space)
  finally show ?case using line by simp
next
  case (block s w)
  have t: "sqlite3GetToken (''/*'' @ s @ ''*/'' @ w @ z) = (length s + 4, TK_COMMENT)" using block by (intro block_token)
  have "drop (length s + 4) (''/*'' @ s @ ''*/'' @ w @ z) = w @ z" by (simp add: numeral_eq_Suc)
  then have "getToken (''/*'' @ s @ ''*/'' @ w @ z) = getToken (w @ z)" using getToken_skip [OF t] by simp
  then show ?case using block by simp
qed simp


section \<open>Properties\<close>

text \<open>
  C31. The look-ahead does not see blanks and comments, whatever they contain; what it returns is
  never white space nor a token that could still fall back to an identifier, and the rest of the
  text is a suffix of the text.
\<close>

lemma getToken_suffix: "\<exists>p. z = p @ snd (getToken z)"
proof (induction z rule: getToken.induct)
  case (1 z)
  obtain n t where t: "sqlite3GetToken z = (n, t)" by force
  show ?case
  proof (cases "t = TK_SPACE \<or> t = TK_COMMENT")
    case True
    then obtain p where "drop n z = p @ snd (getToken (drop n z))" using 1 t by fastforce
    then have "z = (take n z @ p) @ snd (getToken z)"
      using getToken_skip [OF t True] by (metis append_assoc append_take_drop_id)
    then show ?thesis by blast
  next
    case False
    then have "snd (getToken z) = drop n z" using t by (subst getToken.simps) simp
    then show ?thesis by (metis append_take_drop_id)
  qed
qed

lemma getToken_normal:
  "fst (getToken z) \<noteq> TK_SPACE \<and> fst (getToken z) \<noteq> TK_COMMENT \<and> sqlite3ParserFallback (fst (getToken z)) \<noteq> TK_ID"
proof (induction z rule: getToken.induct)
  case (1 z)
  obtain n t where t: "sqlite3GetToken z = (n, t)" by force
  have id: "sqlite3ParserFallback TK_ID \<noteq> TK_ID" "TK_ID \<noteq> TK_SPACE" "TK_ID \<noteq> TK_COMMENT"
    by (simp_all add: sqlite3ParserFallback_def yyFallback_def TK_defs)
  show ?case
  proof (cases "t = TK_SPACE \<or> t = TK_COMMENT")
    case True
    then show ?thesis using 1 t getToken_skip [OF t True] by fastforce
  next
    case False
    then show ?thesis using t id by (subst (1 2 3) getToken.simps) auto
  qed
qed

theorem lookahead_ignores_blanks:
  assumes "blank_text w" "zat z 0 \<noteq> CHR 0x0B"
  shows "getToken (w @ z) = getToken z \<and> fst (getToken z) \<noteq> TK_SPACE \<and> fst (getToken z) \<noteq> TK_COMMENT \<and>
    sqlite3ParserFallback (fst (getToken z)) \<noteq> TK_ID \<and> (\<exists>p. z = p @ snd (getToken z))"
  using getToken_blank [OF assms] getToken_normal [of z] getToken_suffix [of z] by simp

theorem lookahead_ignores_blanks_witness:
  "getToken ('' /* a*b */ '' @ ''x'') = getToken ''x''"
proof -
  have "no_close '' a*b ''" by simp
  then have "blank_text (''/*'' @ '' a*b '' @ ''*/'' @ '' '')"
    by (intro blank_text.block blank_text.space blank_text.empty) (simp_all add: class_space)
  then have "blank_text (CHR '' '' # (''/*'' @ '' a*b '' @ ''*/'' @ '' ''))" by (rule blank_text.space [rotated]) (simp add: class_space)
  then show ?thesis using lookahead_ignores_blanks [of "'' /* a*b */ ''" "''x''"] by (simp add: zat_Cons)
qed







text \<open>
  A vertical tab continues white space but does not start it, so the tokens of a text depend on what
  stands before it.
\<close>

lemma vertical_tab: "sqlite3GetToken [CHR 0x0B] = (1, TK_ILLEGAL) \<and> sqlite3GetToken [CHR '' '', CHR 0x0B] = (2, TK_SPACE)"
proof -
  have "class_of (CHR 0x0B) = CC_ILLEGAL" "class_of (CHR '' '') = CC_SPACE" by (simp_all add: class_of_def aiClass_def CC_defs)
  moreover have "scan sqlite3Isspace [CHR '' '', CHR 0x0B] 1 = 2"
    by (simp add: scan.simps zat_def isspace_code numeral_2_eq_2)
  ultimately show ?thesis by (simp add: sqlite3GetToken_def zat_Cons CC_defs tok_space_def)
qed

end
