(* ===== verification/Arith.thy ===== *)
theory Arith
  imports Ctype "HOL-Library.Signed_Division" "HOL-Library.Monad_Syntax"
begin

text \<open>
  The integer helpers of \<open>util.c\<close>: the overflow-checked operations on \<open>i64\<close> (the branch compiled when
  the compiler builtins are not used), \<open>sqlite3AbsInt32\<close>, and the logarithmic estimates of the query
  planner.  Signed arithmetic that overflows is undefined in C: every intermediate result passes
  \<open>ck64\<close>, which gives \<open>None\<close> outside the type, so that a result \<open>Some\<close> is also the absence of undefined
  behaviour.
\<close>

section \<open>Checked arithmetic\<close>

definition LARGEST_INT64 :: int where "LARGEST_INT64 = 9223372036854775807"

definition SMALLEST_INT64 :: int where "SMALLEST_INT64 = - 1 - LARGEST_INT64"

definition is_i64 :: "int \<Rightarrow> bool" where
  "is_i64 x \<longleftrightarrow> SMALLEST_INT64 \<le> x \<and> x \<le> LARGEST_INT64"

definition ck64 :: "int \<Rightarrow> int option" where
  "ck64 x = (if is_i64 x then Some x else None)"

text \<open>Each operation returns its result code and the new value of \<open>*pA\<close>.\<close>

definition sqlite3AddInt64 :: "int \<Rightarrow> int \<Rightarrow> (int \<times> int) option" where
  "sqlite3AddInt64 iA iB =
    (if iB \<ge> 0 then do {
       over \<leftarrow> (if iA > 0 then do { d \<leftarrow> ck64 (LARGEST_INT64 - iA); Some (d < iB) } else Some False);
       if over then Some (1, iA) else do { s \<leftarrow> ck64 (iA + iB); Some (0, s) }
     } else do {
       under \<leftarrow> (if iA < 0 then do {
           a \<leftarrow> ck64 (iA + LARGEST_INT64); na \<leftarrow> ck64 (- a); b \<leftarrow> ck64 (iB + 1); Some (na > b) } else Some False);
       if under then Some (1, iA) else do { s \<leftarrow> ck64 (iA + iB); Some (0, s) }
     })"

definition sqlite3SubInt64 :: "int \<Rightarrow> int \<Rightarrow> (int \<times> int) option" where
  "sqlite3SubInt64 iA iB =
    (if iB = SMALLEST_INT64
     then if iA \<ge> 0 then Some (1, iA) else do { d \<leftarrow> ck64 (iA - iB); Some (0, d) }
     else do { nb \<leftarrow> ck64 (- iB); sqlite3AddInt64 iA nb })"

definition sqlite3MulInt64 :: "int \<Rightarrow> int \<Rightarrow> (int \<times> int) option" where
  "sqlite3MulInt64 iA iB = do {
     over \<leftarrow>
       (if iB > 0 then Some (iA > LARGEST_INT64 sdiv iB \<or> iA < SMALLEST_INT64 sdiv iB)
        else if iB < 0 then
          (if iA > 0 then Some (iB < SMALLEST_INT64 sdiv iA)
           else if iA < 0 then
             (if iB = SMALLEST_INT64 then Some True
              else if iA = SMALLEST_INT64 then Some True
              else do { na \<leftarrow> ck64 (- iA); nb \<leftarrow> ck64 (- iB); Some (na > LARGEST_INT64 sdiv nb) })
           else Some False)
        else Some False);
     if over then Some (1, iA) else do { p \<leftarrow> ck64 (iA * iB); Some (0, p) }
   }"

definition sqlite3AbsInt32 :: "int \<Rightarrow> int" where
  "sqlite3AbsInt32 x = (if x \<ge> 0 then x else if x = - 0x80000000 then 0x7fffffff else - x)"

section \<open>Logarithmic estimates\<close>

definition LogEstAdd_x :: "int list" where
  "LogEstAdd_x = [10, 10, 9, 9, 8, 8, 7, 7, 7, 6, 6, 6, 5, 5, 5, 4, 4, 4, 4, 3, 3, 3, 3, 3, 3, 2, 2, 2, 2, 2, 2, 2]"

text \<open>Indexing past the table would be out of bounds and gives \<open>None\<close>.\<close>

definition idx :: "'a list \<Rightarrow> nat \<Rightarrow> 'a option" where
  "idx xs i = (if i < length xs then Some (xs ! i) else None)"

definition sqlite3LogEstAdd :: "int \<Rightarrow> int \<Rightarrow> int option" where
  "sqlite3LogEstAdd a b =
    (if a \<ge> b then
       if a > b + 49 then Some a else if a > b + 31 then Some (a + 1)
       else do { x \<leftarrow> idx LogEstAdd_x (nat (a - b)); Some (a + x) }
     else
       if b > a + 49 then Some b else if b > a + 31 then Some (b + 1)
       else do { x \<leftarrow> idx LogEstAdd_x (nat (b - a)); Some (b + x) })"








section \<open>Overflow is detected exactly\<close>

lemmas i64_defs = is_i64_def ck64_def SMALLEST_INT64_def LARGEST_INT64_def

lemma add_ok:
  assumes "is_i64 a" "is_i64 b"
  shows "sqlite3AddInt64 a b = Some (if is_i64 (a + b) then (0, a + b) else (1, a))"
  using assms by (auto simp: sqlite3AddInt64_def i64_defs)

lemma sub_ok:
  assumes "is_i64 a" "is_i64 b"
  shows "sqlite3SubInt64 a b = Some (if is_i64 (a - b) then (0, a - b) else (1, a))"
proof (cases "b = SMALLEST_INT64")
  case True
  then show ?thesis using assms by (auto simp: sqlite3SubInt64_def i64_defs)
next
  case False
  then have "is_i64 (- b)" using assms(2) by (auto simp: i64_defs)
  then show ?thesis using False add_ok [OF assms(1), of "- b"] by (simp add: sqlite3SubInt64_def ck64_def)
qed

lemma div_less_iff: "0 < b \<Longrightarrow> m div b < a \<longleftrightarrow> m < a * b" for a b m :: int
proof
  assume b: "0 < b" and "m div b < a"
  then have "(m div b + 1) * b \<le> a * b" by (intro mult_right_mono) simp_all
  then have "m div b * b + b \<le> a * b" by (simp only: distrib_right mult_1)
  moreover have "m = m div b * b + m mod b" by simp
  ultimately show "m < a * b" using pos_mod_bound [OF b, of m] by linarith
next
  assume b: "0 < b" and "m < a * b"
  moreover have "m div b * b \<le> m" using pos_mod_sign [OF b, of m] div_mult_mod_eq [of m b] by linarith
  ultimately have "m div b * b < a * b" by linarith
  then show "m div b < a" by (rule mult_right_less_imp_less) (use b in simp)
qed

lemma sdiv_large: "0 < b \<Longrightarrow> LARGEST_INT64 sdiv b < a \<longleftrightarrow> LARGEST_INT64 < a * b"
  using div_less_iff [of b LARGEST_INT64 a] by (simp add: signed_divide_int_def LARGEST_INT64_def)

lemma sdiv_small: "0 < b \<Longrightarrow> a < SMALLEST_INT64 sdiv b \<longleftrightarrow> a * b < SMALLEST_INT64"
  using div_less_iff [of b "- SMALLEST_INT64" "- a"]
  by (simp add: signed_divide_int_def SMALLEST_INT64_def LARGEST_INT64_def less_minus_iff minus_less_iff)

lemma mult_neg_ge: "a \<le> - 1 \<Longrightarrow> b \<le> 0 \<Longrightarrow> - b \<le> a * b" for a b :: int
  using mult_right_mono_neg [of a "- 1" b] by simp

text \<open>The test the code makes in each case is exactly that the product leaves the type.\<close>

lemma mul_test:
  assumes "(if b > 0 then Some (a > LARGEST_INT64 sdiv b \<or> a < SMALLEST_INT64 sdiv b)
        else if b < 0 then
          (if a > 0 then Some (b < SMALLEST_INT64 sdiv a)
           else if a < 0 then
             (if b = SMALLEST_INT64 then Some True
              else if a = SMALLEST_INT64 then Some True
              else do { na \<leftarrow> ck64 (- a); nb \<leftarrow> ck64 (- b); Some (na > LARGEST_INT64 sdiv nb) })
           else Some False)
        else Some False) = Some (\<not> is_i64 (a * b))"
  shows "sqlite3MulInt64 a b = Some (if is_i64 (a * b) then (0, a * b) else (1, a))"
  unfolding sqlite3MulInt64_def assms by (simp add: ck64_def)

lemma SL: "SMALLEST_INT64 = - 1 - LARGEST_INT64" "0 < LARGEST_INT64"
  by (simp_all add: i64_defs)

lemma mul_ok:
  assumes "is_i64 a" "is_i64 b"
  shows "sqlite3MulInt64 a b = Some (if is_i64 (a * b) then (0, a * b) else (1, a))"
proof (rule mul_test)
  consider "b = 0 \<or> b < 0 \<and> a = 0" | "b > 0" | "b < 0" "a > 0" | "b < 0" "a < 0" by linarith
  then show "(if b > 0 then Some (a > LARGEST_INT64 sdiv b \<or> a < SMALLEST_INT64 sdiv b)
        else if b < 0 then
          (if a > 0 then Some (b < SMALLEST_INT64 sdiv a)
           else if a < 0 then
             (if b = SMALLEST_INT64 then Some True
              else if a = SMALLEST_INT64 then Some True
              else do { na \<leftarrow> ck64 (- a); nb \<leftarrow> ck64 (- b); Some (na > LARGEST_INT64 sdiv nb) })
           else Some False)
        else Some False) = Some (\<not> is_i64 (a * b))"
  proof cases
    case 1
    then show ?thesis by (auto simp: i64_defs signed_divide_int_def)
  next
    case 2
    then show ?thesis using sdiv_large [OF 2, of a] sdiv_small [OF 2, of a] by (simp add: is_i64_def) linarith
  next
    case 3
    then have "a * b \<le> 0" by (simp add: mult_nonneg_nonpos)
    then show ?thesis using 3 sdiv_small [OF 3(2), of b] SL by (simp add: is_i64_def mult.commute [of b a]) linarith
  next
    case 4
    show ?thesis
    proof (cases "a = SMALLEST_INT64 \<or> b = SMALLEST_INT64")
      case True
      have "- a \<le> a * b" "- b \<le> a * b" using 4 mult_neg_ge [of a b] mult_neg_ge [of b a] by (simp_all add: mult.commute)
      then have "\<not> is_i64 (a * b)" using True SL unfolding is_i64_def by linarith
      then show ?thesis using 4 True by auto
    next
      case False
      then have ck: "ck64 (- a) = Some (- a)" "ck64 (- b) = Some (- b)"
        using assms SL unfolding ck64_def is_i64_def by auto
      have "0 < a * b" using 4 by (simp add: mult_neg_neg)
      then have "\<not> is_i64 (a * b) \<longleftrightarrow> LARGEST_INT64 < a * b" using SL unfolding is_i64_def by linarith
      then show ?thesis using 4 False ck sdiv_large [of "- b" "- a"] by simp
    qed
  qed
qed

section \<open>Estimates\<close>

lemma idx_add:
  "length LogEstAdd_x = 32 \<and> list_all (\<lambda>d. LogEstAdd_x ! (d + 1) \<le> LogEstAdd_x ! d \<and> LogEstAdd_x ! d \<le> LogEstAdd_x ! (d + 1) + 1) [0..<31]
   \<and> LogEstAdd_x ! 0 = 10 \<and> LogEstAdd_x ! 31 = 2"
  by (simp add: LogEstAdd_x_def upt_rec)

text \<open>The correction that is added to the larger estimate, as a function of the distance.\<close>

definition logest_bump :: "nat \<Rightarrow> int" where
  "logest_bump d = (if d > 49 then 0 else if d > 31 then 1 else LogEstAdd_x ! d)"

lemma logestadd_eq: "sqlite3LogEstAdd a b = Some (max a b + logest_bump (nat \<bar>a - b\<bar>))"
  using idx_add by (auto simp: sqlite3LogEstAdd_def idx_def logest_bump_def abs_if)

lemma bump_step: "logest_bump (Suc d) \<le> logest_bump d \<and> logest_bump d \<le> logest_bump (Suc d) + 1"
proof (cases "d < 31")
  case True
  then show ?thesis using idx_add unfolding logest_bump_def list_all_iff by auto
next
  case False
  then show ?thesis using idx_add by (auto simp: logest_bump_def less_Suc_eq)
qed

lemma bump_anti: "d \<le> e \<Longrightarrow> logest_bump e \<le> logest_bump d \<and> logest_bump d \<le> logest_bump e + int (e - d)"
proof (induction e)
  case (Suc e)
  then show ?case using bump_step [of e] by (cases "d = Suc e") (auto simp: le_Suc_eq of_nat_diff)
qed simp

lemma bump_range: "0 \<le> logest_bump d \<and> logest_bump d \<le> 10"
  using bump_anti [of 0 d] bump_anti [of d "d + 50"] idx_add by (auto simp: logest_bump_def [of 0] logest_bump_def [of "d + 50"])











section \<open>Properties\<close>

text \<open>
  C25.  On all 64-bit operands the checked addition, subtraction and multiplication run without
  undefined behaviour, report an overflow exactly when the mathematical result does not fit, and
  store the exact result otherwise.
\<close>

theorem int64_arithmetic:
  assumes "is_i64 a" "is_i64 b"
  shows "sqlite3AddInt64 a b = Some (if is_i64 (a + b) then (0, a + b) else (1, a)) \<and>
    sqlite3SubInt64 a b = Some (if is_i64 (a - b) then (0, a - b) else (1, a)) \<and>
    sqlite3MulInt64 a b = Some (if is_i64 (a * b) then (0, a * b) else (1, a))"
  using add_ok [OF assms] sub_ok [OF assms] mul_ok [OF assms] by simp

theorem int64_arithmetic_witness:
  "sqlite3AddInt64 9223372036854775807 1 = Some (1, 9223372036854775807) \<and>
   sqlite3SubInt64 (- 1) (- 9223372036854775808) = Some (0, 9223372036854775807) \<and>
   sqlite3MulInt64 (- 9223372036854775808) (- 1) = Some (1, - 9223372036854775808)"
  using int64_arithmetic [of 9223372036854775807 1] int64_arithmetic [of "- 1" "- 9223372036854775808"]
    int64_arithmetic [of "- 9223372036854775808" "- 1"] by (simp add: i64_defs)

text \<open>
  \<open>sqlite3LogEstAdd\<close> never reads past its table, is commutative and monotone, and adds between 0
  and 10 to the larger estimate.
\<close>

theorem logestadd_monotone:
  "\<exists>r s. sqlite3LogEstAdd a b = Some r \<and> sqlite3LogEstAdd b a = Some r \<and> max a b \<le> r \<and> r \<le> max a b + 10 \<and>
    sqlite3LogEstAdd (a + int k) b = Some s \<and> r \<le> s"
proof -
  have "max a b + logest_bump (nat \<bar>a - b\<bar>) \<le> max (a + int k) b + logest_bump (nat \<bar>a + int k - b\<bar>)"
  proof (cases "a + int k \<le> b")
    case True
    then have "logest_bump (nat \<bar>a - b\<bar>) \<le> logest_bump (nat \<bar>a + int k - b\<bar>)" by (intro bump_anti [THEN conjunct1]) simp
    then show ?thesis using True by simp
  next
    case False
    show ?thesis
    proof (cases "a \<le> b")
      case True
      have "logest_bump (nat \<bar>a - b\<bar>) \<le> logest_bump 0" using bump_anti [of 0 "nat \<bar>a - b\<bar>"] by simp
      moreover have "logest_bump 0 \<le> logest_bump (nat \<bar>a + int k - b\<bar>) + int (nat \<bar>a + int k - b\<bar>)"
        using bump_anti [of 0 "nat \<bar>a + int k - b\<bar>"] by simp
      ultimately show ?thesis using True False by simp
    next
      case False
      moreover have "nat \<bar>a + int k - b\<bar> = nat \<bar>a - b\<bar> + k" using False by simp
      ultimately show ?thesis using bump_anti [of "nat \<bar>a - b\<bar>" "nat \<bar>a - b\<bar> + k"] by simp
    qed
  qed
  moreover define m where "m = max a b"
  moreover have "a \<le> m" "b \<le> m" by (simp_all add: m_def)
  ultimately show ?thesis using bump_range [of "nat \<bar>a - b\<bar>"]
    unfolding logestadd_eq max.commute [of b a] abs_minus_commute [of b a] m_def [symmetric] by simp
qed



end
