(* ===== verification/Numtext.thy ===== *)
theory Numtext
  imports Arith
begin

text \<open>
  Numbers as text (\<open>util.c\<close>): printing an \<open>i64\<close> and the readers of decimal and hexadecimal integers.
  \<open>sqlite3Atoi64\<close> reads bytes at \<open>zNum + i * incr\<close> in all three encodings; the other readers take
  zero-terminated strings, whose recursion stops at the terminator.
\<close>

section \<open>Printing\<close>

definition digit_char :: "nat \<Rightarrow> char" where "digit_char d = char_of (d + 48)"

text \<open>The loop that fills \<open>zTemp\<close> from index \<open>i\<close> downwards; below index 0 it would be out of bounds.\<close>

function itt_loop :: "nat \<Rightarrow> nat \<Rightarrow> string \<Rightarrow> (nat \<times> string) option" where
  "itt_loop x i z =
    (let z' = z[i := digit_char (x mod 10)]; x' = x div 10
     in if x' = 0 then Some (i, z') else if i = 0 then None else itt_loop x' (i - 1) z')"
  by auto
termination by (relation "measure fst") auto

declare itt_loop.simps [simp del]

text \<open>The bytes copied to \<open>zOut\<close>, terminator included, and the returned length.\<close>

definition sqlite3Int64ToText :: "int \<Rightarrow> (string \<times> nat) option" where
  "sqlite3Int64ToText v = do {
     x \<leftarrow> (if v < 0 then if v = SMALLEST_INT64 then Some (2 ^ 63) else map_option nat (ck64 (- v)) else Some (nat v));
     (i, z) \<leftarrow> itt_loop x 20 (replicate 22 (CHR 0x00));
     (i, z) \<leftarrow> (if v < 0 then if i = 0 then None else Some (i - 1, z[i - 1 := CHR ''-'']) else Some (i, z));
     Some (drop i z, 21 - i)
   }"

section \<open>Reading decimal text in three encodings\<close>

definition SQLITE_UTF8 :: nat where "SQLITE_UTF8 = 1"
definition SQLITE_UTF16LE :: nat where "SQLITE_UTF16LE = 2"
definition SQLITE_UTF16BE :: nat where "SQLITE_UTF16BE = 3"

text \<open>A loop that moves \<open>p\<close> forward while the character there satisfies \<open>P\<close> and \<open>p\<close> is before \<open>e\<close>.\<close>

function skip_while :: "(char \<Rightarrow> bool) \<Rightarrow> string \<Rightarrow> nat \<Rightarrow> nat \<Rightarrow> nat \<Rightarrow> nat" where
  "skip_while P z p e incr = (if 0 < incr \<and> p < e \<and> P (zat z p) then skip_while P z (p + incr) e incr else p)"
  by auto
termination by (relation "measure (\<lambda>(P, z, p, e, incr). e - p)") auto

function atoi_digits :: "string \<Rightarrow> nat \<Rightarrow> nat \<Rightarrow> nat \<Rightarrow> nat \<Rightarrow> u64 \<Rightarrow> nat \<times> u64" where
  "atoi_digits z p e incr i u =
    (let c = code (zat z (p + i))
     in if 0 < incr \<and> p + i < e \<and> 48 \<le> c \<and> c \<le> 57
        then atoi_digits z p e incr (i + incr) (u * 10 + of_nat c - 48) else (i, u))"
  by auto
termination by (relation "measure (\<lambda>(z, p, e, incr, i, u). e - (p + i))") (auto simp: Let_def)

function tail_nonspace :: "string \<Rightarrow> nat \<Rightarrow> nat \<Rightarrow> nat \<Rightarrow> bool" where
  "tail_nonspace z p e incr =
    (if \<not> sqlite3Isspace (zat z p) then True
     else if 0 < incr \<and> p + incr < e then tail_nonspace z (p + incr) e incr else False)"
  by auto
termination by (relation "measure (\<lambda>(z, p, e, incr). e - p)") auto

declare skip_while.simps [simp del] atoi_digits.simps [simp del] tail_nonspace.simps [simp del]

fun compare_loop :: "string \<Rightarrow> nat \<Rightarrow> nat \<Rightarrow> string \<Rightarrow> nat \<Rightarrow> int" where
  "compare_loop z p incr [] i = 0"
| "compare_loop z p incr (x # xs) i =
    (let c = (int (code (zat z (p + i * incr))) - int (code x)) * 10
     in if c = 0 then compare_loop z p incr xs (i + 1) else c)"

definition pow63 :: string where "pow63 = ''922337203685477580''"

definition compare2pow63 :: "string \<Rightarrow> nat \<Rightarrow> nat \<Rightarrow> int" where
  "compare2pow63 z p incr =
    (let c = compare_loop z p incr pow63 0
     in if c = 0 then int (code (zat z (p + 18 * incr))) - 56 else c)"

text \<open>The part after the encoding is known: result code and \<open>*pNum\<close>.\<close>

definition atoi64_core :: "string \<Rightarrow> nat \<Rightarrow> nat \<Rightarrow> nat \<Rightarrow> bool \<Rightarrow> int \<times> int" where
  "atoi64_core z p0 e incr nonNum =
    (let p1 = skip_while sqlite3Isspace z p0 e incr;
         neg = (p1 < e \<and> zat z p1 = CHR ''-'');
         p2 = (if p1 < e \<and> (zat z p1 = CHR ''-'' \<or> zat z p1 = CHR ''+'') then p1 + incr else p1);
         p3 = skip_while (\<lambda>c. c = CHR ''0'') z p2 e incr;
         (i, u) = atoi_digits z p3 e incr 0 0;
         limit = (if neg then SMALLEST_INT64 else LARGEST_INT64);
         num = (if int (unat u) > LARGEST_INT64 then limit else if neg then - int (unat u) else int (unat u));
         rc = (if i = 0 \<and> p2 = p3 then - 1 else if nonNum then 1
               else if p3 + i < e then (if tail_nonspace z (p3 + i) e incr then 1 else 0) else 0)
     in if i < 19 * incr then (rc, num)
        else let c = (if i > 19 * incr then 1 else compare2pow63 z p3 incr)
             in if c < 0 then (rc, num)
                else if c > 0 then (2, limit)
                else (if neg then rc else 3, limit))"

definition sqlite3Atoi64 :: "string \<Rightarrow> nat \<Rightarrow> nat \<Rightarrow> int \<times> int" where
  "sqlite3Atoi64 z len enc =
    (if enc = SQLITE_UTF8 then atoi64_core z 0 len 1 False
     else let len' = len div 2 * 2;
              i = skip_while (\<lambda>c. c = CHR 0x00) z (3 - enc) len' 2
          in atoi64_core z (enc mod 2) (i XOR 1) 2 (i < len'))"

section \<open>Readers of zero-terminated strings\<close>

definition sqlite3HexToInt :: "char \<Rightarrow> nat" where
  "sqlite3HexToInt h = (code h + 9 * (1 AND drop_bit 6 (code h))) AND 0xf"

definition strspn :: "string \<Rightarrow> string \<Rightarrow> nat" where
  "strspn z accept = length (takeWhile (\<lambda>c. c \<in> set accept) z)"

text \<open>The sign characters, spaces and digits that the decimal branch spans.\<close>

definition decimal_chars :: string where
  "decimal_chars = ''+- '' @ [CHR 0x0A, CHR 0x09] @ ''0123456789''"

definition sqlite3DecOrHexToI64 :: "string \<Rightarrow> int \<times> int" where
  "sqlite3DecOrHexToI64 z =
    (if zat z 0 = CHR ''0'' \<and> (zat z 1 = CHR ''x'' \<or> zat z 1 = CHR ''X'')
     then let s = dropWhile (\<lambda>c. c = CHR ''0'') (drop 2 z);
              ds = takeWhile sqlite3Isxdigit s;
              u = fold (\<lambda>c u. u * 16 + of_nat (sqlite3HexToInt c)) ds (0 :: u64)
          in (if length ds > 16 then 2 else if dropWhile sqlite3Isxdigit s \<noteq> [] then 1 else 0, sint u)
     else let n = 0x3fffffff AND strspn z decimal_chars;
              n' = (if n < length z then n + 1 else n)
          in sqlite3Atoi64 z n' SQLITE_UTF8)"

text \<open>The digit loops of \<open>sqlite3GetInt32\<close>: at most \<open>n\<close> digits, the accumulator and what follows.\<close>

fun getint_hex :: "nat \<Rightarrow> string \<Rightarrow> u32 \<Rightarrow> u32 \<times> string" where
  "getint_hex (Suc n) (c # z) u =
    (if sqlite3Isxdigit c then getint_hex n z (u * 16 + of_nat (sqlite3HexToInt c)) else (u, c # z))"
| "getint_hex n z u = (u, z)"

fun getint_dec :: "nat \<Rightarrow> string \<Rightarrow> nat \<Rightarrow> int \<Rightarrow> nat \<times> int" where
  "getint_dec (Suc n) (c # z) i v =
    (let d = int (code c) - 48 in if 0 \<le> d \<and> d \<le> 9 then getint_dec n z (i + 1) (v * 10 + d) else (i, v))"
| "getint_dec n z i v = (i, v)"

text \<open>\<open>None\<close> is the result 0, which leaves \<open>*pValue\<close> unset.\<close>

definition sqlite3GetInt32 :: "string \<Rightarrow> int option" where
  "sqlite3GetInt32 z0 =
    (if zat z0 0 = CHR ''0'' \<and> (zat z0 1 = CHR ''x'' \<or> zat z0 1 = CHR ''X'') \<and> sqlite3Isxdigit (zat z0 2)
     then let (u, rest) = getint_hex 8 (dropWhile (\<lambda>c. c = CHR ''0'') (drop 2 z0)) 0
          in if u AND 0x80000000 = 0 \<and> \<not> sqlite3Isxdigit (zat rest 0) then Some (uint u) else None
     else let neg = (zat z0 0 = CHR ''-'');
              z = (if zat z0 0 = CHR ''-'' \<or> zat z0 0 = CHR ''+'' then tl z0 else z0)
          in if \<not> sqlite3Isdigit (zat z 0) then None
             else let (i, v) = getint_dec 11 (dropWhile (\<lambda>c. c = CHR ''0'') z) 0 0
                  in if i > 10 then None
                     else if v - of_bool neg > 2147483647 then None
                     else Some (if neg then - v else v))"

definition sqlite3Atoi :: "string \<Rightarrow> int" where
  "sqlite3Atoi z = (case sqlite3GetInt32 z of None \<Rightarrow> 0 | Some v \<Rightarrow> v)"

text \<open>The loop of \<open>sqlite3GetUInt32\<close>; \<open>None\<close> is the early return.\<close>

fun getuint_loop :: "string \<Rightarrow> nat \<Rightarrow> nat \<Rightarrow> (nat \<times> nat \<times> string) option" where
  "getuint_loop (c # z) i v =
    (if sqlite3Isdigit c
     then let v' = v * 10 + code c - 48 in if v' > 4294967296 then None else getuint_loop z (i + 1) v'
     else Some (i, v, c # z))"
| "getuint_loop [] i v = Some (i, v, [])"

text \<open>The result and \<open>*pI\<close>.\<close>

definition sqlite3GetUInt32 :: "string \<Rightarrow> bool \<times> u32" where
  "sqlite3GetUInt32 z =
    (case getuint_loop z 0 0 of
       None \<Rightarrow> (False, 0)
     | Some (i, v, rest) \<Rightarrow> if i = 0 \<or> rest \<noteq> [] then (False, 0) else (True, of_nat v))"

section \<open>Decimal numbers\<close>

definition dec_value :: "string \<Rightarrow> nat" where
  "dec_value ds = foldl (\<lambda>n c. n * 10 + (code c - 48)) 0 ds"

definition hex_value :: "string \<Rightarrow> nat" where
  "hex_value ds = foldl (\<lambda>n c. n * 16 + sqlite3HexToInt c) 0 ds"

text \<open>What a reader of a 64-bit decimal integer promises, on the characters of the text.\<close>

definition atoi64_spec :: "string \<Rightarrow> bool \<Rightarrow> int \<times> int" where
  "atoi64_spec s nonNum =
    (let s1 = dropWhile sqlite3Isspace s;
         neg = (s1 \<noteq> [] \<and> hd s1 = CHR ''-'');
         s2 = (if s1 \<noteq> [] \<and> (hd s1 = CHR ''-'' \<or> hd s1 = CHR ''+'') then tl s1 else s1);
         ds = takeWhile sqlite3Isdigit s2; rest = dropWhile sqlite3Isdigit s2; n = int (dec_value ds);
         rc = (if ds = [] then - 1 else if nonNum \<or> \<not> list_all sqlite3Isspace rest then 1 else 0)
     in if n < 2 ^ 63 then (rc, if neg then - n else n)
        else if n = 2 ^ 63 \<and> neg then (rc, - n)
        else (if n = 2 ^ 63 then 3 else 2, if neg then SMALLEST_INT64 else LARGEST_INT64))"

text \<open>The characters that a reader at \<open>p\<close> with step \<open>incr\<close> sees before \<open>e\<close>.\<close>

definition sees :: "string \<Rightarrow> nat \<Rightarrow> nat \<Rightarrow> nat \<Rightarrow> string \<Rightarrow> bool" where
  "sees z p e incr s \<longleftrightarrow> 0 < incr \<and> (\<forall>k. p + k * incr < e \<longleftrightarrow> k < length s) \<and> (\<forall>k < length s. zat z (p + k * incr) = s ! k)"

lemma sees_Nil: "sees z p e incr [] \<Longrightarrow> \<not> p < e"
  unfolding sees_def by (metis add_0_right list.size(3) mult_0 not_less0)

lemma sees_Cons:
  assumes "sees z p e incr (c # s)"
  shows "p < e" "zat z p = c" "0 < incr" "sees z (p + incr) e incr s"
proof -
  show i: "0 < incr" using assms by (simp add: sees_def)
  have b: "p + k * incr < e \<longleftrightarrow> k < Suc (length s)" for k using assms by (simp add: sees_def)
  have v: "zat z (p + k * incr) = (c # s) ! k" if "k < Suc (length s)" for k using assms that by (simp add: sees_def)
  show "p < e" "zat z p = c" using b [of 0] v [of 0] by simp_all
  show "sees z (p + incr) e incr s" unfolding sees_def
  proof (intro conjI allI impI i)
    show "p + incr + k * incr < e \<longleftrightarrow> k < length s" for k using b [of "Suc k"] by (simp add: add.assoc)
    show "zat z (p + incr + k * incr) = s ! k" if "k < length s" for k using v [of "Suc k"] that by (simp add: add.assoc)
  qed
qed

lemma skip_while_sees:
  "sees z p e incr s \<Longrightarrow>
   skip_while P z p e incr = p + length (takeWhile P s) * incr \<and> sees z (skip_while P z p e incr) e incr (dropWhile P s)"
proof (induction s arbitrary: p)
  case Nil
  then show ?case using sees_Nil [OF Nil] by (simp add: skip_while.simps [of P z p])
next
  case (Cons c s)
  then show ?case using sees_Cons [OF Cons.prems] Cons.IH [of "p + incr"]
    by (auto simp: skip_while.simps [of P z p])
qed

lemma isdigit_range: "48 \<le> code c \<and> code c \<le> 57 \<longleftrightarrow> sqlite3Isdigit c"
  by (simp add: isdigit_code)

definition u_value :: "u64 \<Rightarrow> string \<Rightarrow> u64" where
  "u_value u ds = foldl (\<lambda>u c. u * 10 + of_nat (code c) - 48) u ds"

lemma atoi_digits_sees:
  "sees z (p + i) e incr s \<Longrightarrow>
   atoi_digits z p e incr i u = (i + length (takeWhile sqlite3Isdigit s) * incr, u_value u (takeWhile sqlite3Isdigit s)) \<and>
   sees z (p + (i + length (takeWhile sqlite3Isdigit s) * incr)) e incr (dropWhile sqlite3Isdigit s)"
proof (induction s arbitrary: i u)
  case Nil
  then show ?case using sees_Nil [OF Nil] by (simp add: atoi_digits.simps [of z p] u_value_def)
next
  case (Cons c s)
  note v = sees_Cons [OF Cons.prems]
  show ?case
  proof (cases "sqlite3Isdigit c")
    case True
    have "sees z (p + (i + incr)) e incr s" using v(4) by (simp add: add.assoc)
    from Cons.IH [OF this] True v(1-3) show ?thesis
      by (simp add: atoi_digits.simps [of z p e incr i] isdigit_range u_value_def add.assoc Let_def)
  next
    case False
    then show ?thesis using v Cons.prems
      by (simp add: atoi_digits.simps [of z p e incr i] isdigit_range u_value_def Let_def)
  qed
qed

lemma tail_nonspace_sees:
  "sees z p e incr s \<Longrightarrow> s \<noteq> [] \<Longrightarrow> tail_nonspace z p e incr \<longleftrightarrow> \<not> list_all sqlite3Isspace s"
proof (induction s arbitrary: p)
  case (Cons c s)
  note v = sees_Cons [OF Cons.prems(1)]
  have "p + incr < e \<longleftrightarrow> s \<noteq> []" using sees_Nil [of z "p + incr" e incr] sees_Cons(1) [of z "p + incr" e incr] v(4) by (cases s) auto
  then show ?case using v Cons.IH [OF v(4)] by (auto simp: tail_nonspace.simps [of z p])
qed simp

lemma dec_value_snoc: "dec_value (ds @ [c]) = dec_value ds * 10 + (code c - 48)"
  by (simp add: dec_value_def)

lemma dec_value_acc: "foldl (\<lambda>n c. n * 10 + (code c - 48)) m ds = m * 10 ^ length ds + dec_value ds"
proof (induction ds arbitrary: m)
  case (Cons c ds)
  have "dec_value (c # ds) = (code c - 48) * 10 ^ length ds + dec_value ds"
    using Cons.IH [of "code c - 48"] by (simp add: dec_value_def)
  then show ?case using Cons.IH [of "m * 10 + (code c - 48)"] by (simp add: add_mult_distrib)
qed (simp add: dec_value_def)

lemma dec_value_Cons: "dec_value (c # ds) = (code c - 48) * 10 ^ length ds + dec_value ds"
  using dec_value_acc [of "code c - 48" ds] by (simp add: dec_value_def)

lemma dec_value_zeros: "list_all (\<lambda>c. c = CHR ''0'') zs \<Longrightarrow> dec_value (zs @ ds) = dec_value ds"
  by (induction zs) (simp_all add: dec_value_Cons)

lemma dec_value_bound: "list_all sqlite3Isdigit ds \<Longrightarrow> dec_value ds < 10 ^ length ds"
proof (induction ds)
  case (Cons c ds)
  then have "code c - 48 \<le> 9" by (simp add: isdigit_code, linarith)
  then have "(code c - 48) * 10 ^ length ds \<le> 9 * 10 ^ length ds" by (rule mult_le_mono1)
  moreover have "dec_value ds < 10 ^ length ds" using Cons by simp
  ultimately show ?case unfolding dec_value_Cons list.size(4) add_Suc_right add_0_right power_Suc by linarith
qed (simp add: dec_value_def)

lemma dec_value_lower:
  assumes "list_all sqlite3Isdigit (c # ds)" "c \<noteq> CHR ''0''"
  shows "10 ^ length ds \<le> dec_value (c # ds)"
proof -
  have "code c \<noteq> code (CHR ''0'')" using assms(2) by (metis of_char_eq_iff)
  then have "1 \<le> code c - 48" using assms(1) by (simp add: isdigit_code, linarith)
  then have "1 * 10 ^ length ds \<le> (code c - 48) * 10 ^ length ds" by (rule mult_le_mono1)
  then show ?thesis unfolding dec_value_Cons by linarith
qed

lemma u_value_dec:
  assumes "list_all sqlite3Isdigit ds"
  shows "u_value (of_nat m) ds = of_nat (foldl (\<lambda>n c. n * 10 + (code c - 48)) m ds)"
  using assms
proof (induction ds arbitrary: m)
  case (Cons c ds)
  have eq: "of_nat m * 10 + of_nat (code c) - 48 = (of_nat (m * 10 + (code c - 48)) :: u64)"
    using Cons.prems by (simp add: isdigit_code of_nat_diff)
  then have "u_value (of_nat m) (c # ds) = u_value (of_nat (m * 10 + (code c - 48))) ds"
    by (simp only: u_value_def foldl_Cons eq)
  then show ?case using Cons.IH [of "m * 10 + (code c - 48)"] Cons.prems by simp
qed (simp add: u_value_def)

lemma u_value_small:
  assumes "list_all sqlite3Isdigit ds" "length ds \<le> 19"
  shows "unat (u_value 0 ds) = dec_value ds"
proof -
  have "dec_value ds < 10 ^ length ds" by (rule dec_value_bound [OF assms(1)])
  also have "\<dots> \<le> 10 ^ 19" using assms(2) by (rule power_increasing) simp
  finally have "dec_value ds < 2 ^ 64" by simp
  then show ?thesis using u_value_dec [OF assms(1), of 0] by (simp add: dec_value_def unat_of_nat)
qed

text \<open>Comparing digit by digit is comparing the numbers.\<close>

lemma compare_loop_digits:
  assumes "\<forall>k < length xs. zat z (p + (i + k) * incr) = ds ! k" "length ds = length xs"
    "list_all sqlite3Isdigit ds" "list_all sqlite3Isdigit xs"
  shows "(compare_loop z p incr xs i = 0 \<longleftrightarrow> ds = xs) \<and>
    (compare_loop z p incr xs i < 0 \<longrightarrow> dec_value ds < dec_value xs) \<and>
    (0 < compare_loop z p incr xs i \<longrightarrow> dec_value xs < dec_value ds)"
  using assms
proof (induction xs arbitrary: i ds)
  case (Cons x xs)
  obtain d ds' where ds: "ds = d # ds'" using Cons.prems(2) by (cases ds) auto
  have z0: "zat z (p + i * incr) = d" using Cons.prems(1) ds by force
  have z1: "\<forall>k < length xs. zat z (p + (i + 1 + k) * incr) = ds' ! k"
  proof (intro allI impI)
    fix k assume "k < length xs"
    then have "zat z (p + (i + Suc k) * incr) = ds ! Suc k" using Cons.prems(1) by (simp del: add_Suc_right)
    then show "zat z (p + (i + 1 + k) * incr) = ds' ! k" by (simp add: ds)
  qed
  have len: "length ds' = length xs" using Cons.prems(2) ds by simp
  have dig: "list_all sqlite3Isdigit ds'" "list_all sqlite3Isdigit xs" "sqlite3Isdigit d" "sqlite3Isdigit x"
    using Cons.prems(3,4) ds by simp_all
  have IH: "(compare_loop z p incr xs (i + 1) = 0 \<longleftrightarrow> ds' = xs) \<and>
    (compare_loop z p incr xs (i + 1) < 0 \<longrightarrow> dec_value ds' < dec_value xs) \<and>
    (0 < compare_loop z p incr xs (i + 1) \<longrightarrow> dec_value xs < dec_value ds')"
    by (rule Cons.IH [OF z1 len dig(1,2)])
  have eq: "code d = code x \<longleftrightarrow> d = x" by simp
  have less: "dec_value (a # as) < dec_value (b # bs)"
    if "code a < code b" "sqlite3Isdigit a" "length as = length bs" "list_all sqlite3Isdigit as" for a b as bs
  proof -
    have "(code a - 48 + 1) * 10 ^ length as \<le> (code b - 48) * 10 ^ length as"
      using that(1,2) by (intro mult_le_mono1) (simp add: isdigit_code, linarith)
    moreover have "(code a - 48 + 1) * 10 ^ length as = (code a - 48) * 10 ^ length as + 10 ^ length as" by simp
    ultimately show ?thesis using dec_value_bound [OF that(4)] unfolding dec_value_Cons that(3) by linarith
  qed
  consider "d = x" | "code d < code x" | "code x < code d" using eq by linarith
  then show ?case
  proof cases
    case 1
    then show ?thesis using IH len by (simp add: z0 ds dec_value_Cons)
  next
    case 2
    then show ?thesis using less [OF 2 dig(3) len dig(1)] by (auto simp: z0 ds Let_def)
  next
    case 3
    then show ?thesis using less [OF 3 dig(4) len [symmetric] dig(2)] by (auto simp: z0 ds Let_def)
  qed
qed simp

lemma pow63_facts: "length pow63 = 18" "list_all sqlite3Isdigit pow63" "dec_value pow63 = 922337203685477580"
  by (simp_all add: pow63_def isdigit_code dec_value_def)

lemma compare2pow63_ok:
  assumes "\<forall>k < 19. zat z (p + k * incr) = ds ! k" "length ds = 19" "list_all sqlite3Isdigit ds"
  shows "(compare2pow63 z p incr < 0 \<longleftrightarrow> dec_value ds < 2 ^ 63) \<and> (compare2pow63 z p incr = 0 \<longleftrightarrow> dec_value ds = 2 ^ 63)"
proof -
  obtain a d where ds: "ds = a @ [d]" using assms(2) by (cases ds rule: rev_exhaust) auto
  have a: "length a = length pow63" "list_all sqlite3Isdigit a" and d: "48 \<le> code d" "code d \<le> 57"
    using assms(2,3) ds by (simp_all add: pow63_facts isdigit_code)
  have "\<forall>k < length pow63. zat z (p + (0 + k) * incr) = a ! k"
    using assms(1) a(1) by (simp add: ds nth_append pow63_facts)
  note c = compare_loop_digits [OF this a pow63_facts(2)]
  have z18: "zat z (p + 18 * incr) = d" using assms(1) [rule_format, of 18] a(1) by (simp add: ds nth_append pow63_facts)
  have v: "dec_value ds = dec_value a * 10 + (code d - 48)" by (simp add: ds dec_value_snoc)
  show ?thesis using c d unfolding compare2pow63_def Let_def v z18 pow63_facts(3)
    by (cases "compare_loop z p incr pow63 0 = 0") (auto simp: pow63_facts)
qed

section \<open>The reader of 64-bit integers meets its specification\<close>

lemma takeWhile_append_all: "list_all P xs \<Longrightarrow> takeWhile P (xs @ ys) = xs @ takeWhile P ys"
  by (induction xs) simp_all

lemma dropWhile_append_all: "list_all P xs \<Longrightarrow> dropWhile P (xs @ ys) = dropWhile P ys"
  by (induction xs) simp_all

lemma digits_strip:
  fixes s2 :: string
  defines "zs \<equiv> takeWhile (\<lambda>c. c = CHR ''0'') s2" and "s3 \<equiv> dropWhile (\<lambda>c. c = CHR ''0'') s2"
  shows "takeWhile sqlite3Isdigit s2 = zs @ takeWhile sqlite3Isdigit s3"
    "dropWhile sqlite3Isdigit s2 = dropWhile sqlite3Isdigit s3"
    "dec_value (takeWhile sqlite3Isdigit s2) = dec_value (takeWhile sqlite3Isdigit s3)"
    "takeWhile sqlite3Isdigit s3 \<noteq> [] \<Longrightarrow> hd (takeWhile sqlite3Isdigit s3) \<noteq> CHR ''0''"
proof -
  have s: "s2 = zs @ s3" by (simp add: zs_def s3_def)
  have z: "list_all (\<lambda>c. c = CHR ''0'') zs" unfolding zs_def by (auto simp: list_all_iff dest: set_takeWhileD)
  have zd: "list_all sqlite3Isdigit zs"
    by (rule list.pred_mono_strong [OF z]) (simp add: isdigit_code)
  show 1: "takeWhile sqlite3Isdigit s2 = zs @ takeWhile sqlite3Isdigit s3" unfolding s using zd by (rule takeWhile_append_all)
  show "dropWhile sqlite3Isdigit s2 = dropWhile sqlite3Isdigit s3" unfolding s using zd by (rule dropWhile_append_all)
  show "dec_value (takeWhile sqlite3Isdigit s2) = dec_value (takeWhile sqlite3Isdigit s3)"
    unfolding 1 using z by (rule dec_value_zeros)
  have "s3 = [] \<or> hd s3 \<noteq> CHR ''0''" unfolding s3_def using hd_dropWhile [of "\<lambda>c. c = CHR ''0''" s2] by blast
  then show "takeWhile sqlite3Isdigit s3 \<noteq> [] \<Longrightarrow> hd (takeWhile sqlite3Isdigit s3) \<noteq> CHR ''0''"
    by (cases s3) (auto split: if_splits)
qed

lemma sees_hd: "sees z p e incr s \<Longrightarrow> p < e \<longleftrightarrow> s \<noteq> []"
  using sees_Nil sees_Cons(1) by (cases s) auto

lemma sees_first: "sees z p e incr s \<Longrightarrow> s \<noteq> [] \<Longrightarrow> zat z p = hd s"
  using sees_Cons(2) by (cases s) auto

lemma sees_tl: "sees z p e incr s \<Longrightarrow> s \<noteq> [] \<Longrightarrow> sees z (p + incr) e incr (tl s)"
  using sees_Cons(4) by (cases s) auto

text \<open>The magnitude tests on the digits, leading zeros removed.\<close>

lemma magnitude:
  assumes "list_all sqlite3Isdigit ds" "ds \<noteq> [] \<Longrightarrow> hd ds \<noteq> CHR ''0''"
  shows "length ds < 19 \<Longrightarrow> dec_value ds < 2 ^ 63" "19 < length ds \<Longrightarrow> 2 ^ 63 < dec_value ds"
proof -
  assume l: "length ds < 19"
  have "dec_value ds < 10 ^ length ds" by (rule dec_value_bound [OF assms(1)])
  also have "\<dots> \<le> 10 ^ 18" using l by (intro power_increasing) simp_all
  finally show "dec_value ds < 2 ^ 63" by simp
next
  assume l: "19 < length ds"
  then obtain c cs where ds: "ds = c # cs" by (cases ds) auto
  have "10 ^ 19 \<le> (10 :: nat) ^ length cs" using l ds by (intro power_increasing) simp_all
  also have "\<dots> \<le> dec_value ds" unfolding ds using assms ds by (intro dec_value_lower) simp_all
  finally show "2 ^ 63 < dec_value ds" by simp
qed

lemma atoi64_core_ok:
  assumes "sees z p e incr s"
  shows "atoi64_core z p e incr nonNum = atoi64_spec s nonNum"
proof -
  define s1 where "s1 = dropWhile sqlite3Isspace s"
  define p1 where "p1 = skip_while sqlite3Isspace z p e incr"
  have v1: "sees z p1 e incr s1" unfolding p1_def s1_def using skip_while_sees [OF assms] by blast
  define neg where "neg = (s1 \<noteq> [] \<and> hd s1 = CHR ''-'')"
  have neg: "(p1 < e \<and> zat z p1 = CHR ''-'') = neg"
    using sees_hd [OF v1] sees_first [OF v1] by (auto simp: neg_def)
  define s2 where "s2 = (if s1 \<noteq> [] \<and> (hd s1 = CHR ''-'' \<or> hd s1 = CHR ''+'') then tl s1 else s1)"
  define p2 where "p2 = (if p1 < e \<and> (zat z p1 = CHR ''-'' \<or> zat z p1 = CHR ''+'') then p1 + incr else p1)"
  have v2: "sees z p2 e incr s2"
    using v1 sees_tl [OF v1] sees_hd [OF v1] sees_first [OF v1] by (auto simp: p2_def s2_def)
  define s3 where "s3 = dropWhile (\<lambda>c. c = CHR ''0'') s2"
  define p3 where "p3 = skip_while (\<lambda>c. c = CHR ''0'') z p2 e incr"
  have v3: "sees z p3 e incr s3" and p3: "p3 = p2 + length (takeWhile (\<lambda>c. c = CHR ''0'') s2) * incr"
    unfolding p3_def s3_def using skip_while_sees [OF v2] by blast+
  have i: "0 < incr" using assms by (simp add: sees_def)
  define ds where "ds = takeWhile sqlite3Isdigit s3"
  define rest where "rest = dropWhile sqlite3Isdigit s3"
  have dig: "atoi_digits z p3 e incr 0 0 = (length ds * incr, u_value 0 ds)" and v4: "sees z (p3 + length ds * incr) e incr rest"
    using atoi_digits_sees [of z p3 0 e incr s3 0] v3 by (simp_all add: ds_def rest_def)
  note strip = digits_strip [of s2, folded s3_def, folded ds_def rest_def]
  have ds: "list_all sqlite3Isdigit ds" "ds \<noteq> [] \<Longrightarrow> hd ds \<noteq> CHR ''0''"
    using strip(4) by (auto simp: ds_def list_all_iff dest: set_takeWhileD)
  have empty: "length ds * incr = 0 \<and> p2 = p3 \<longleftrightarrow> takeWhile sqlite3Isdigit s2 = []"
    using i by (auto simp: strip(1) p3)
  define rc where "rc = (if takeWhile sqlite3Isdigit s2 = [] then - 1 else if nonNum \<or> \<not> list_all sqlite3Isspace rest then 1 else 0 :: int)"
  have rc: "(if length ds * incr = 0 \<and> p2 = p3 then - 1 else if nonNum then 1
      else if p3 + length ds * incr < e then (if tail_nonspace z (p3 + length ds * incr) e incr then 1 else 0) else 0) = rc"
    unfolding empty rc_def using sees_hd [OF v4] tail_nonspace_sees [OF v4] by (cases "rest = []") simp_all
  have core: "atoi64_core z p e incr nonNum =
    (if length ds * incr < 19 * incr
     then (rc, if LARGEST_INT64 < int (unat (u_value 0 ds)) then if neg then SMALLEST_INT64 else LARGEST_INT64
               else if neg then - int (unat (u_value 0 ds)) else int (unat (u_value 0 ds)))
     else let c = (if length ds * incr > 19 * incr then 1 else compare2pow63 z p3 incr)
          in if c < 0 then (rc, if LARGEST_INT64 < int (unat (u_value 0 ds)) then if neg then SMALLEST_INT64 else LARGEST_INT64
               else if neg then - int (unat (u_value 0 ds)) else int (unat (u_value 0 ds)))
             else if c > 0 then (2, if neg then SMALLEST_INT64 else LARGEST_INT64)
             else (if neg then rc else 3, if neg then SMALLEST_INT64 else LARGEST_INT64))"
    unfolding atoi64_core_def Let_def p1_def [symmetric] neg p2_def [symmetric] p3_def [symmetric] dig prod.case rc ..
  have spec: "atoi64_spec s nonNum =
    (if int (dec_value ds) < 2 ^ 63 then (rc, if neg then - int (dec_value ds) else int (dec_value ds))
     else if int (dec_value ds) = 2 ^ 63 \<and> neg then (rc, - int (dec_value ds))
     else (if int (dec_value ds) = 2 ^ 63 then 3 else 2, if neg then SMALLEST_INT64 else LARGEST_INT64))"
    unfolding atoi64_spec_def Let_def s1_def [symmetric] s2_def [symmetric] neg_def [symmetric] strip(2,3) rc_def [symmetric] ..
  have L: "LARGEST_INT64 = 2 ^ 63 - 1" "SMALLEST_INT64 = - (2 ^ 63)" by (simp_all add: LARGEST_INT64_def SMALLEST_INT64_def)
  consider "length ds < 19" | "length ds = 19" | "19 < length ds" by linarith
  then show ?thesis
  proof cases
    case 1
    then show ?thesis using magnitude(1) [OF ds] u_value_small [OF ds(1)] i unfolding core spec L by auto
  next
    case 2
    note len = 2
    have "zat z (p3 + k * incr) = ds ! k" if "k < 19" for k
    proof -
      have "k < length s3" using that len length_takeWhile_le [of sqlite3Isdigit s3] by (simp add: ds_def)
      moreover have "ds ! k = s3 ! k" unfolding ds_def using that len by (intro takeWhile_nth) (simp add: ds_def)
      ultimately show ?thesis using v3 by (simp add: sees_def)
    qed
    then have c: "compare2pow63 z p3 incr < 0 \<longleftrightarrow> dec_value ds < 2 ^ 63" "compare2pow63 z p3 incr = 0 \<longleftrightarrow> dec_value ds = 2 ^ 63"
      using compare2pow63_ok [of z p3 incr ds] len ds(1) by blast+
    have u: "unat (u_value 0 ds) = dec_value ds" using u_value_small [OF ds(1)] len by simp
    consider "dec_value ds < 2 ^ 63" | "dec_value ds = 2 ^ 63" | "2 ^ 63 < dec_value ds" by linarith
    then show ?thesis
    proof cases
      case 1
      then show ?thesis using len c u unfolding core spec L by simp
    next
      case 2
      then show ?thesis using len c unfolding core spec L by simp
    next
      case 3
      then have "0 < compare2pow63 z p3 incr" using c by linarith
      then show ?thesis using len 3 unfolding core spec L by auto
    qed
  next
    case 3
    then show ?thesis using magnitude(2) [OF ds 3] i unfolding core spec L by auto
  qed
qed

text \<open>The bytes of UTF-16 text given as pairs of a high and a low byte.\<close>

definition utf16_bytes :: "nat \<Rightarrow> (char \<times> char) list \<Rightarrow> string" where
  "utf16_bytes enc cs = concat (map (\<lambda>(hi, lo). if enc = SQLITE_UTF16LE then [lo, hi] else [hi, lo]) cs)"

lemma length_utf16 [simp]: "length (utf16_bytes enc cs) = 2 * length cs"
  by (induction cs) (auto simp: utf16_bytes_def)

lemma utf16_nth:
  "k < length cs \<Longrightarrow> utf16_bytes enc cs ! (2 * k) = (if enc = SQLITE_UTF16LE then snd (cs ! k) else fst (cs ! k)) \<and>
   utf16_bytes enc cs ! (2 * k + 1) = (if enc = SQLITE_UTF16LE then fst (cs ! k) else snd (cs ! k))"
proof (induction cs arbitrary: k)
  case (Cons c cs)
  have b: "utf16_bytes enc (c # cs) = (if enc = SQLITE_UTF16LE then [snd c, fst c] else [fst c, snd c]) @ utf16_bytes enc cs"
    by (simp add: utf16_bytes_def split_beta)
  show ?case
  proof (cases k)
    case 0
    then show ?thesis by (simp add: b)
  next
    case (Suc n)
    then show ?thesis using Cons.IH [of n] Cons.prems b by (cases "enc = SQLITE_UTF16LE") simp_all
  qed
qed simp

lemma skip_high:
  assumes "enc = SQLITE_UTF16LE \<or> enc = SQLITE_UTF16BE" "j \<le> length cs"
  shows "skip_while (\<lambda>c. c = CHR 0x00) (utf16_bytes enc cs) (2 * j + (3 - enc)) (2 * length cs) 2
    = 2 * (j + length (takeWhile (\<lambda>(hi, lo). hi = CHR 0x00) (drop j cs))) + (3 - enc)"
  using assms(2)
proof (induction "length cs - j" arbitrary: j)
  case 0
  then show ?case using assms(1)
    by (subst skip_while.simps) (auto simp: SQLITE_UTF16LE_def SQLITE_UTF16BE_def)
next
  case (Suc n)
  then have j: "j < length cs" by simp
  have z: "zat (utf16_bytes enc cs) (2 * j + (3 - enc)) = fst (cs ! j)"
    using utf16_nth [OF j, of enc] j assms(1) by (auto simp: zat_def SQLITE_UTF16LE_def SQLITE_UTF16BE_def)
  have d: "drop j cs = cs ! j # drop (Suc j) cs" using j by (simp add: Cons_nth_drop_Suc)
  have lt: "2 * j + (3 - enc) < 2 * length cs" using j assms(1) by (auto simp: SQLITE_UTF16LE_def SQLITE_UTF16BE_def)
  have next_j: "2 * j + (3 - enc) + 2 = 2 * Suc j + (3 - enc)" by simp
  show ?case
  proof (cases "fst (cs ! j) = CHR 0x00")
    case True
    have "skip_while (\<lambda>c. c = CHR 0x00) (utf16_bytes enc cs) (2 * j + (3 - enc)) (2 * length cs) 2
      = skip_while (\<lambda>c. c = CHR 0x00) (utf16_bytes enc cs) (2 * Suc j + (3 - enc)) (2 * length cs) 2"
      by (subst skip_while.simps) (simp only: z True lt next_j if_True simp_thms zero_less_numeral)
    then show ?thesis using Suc.hyps(1) [of "Suc j"] Suc.hyps(2) j True by (simp add: d split_beta)
  next
    case False
    then have "skip_while (\<lambda>c. c = CHR 0x00) (utf16_bytes enc cs) (2 * j + (3 - enc)) (2 * length cs) 2 = 2 * j + (3 - enc)"
      by (subst skip_while.simps) (simp only: z simp_thms if_False)
    then show ?thesis using False by (simp add: d split_beta)
  qed
qed

lemma xor_one: "(2 * k + 1) XOR 1 = 2 * k" "(2 * k) XOR 1 = 2 * k + 1" for k :: nat
  by (simp_all add: xor_Suc_0_eq)

lemma atoi64_utf16_ok:
  fixes cs :: "(char \<times> char) list"
  assumes "enc = SQLITE_UTF16LE \<or> enc = SQLITE_UTF16BE"
  defines "good \<equiv> takeWhile (\<lambda>(hi, lo). hi = CHR 0x00) cs"
  shows "sqlite3Atoi64 (utf16_bytes enc cs) (2 * length cs) enc = atoi64_spec (map snd good) (good \<noteq> cs)"
proof -
  let ?z = "utf16_bytes enc cs"
  define i where "i = skip_while (\<lambda>c. c = CHR 0x00) ?z (3 - enc) (2 * length cs) 2"
  have i: "i = 2 * length good + (3 - enc)" using skip_high [OF assms(1), of 0] by (simp add: i_def good_def)
  have len: "length good \<le> length cs" unfolding good_def by (rule length_takeWhile_le)
  have nn: "i < 2 * length cs \<longleftrightarrow> good \<noteq> cs"
  proof
    assume "i < 2 * length cs" then show "good \<noteq> cs" using i assms(1) by (auto simp: SQLITE_UTF16LE_def SQLITE_UTF16BE_def)
  next
    assume "good \<noteq> cs"
    then have "length good \<noteq> length cs" unfolding good_def by (metis takeWhile_eq_take take_all order_refl)
    then show "i < 2 * length cs" using len i assms(1) by (auto simp: SQLITE_UTF16LE_def SQLITE_UTF16BE_def)
  qed
  have e: "i XOR 1 = 2 * length good + enc mod 2"
    using assms(1) xor_one [of "length good"] by (auto simp: i SQLITE_UTF16LE_def SQLITE_UTF16BE_def)
  have "sees ?z (enc mod 2) (i XOR 1) 2 (map snd good)"
    unfolding sees_def e
  proof (intro conjI allI impI)
    fix k assume "k < length (map snd good)"
    then have k: "k < length cs" "good ! k = cs ! k" using len by (simp_all add: good_def takeWhile_nth)
    then show "zat ?z (enc mod 2 + k * 2) = map snd good ! k"
      using utf16_nth [OF k(1), of enc] assms(1) \<open>k < length (map snd good)\<close>
      by (auto simp: zat_def SQLITE_UTF16LE_def SQLITE_UTF16BE_def mult.commute [of k 2])
  qed (use assms(1) in \<open>auto simp: SQLITE_UTF16LE_def SQLITE_UTF16BE_def\<close>)
  then have "atoi64_core ?z (enc mod 2) (i XOR 1) 2 (i < 2 * length cs) = atoi64_spec (map snd good) (good \<noteq> cs)"
    using atoi64_core_ok nn by simp
  moreover have "sqlite3Atoi64 ?z (2 * length cs) enc = atoi64_core ?z (enc mod 2) (i XOR 1) 2 (i < 2 * length cs)"
    using assms(1) unfolding sqlite3Atoi64_def i_def Let_def
    by (auto simp: SQLITE_UTF8_def SQLITE_UTF16LE_def SQLITE_UTF16BE_def mult.commute)
  ultimately show ?thesis by simp
qed

lemma atoi64_utf8_ok: "sqlite3Atoi64 z (length z) SQLITE_UTF8 = atoi64_spec z False"
proof -
  have "sees z 0 (length z) 1 z" by (simp add: sees_def zat_def)
  from atoi64_core_ok [OF this] show ?thesis by (simp add: sqlite3Atoi64_def)
qed

section \<open>Printed numbers\<close>

fun dec_digits :: "nat \<Rightarrow> string" where
  "dec_digits n = (if n < 10 then [digit_char n] else dec_digits (n div 10) @ [digit_char (n mod 10)])"

declare dec_digits.simps [simp del]

lemma code_digit_char: "d < 10 \<Longrightarrow> code (digit_char d) = d + 48"
  by (simp add: digit_char_def)

lemma dec_digits_ok: "dec_value (dec_digits n) = n \<and> list_all sqlite3Isdigit (dec_digits n) \<and> dec_digits n \<noteq> []"
proof (induction n rule: dec_digits.induct)
  case (1 n)
  have "n mod 10 \<le> 9" by linarith
  with 1 show ?case
    by (subst (1 2 3) dec_digits.simps)
      (simp add: dec_value_snoc code_digit_char isdigit_code [of "digit_char _"] dec_value_def [of "[digit_char n]"])
qed

lemma length_dec_digits: "n < 10 ^ Suc k \<Longrightarrow> length (dec_digits n) \<le> Suc k"
proof (induction k arbitrary: n)
  case (Suc k)
  then have "n div 10 < 10 ^ Suc k" by (simp add: less_mult_imp_div_less)
  then show ?case using Suc.IH [of "n div 10"] by (subst dec_digits.simps) simp
qed (simp add: dec_digits.simps)

lemma drop_update: "i < length z \<Longrightarrow> drop i (z[i := c]) = c # drop (Suc i) z"
  by (metis Cons_nth_drop_Suc drop_update_cancel length_list_update lessI nth_list_update_eq)

lemma itt_loop_ok:
  "length (dec_digits x) \<le> Suc i \<Longrightarrow> i < length z \<Longrightarrow>
   \<exists>z'. itt_loop x i z = Some (Suc i - length (dec_digits x), z') \<and> length z' = length z \<and>
     drop (Suc i - length (dec_digits x)) z' = dec_digits x @ drop (Suc i) z"
proof (induction x i z rule: itt_loop.induct)
  case (1 x i z)
  let ?z = "z[i := digit_char (x mod 10)]"
  have d: "drop i ?z = digit_char (x mod 10) # drop (Suc i) z" by (rule drop_update [OF 1(3)])
  show ?case
  proof (cases "x < 10")
    case True
    then show ?thesis using d by (simp add: itt_loop.simps [of x] dec_digits.simps [of x] Let_def)
  next
    case False
    have l: "length (dec_digits x) = Suc (length (dec_digits (x div 10)))" using False by (subst dec_digits.simps) simp
    moreover have "dec_digits (x div 10) \<noteq> []" using dec_digits_ok by blast
    ultimately have i: "i \<noteq> 0" using 1(2) by (cases i) auto
    have h: "x div 10 \<noteq> 0" "length (dec_digits (x div 10)) \<le> Suc (i - 1)" "i - 1 < length ?z"
      using False 1(2,3) l i by simp_all
    obtain z' where z': "itt_loop (x div 10) (i - 1) ?z = Some (Suc (i - 1) - length (dec_digits (x div 10)), z')" "length z' = length z"
      "drop (Suc (i - 1) - length (dec_digits (x div 10))) z' = dec_digits (x div 10) @ drop (Suc (i - 1)) ?z"
      using 1(1) [OF refl refl h(1) i h(2,3)] by auto
    have "dec_digits x = dec_digits (x div 10) @ [digit_char (x mod 10)]" using False by (subst dec_digits.simps) simp
    then show ?thesis using z' d l i False by (simp add: itt_loop.simps [of x i] Let_def)
  qed
qed

text \<open>The decimal text of an integer.\<close>

definition dec_text :: "int \<Rightarrow> string" where
  "dec_text v = (if v < 0 then ''-'' else []) @ dec_digits (nat \<bar>v\<bar>)"

lemma Int64ToText_ok:
  assumes "is_i64 v"
  shows "sqlite3Int64ToText v = Some (dec_text v @ [CHR 0x00], length (dec_text v)) \<and> length (dec_text v) \<le> 20"
proof -
  define x where "x = nat \<bar>v\<bar>"
  have x: "(if v < 0 then if v = SMALLEST_INT64 then Some (2 ^ 63) else map_option nat (ck64 (- v)) else Some (nat v)) = Some x"
    using assms by (auto simp: x_def i64_defs)
  have "x < 10 ^ Suc 18" using assms by (auto simp: x_def i64_defs)
  then have l: "length (dec_digits x) \<le> 19" using length_dec_digits [of x 18] by simp
  obtain z where z: "itt_loop x 20 (replicate 22 (CHR 0x00)) = Some (21 - length (dec_digits x), z)" "length z = 22"
    "drop (21 - length (dec_digits x)) z = dec_digits x @ [CHR 0x00]"
    using itt_loop_ok [of x 20 "replicate 22 (CHR 0x00)"] l by auto
  show ?thesis
  proof (cases "v < 0")
    case True
    let ?i = "21 - length (dec_digits x)"
    have "drop (?i - 1) (z[?i - 1 := CHR ''-'']) = CHR ''-'' # drop ?i z"
    proof -
      have "Suc (?i - 1) = ?i" "?i - 1 < length z" using l z(2) by simp_all
      then show ?thesis using drop_update [of "?i - 1" z "CHR ''-''"] by (simp only:)
    qed
    then show ?thesis using True x z l unfolding sqlite3Int64ToText_def dec_text_def x_def [symmetric]
      by (simp add: Suc_diff_le)
  next
    case False
    then show ?thesis using x z l unfolding sqlite3Int64ToText_def dec_text_def x_def [symmetric] by simp
  qed
qed

lemma takeWhile_list_all: "list_all P xs \<Longrightarrow> takeWhile P xs = xs" "list_all P xs \<Longrightarrow> dropWhile P xs = []"
  by (induction xs) simp_all

lemma dec_text_parts:
  "dropWhile sqlite3Isspace (dec_text v) = dec_text v" "dec_text v \<noteq> []"
  "hd (dec_text v) = CHR ''-'' \<longleftrightarrow> v < 0" "hd (dec_text v) \<noteq> CHR ''+''"
  "v < 0 \<Longrightarrow> tl (dec_text v) = dec_digits (nat \<bar>v\<bar>)" "\<not> v < 0 \<Longrightarrow> dec_text v = dec_digits (nat \<bar>v\<bar>)"
proof -
  obtain d ds where d: "dec_digits (nat \<bar>v\<bar>) = d # ds" "sqlite3Isdigit d"
    using dec_digits_ok [of "nat \<bar>v\<bar>"] by (cases "dec_digits (nat \<bar>v\<bar>)") auto
  have c: "\<not> sqlite3Isspace d" "d \<noteq> CHR ''-''" "d \<noteq> CHR ''+''" "\<not> sqlite3Isspace (CHR ''-'')"
    using d(2) by (auto simp: isdigit_code isspace_code)
  show "dropWhile sqlite3Isspace (dec_text v) = dec_text v" "dec_text v \<noteq> []"
    "hd (dec_text v) = CHR ''-'' \<longleftrightarrow> v < 0" "hd (dec_text v) \<noteq> CHR ''+''"
    unfolding dec_text_def d(1) using c by simp_all
  show "v < 0 \<Longrightarrow> tl (dec_text v) = dec_digits (nat \<bar>v\<bar>)" "\<not> v < 0 \<Longrightarrow> dec_text v = dec_digits (nat \<bar>v\<bar>)"
    by (simp_all add: dec_text_def)
qed

lemma atoi64_dec_text:
  assumes "is_i64 v"
  shows "atoi64_spec (dec_text v) False = (0, v)"
proof -
  let ?ds = "dec_digits (nat \<bar>v\<bar>)"
  have s2: "(if dec_text v \<noteq> [] \<and> (hd (dec_text v) = CHR ''-'' \<or> hd (dec_text v) = CHR ''+'') then tl (dec_text v) else dec_text v) = ?ds"
    using dec_text_parts [of v] by auto
  have neg: "(dec_text v \<noteq> [] \<and> hd (dec_text v) = CHR ''-'') = (v < 0)" using dec_text_parts [of v] by auto
  have ds: "takeWhile sqlite3Isdigit ?ds = ?ds" "dropWhile sqlite3Isdigit ?ds = []" "?ds \<noteq> []" "dec_value ?ds = nat \<bar>v\<bar>"
    using dec_digits_ok [of "nat \<bar>v\<bar>"] takeWhile_list_all [of sqlite3Isdigit ?ds] by auto
  show ?thesis unfolding atoi64_spec_def Let_def dec_text_parts(1) neg s2 ds(1,2,4)
    using ds(3) assms by (auto simp: i64_defs)
qed

section \<open>The readers of 32-bit integers\<close>

lemma dec_loop_ok:
  "getint_dec n z i v = (i + length (take n (takeWhile sqlite3Isdigit z)),
     foldl (\<lambda>v c. v * 10 + (int (code c) - 48)) v (take n (takeWhile sqlite3Isdigit z)))"
proof (induction n z i v rule: getint_dec.induct)
  case (1 n c z i v)
  have "0 \<le> int (code c) - 48 \<and> int (code c) - 48 \<le> 9 \<longleftrightarrow> sqlite3Isdigit c" by (auto simp: isdigit_code)
  then show ?case using 1 by (simp add: Let_def)
qed simp_all

lemma int_dec_value:
  "list_all sqlite3Isdigit ds \<Longrightarrow> foldl (\<lambda>v c. v * 10 + (int (code c) - 48)) (int m) ds = int (foldl (\<lambda>n c. n * 10 + (code c - 48)) m ds)"
proof (induction ds arbitrary: m)
  case (Cons c ds)
  have e: "int m * 10 + (int (code c) - 48) = int (m * 10 + (code c - 48))"
    using Cons.prems by (simp add: isdigit_code of_nat_diff)
  then show ?case using Cons by (simp only: foldl_Cons e list.pred_inject)
qed simp

lemma and_15: "n AND 15 = n mod (16 :: nat)"
proof -
  have "n AND 15 = take_bit 4 n" by (simp add: take_bit_eq_mask mask_eq_exp_minus_1)
  then show ?thesis by (simp add: take_bit_eq_mod)
qed

text \<open>The value of a hexadecimal digit.\<close>

lemma hex_digit:
  "sqlite3Isdigit c \<Longrightarrow> sqlite3HexToInt c = code c - 48"
  "65 \<le> code c \<Longrightarrow> code c \<le> 70 \<Longrightarrow> sqlite3HexToInt c = code c - 55"
  "97 \<le> code c \<Longrightarrow> code c \<le> 102 \<Longrightarrow> sqlite3HexToInt c = code c - 87"
proof -
  have d: "\<forall>n \<in> set [48..<58]. (n + 9 * (1 AND drop_bit 6 n)) AND 15 = (n :: nat) - 48"
    and u: "\<forall>n \<in> set [65..<71]. (n + 9 * (1 AND drop_bit 6 n)) AND 15 = (n :: nat) - 55"
    and l: "\<forall>n \<in> set [97..<103]. (n + 9 * (1 AND drop_bit 6 n)) AND 15 = (n :: nat) - 87"
    by (simp_all add: upt_rec)
  show "sqlite3Isdigit c \<Longrightarrow> sqlite3HexToInt c = code c - 48"
    unfolding sqlite3HexToInt_def by (rule bspec [OF d]) (simp add: isdigit_code del: upt_rec_numeral)
  show "65 \<le> code c \<Longrightarrow> code c \<le> 70 \<Longrightarrow> sqlite3HexToInt c = code c - 55"
    unfolding sqlite3HexToInt_def by (rule bspec [OF u]) (simp del: upt_rec_numeral)
  show "97 \<le> code c \<Longrightarrow> code c \<le> 102 \<Longrightarrow> sqlite3HexToInt c = code c - 87"
    unfolding sqlite3HexToInt_def by (rule bspec [OF l]) (simp del: upt_rec_numeral)
qed

lemma hex_range: "sqlite3HexToInt c < 16" "sqlite3Isxdigit c \<Longrightarrow> c \<noteq> CHR ''0'' \<Longrightarrow> 1 \<le> sqlite3HexToInt c"
proof -
  show "sqlite3HexToInt c < 16" by (simp add: sqlite3HexToInt_def and_15)
  assume x: "sqlite3Isxdigit c" and "c \<noteq> CHR ''0''"
  then have "code c \<noteq> code (CHR ''0'')" by (metis of_char_eq_iff)
  then have ne: "code c \<noteq> 48" by simp
  consider "sqlite3Isdigit c" | "65 \<le> code c" "code c \<le> 70" | "97 \<le> code c" "code c \<le> 102"
    using x by (auto simp: isxdigit_code isdigit_code)
  then show "1 \<le> sqlite3HexToInt c"
  proof cases
    case 1
    then show ?thesis using ne by (simp add: hex_digit isdigit_code, linarith)
  next
    case 2
    then show ?thesis using hex_digit(2) [OF 2] by linarith
  next
    case 3
    then show ?thesis using hex_digit(3) [OF 3] by linarith
  qed
qed

lemma hex_value_acc: "foldl (\<lambda>n c. n * 16 + sqlite3HexToInt c) m ds = m * 16 ^ length ds + hex_value ds"
proof (induction ds arbitrary: m)
  case (Cons c ds)
  have "hex_value (c # ds) = sqlite3HexToInt c * 16 ^ length ds + hex_value ds"
    using Cons.IH [of "sqlite3HexToInt c"] by (simp add: hex_value_def)
  then show ?case using Cons.IH [of "m * 16 + sqlite3HexToInt c"] by (simp add: add_mult_distrib)
qed (simp add: hex_value_def)

lemma hex_value_Cons: "hex_value (c # ds) = sqlite3HexToInt c * 16 ^ length ds + hex_value ds"
  using hex_value_acc [of "sqlite3HexToInt c" ds] by (simp add: hex_value_def)

lemma hex_value_bound: "hex_value ds < 16 ^ length ds"
proof (induction ds)
  case (Cons c ds)
  have "sqlite3HexToInt c * 16 ^ length ds \<le> 15 * 16 ^ length ds"
    using hex_range(1) [of c] by (intro mult_le_mono1) linarith
  then show ?case using Cons unfolding hex_value_Cons list.size(4) add_Suc_right add_0_right power_Suc by linarith
qed (simp add: hex_value_def)

lemma hex_value_lower:
  assumes "sqlite3Isxdigit c" "c \<noteq> CHR ''0''"
  shows "16 ^ length ds \<le> hex_value (c # ds)"
proof -
  have "1 * 16 ^ length ds \<le> sqlite3HexToInt c * 16 ^ length ds" using hex_range(2) [OF assms] by (rule mult_le_mono1)
  then show ?thesis unfolding hex_value_Cons by linarith
qed

lemma hex_loop_ok:
  "getint_hex n z u = (foldl (\<lambda>u c. u * 16 + of_nat (sqlite3HexToInt c)) u (take n (takeWhile sqlite3Isxdigit z)),
     drop (length (take n (takeWhile sqlite3Isxdigit z))) z)"
  by (induction n z u rule: getint_hex.induct) simp_all

lemma hex_value_word:
  "foldl (\<lambda>u c. u * 16 + of_nat (sqlite3HexToInt c)) (of_nat m) ds = (of_nat (foldl (\<lambda>n c. n * 16 + sqlite3HexToInt c) m ds) :: 'a::len word)"
proof (induction ds arbitrary: m)
  case (Cons c ds)
  have "of_nat m * 16 + of_nat (sqlite3HexToInt c) = (of_nat (m * 16 + sqlite3HexToInt c) :: 'a word)" by simp
  then show ?case using Cons by (simp only: foldl_Cons)
qed simp

text \<open>What \<open>sqlite3GetInt32\<close> promises.\<close>

definition getint32_spec :: "string \<Rightarrow> int option" where
  "getint32_spec z =
    (if zat z 0 = CHR ''0'' \<and> (zat z 1 = CHR ''x'' \<or> zat z 1 = CHR ''X'') \<and> sqlite3Isxdigit (zat z 2)
     then let n = hex_value (takeWhile sqlite3Isxdigit (drop 2 z)) in if n < 2 ^ 31 then Some (int n) else None
     else let neg = (zat z 0 = CHR ''-'');
              ds = takeWhile sqlite3Isdigit (if zat z 0 = CHR ''-'' \<or> zat z 0 = CHR ''+'' then tl z else z);
              v = (if neg then - int (dec_value ds) else int (dec_value ds))
          in if ds = [] then None else if - (2 ^ 31) \<le> v \<and> v < 2 ^ 31 then Some v else None)"

lemma top_bit: "u AND 0x80000000 = 0 \<longleftrightarrow> uint u < 2 ^ 31" for u :: u32
proof -
  have e: "(0x80000000 :: u32) = 2 ^ 31" by simp
  have "u AND 0x80000000 = 0 \<longleftrightarrow> \<not> bit u 31" by (simp only: e and_exp_eq_0_iff_not_bit)
  also have "\<dots> \<longleftrightarrow> uint u < 2 ^ 31" using bit_last_iff [of u] sint_u32 [of u] uint_bounded [of u] by auto
  finally show ?thesis .
qed

lemma strip_zeros:
  fixes P :: "char \<Rightarrow> bool" and z :: string
  assumes "P (CHR ''0'')"
  defines "s \<equiv> dropWhile (\<lambda>c. c = CHR ''0'') z"
  obtains zs where "list_all (\<lambda>c. c = CHR ''0'') zs" "takeWhile P z = zs @ takeWhile P s"
    "takeWhile P s \<noteq> [] \<Longrightarrow> hd (takeWhile P s) \<noteq> CHR ''0''"
proof
  let ?zs = "takeWhile (\<lambda>c. c = CHR ''0'') z"
  show z: "list_all (\<lambda>c. c = CHR ''0'') ?zs" by (auto simp: list_all_iff dest: set_takeWhileD)
  have "list_all P ?zs" by (rule list.pred_mono_strong [OF z]) (use assms(1) in simp)
  then have "takeWhile P (?zs @ s) = ?zs @ takeWhile P s" by (rule takeWhile_append_all)
  then show "takeWhile P z = ?zs @ takeWhile P s" unfolding s_def by simp
  have "s = [] \<or> hd s \<noteq> CHR ''0''" unfolding s_def using hd_dropWhile [of "\<lambda>c. c = CHR ''0''" z] by blast
  then show "takeWhile P s \<noteq> [] \<Longrightarrow> hd (takeWhile P s) \<noteq> CHR ''0''" by (cases s) (auto split: if_splits)
qed

lemma hex_value_zeros: "list_all (\<lambda>c. c = CHR ''0'') zs \<Longrightarrow> hex_value (zs @ ds) = hex_value ds"
proof (induction zs)
  case (Cons c zs)
  have "sqlite3HexToInt (CHR ''0'') = 0" using hex_digit(1) [of "CHR ''0''"] by (simp add: isdigit_code)
  then show ?case using Cons by (simp add: hex_value_Cons)
qed simp

lemma zat_0: "zat z 0 = (if z = [] then CHR 0x00 else hd z)"
  by (cases z) (simp_all add: zat_def)

lemma getint32_hex:
  "(let (u, rest) = getint_hex 8 (dropWhile (\<lambda>c. c = CHR ''0'') z) 0
    in if u AND 0x80000000 = 0 \<and> \<not> sqlite3Isxdigit (zat rest 0) then Some (uint u) else None)
   = (let n = hex_value (takeWhile sqlite3Isxdigit z) in if n < 2 ^ 31 then Some (int n) else None)"
proof -
  define s where "s = dropWhile (\<lambda>c. c = CHR ''0'') z"
  define ds where "ds = takeWhile sqlite3Isxdigit s"
  obtain zs where zs: "list_all (\<lambda>c. c = CHR ''0'') zs" "takeWhile sqlite3Isxdigit z = zs @ ds"
    "ds \<noteq> [] \<Longrightarrow> hd ds \<noteq> CHR ''0''"
    by (rule strip_zeros [of sqlite3Isxdigit z]) (auto simp: s_def ds_def isxdigit_code)
  have all: "list_all sqlite3Isxdigit ds" unfolding ds_def by (auto simp: list_all_iff dest: set_takeWhileD)
  have n: "hex_value (takeWhile sqlite3Isxdigit z) = hex_value ds" unfolding zs(2) by (rule hex_value_zeros [OF zs(1)])
  have g: "getint_hex 8 s 0 = (of_nat (hex_value (take 8 ds)), drop (length (take 8 ds)) s)"
    using hex_value_word [of 0 "take 8 ds"] by (simp add: hex_loop_ok ds_def hex_value_def)
  show ?thesis
  proof (cases "length ds \<le> 8")
    case True
    then have "hex_value ds < 16 ^ 8" using hex_value_bound [of ds] power_increasing [OF True, of "16 :: nat"] by simp
    then have "unat (of_nat (hex_value ds) :: u32) = hex_value ds" by (simp add: unat_of_nat)
    then have u: "uint (of_nat (hex_value ds) :: u32) = int (hex_value ds)" by (metis uint_nat)
    have "drop (length ds) s = dropWhile sqlite3Isxdigit s" unfolding ds_def by (simp add: dropWhile_eq_drop)
    then have nx: "\<not> sqlite3Isxdigit (zat (drop (length ds) s) 0)"
      using hd_dropWhile [of sqlite3Isxdigit s] by (auto simp: zat_0 isxdigit_code)
    have "int (hex_value ds) < 2 ^ 31 \<longleftrightarrow> hex_value ds < 2 ^ 31" by simp
    then show ?thesis using nx unfolding s_def [symmetric] g n Let_def prod.case top_bit take_all [OF True] u by simp
  next
    case False
    have "s ! 8 = ds ! 8" "8 < length s" unfolding ds_def using False length_takeWhile_le [of sqlite3Isxdigit s]
      by (simp_all add: ds_def takeWhile_nth)
    moreover have "sqlite3Isxdigit (ds ! 8)" using all False by (simp add: list_all_length)
    ultimately have x: "sqlite3Isxdigit (zat (drop (length (take 8 ds)) s) 0)" using False by (simp add: zat_def)
    obtain c cs where c: "ds = c # cs" using False by (cases ds) auto
    then have "(16 :: nat) ^ 8 \<le> 16 ^ length cs" using False by (intro power_increasing) simp_all
    also have "\<dots> \<le> hex_value ds" unfolding c using all zs(3) c by (intro hex_value_lower) simp_all
    finally show ?thesis using x unfolding s_def [symmetric] g n by simp
  qed
qed

lemma getint32_dec:
  "(if \<not> sqlite3Isdigit (zat z 0) then None
    else let (i, v) = getint_dec 11 (dropWhile (\<lambda>c. c = CHR ''0'') z) 0 0
         in if i > 10 then None else if v - of_bool neg > 2147483647 then None else Some (if neg then - v else v))
   = (let ds = takeWhile sqlite3Isdigit z; v = (if neg then - int (dec_value ds) else int (dec_value ds))
      in if ds = [] then None else if - (2 ^ 31) \<le> v \<and> v < 2 ^ 31 then Some v else None)"
proof -
  define s where "s = dropWhile (\<lambda>c. c = CHR ''0'') z"
  define ds where "ds = takeWhile sqlite3Isdigit s"
  obtain zs where zs: "list_all (\<lambda>c. c = CHR ''0'') zs" "takeWhile sqlite3Isdigit z = zs @ ds"
    "ds \<noteq> [] \<Longrightarrow> hd ds \<noteq> CHR ''0''"
    by (rule strip_zeros [of sqlite3Isdigit z]) (auto simp: s_def ds_def isdigit_code)
  have all: "list_all sqlite3Isdigit ds" unfolding ds_def by (auto simp: list_all_iff dest: set_takeWhileD)
  have n: "dec_value (takeWhile sqlite3Isdigit z) = dec_value ds" unfolding zs(2) by (rule dec_value_zeros [OF zs(1)])
  have e: "takeWhile sqlite3Isdigit z = [] \<longleftrightarrow> \<not> sqlite3Isdigit (zat z 0)"
    by (cases z) (auto simp: zat_def isdigit_code)
  have "list_all sqlite3Isdigit (take 11 ds)" using all by (auto simp: list_all_iff dest: in_set_takeD)
  then have g: "getint_dec 11 s 0 0 = (length (take 11 ds), int (dec_value (take 11 ds)))"
    using int_dec_value [of "take 11 ds" 0] by (simp add: dec_loop_ok ds_def dec_value_def)
  show ?thesis
  proof (cases "length ds \<le> 10")
    case True
    then show ?thesis unfolding Let_def s_def [symmetric] g prod.case n e by auto
  next
    case False
    obtain c cs where c: "ds = c # cs" using False by (cases ds) auto
    then have "(10 :: nat) ^ 10 \<le> 10 ^ length cs" using False by (intro power_increasing) simp_all
    also have "\<dots> \<le> dec_value ds" unfolding c using all zs(3) c by (intro dec_value_lower) simp_all
    finally show ?thesis using False unfolding Let_def s_def [symmetric] g prod.case n e by auto
  qed
qed

lemma getint32_ok: "sqlite3GetInt32 z = getint32_spec z"
  unfolding sqlite3GetInt32_def getint32_spec_def getint32_hex Let_def [of "zat z 0 = CHR ''-''"]
    Let_def [of "if zat z 0 = CHR ''-'' \<or> zat z 0 = CHR ''+'' then tl z else z"] getint32_dec ..

lemma getuint_loop_ok:
  "v \<le> 4294967296 \<Longrightarrow> getuint_loop z i v =
    (let ds = takeWhile sqlite3Isdigit z; n = v * 10 ^ length ds + dec_value ds
     in if n \<le> 4294967296 then Some (i + length ds, n, dropWhile sqlite3Isdigit z) else None)"
proof (induction z i v rule: getuint_loop.induct)
  case (1 c z i v)
  show ?case
  proof (cases "sqlite3Isdigit c")
    case True
    define w where "w = v * 10 + (code c - 48)"
    have w: "v * 10 + code c - 48 = w" using True by (simp add: w_def isdigit_code)
    let ?ds = "takeWhile sqlite3Isdigit z"
    have n: "v * 10 ^ length (c # ?ds) + dec_value (c # ?ds) = w * 10 ^ length ?ds + dec_value ?ds"
      by (simp add: dec_value_Cons w_def add_mult_distrib)
    have "w \<le> w * 10 ^ length ?ds" by simp
    then have big: "4294967296 < w \<Longrightarrow> 4294967296 < w * 10 ^ length ?ds + dec_value ?ds" by linarith
    show ?thesis
    proof (cases "4294967296 < w")
      assume w_big: "4294967296 < w"
      show ?thesis using True w_big big [OF w_big] n by (simp add: Let_def w)
    next
      assume "\<not> 4294967296 < w"
      then show ?thesis using 1(1) [OF True w [symmetric]] True n by (simp add: Let_def w)
    qed
  next
    case False
    then show ?thesis using 1(2) by (simp add: Let_def dec_value_def)
  qed
qed (simp add: dec_value_def Let_def)

text \<open>Hexadecimal literals: the value modulo \<open>2 ^ 64\<close> as a signed number, an error beyond 16 significant digits.\<close>

lemma decOrHex_hex:
  assumes "list_all sqlite3Isxdigit ds" "x = CHR ''x'' \<or> x = CHR ''X''"
  shows "sqlite3DecOrHexToI64 (CHR ''0'' # x # ds) =
    (if length (dropWhile (\<lambda>c. c = CHR ''0'') ds) > 16 then 2 else 0, sint (of_nat (hex_value ds) :: u64))"
proof -
  let ?s = "dropWhile (\<lambda>c. c = CHR ''0'') ds"
  have "list_all sqlite3Isxdigit ?s" using assms(1) by (auto simp: list_all_iff dest: set_dropWhileD)
  note tw = takeWhile_list_all [OF this]
  have "ds = takeWhile (\<lambda>c. c = CHR ''0'') ds @ ?s" by simp
  moreover have "list_all (\<lambda>c. c = CHR ''0'') (takeWhile (\<lambda>c. c = CHR ''0'') ds)"
    by (auto simp: list_all_iff dest: set_takeWhileD)
  ultimately have h: "hex_value ds = hex_value ?s" by (metis hex_value_zeros)
  have "fold (\<lambda>c u. u * 16 + of_nat (sqlite3HexToInt c)) ?s (0 :: u64) = of_nat (hex_value ?s)"
    using hex_value_word [of 0 ?s] by (simp add: foldl_conv_fold hex_value_def)
  then show ?thesis using assms(2) by (auto simp: sqlite3DecOrHexToI64_def zat_def Let_def tw h)
qed

text \<open>
  Decimal text is cut at the first character that \<open>strspn\<close> does not span, plus one: text behind a
  carriage return, a form feed or a vertical tab is not looked at.
\<close>

lemma decOrHex_ignores_tail: "sqlite3DecOrHexToI64 (''12'' @ [CHR 0x0D] @ ''abc'') = (0, 12)"
proof -
  let ?z = "''12'' @ [CHR 0x0D] @ ''abc''"
  have "strspn ?z decimal_chars = 2" by (simp add: strspn_def decimal_chars_def)
  moreover have "(0x3fffffff :: nat) AND 2 = 2" by simp
  ultimately have "sqlite3DecOrHexToI64 ?z = sqlite3Atoi64 ?z 3 SQLITE_UTF8"
    by (simp add: sqlite3DecOrHexToI64_def zat_def)
  moreover have "sees ?z 0 3 1 (''12'' @ [CHR 0x0D])"
    by (auto simp: sees_def zat_def nth_Cons' less_Suc_eq numeral_3_eq_3)
  ultimately have "sqlite3DecOrHexToI64 ?z = atoi64_spec (''12'' @ [CHR 0x0D]) False"
    using atoi64_core_ok by (simp add: sqlite3Atoi64_def)
  then show ?thesis by (simp add: atoi64_spec_def isspace_code isdigit_code dec_value_def)
qed

lemma getuint_accepts_2_32: "sqlite3GetUInt32 ''4294967296'' = (True, 0)"
  by (simp add: sqlite3GetUInt32_def isdigit_code Let_def)

section \<open>Properties\<close>

text \<open>
  C13.  \<open>sqlite3Atoi64\<close> reads the number at the start of its text (spaces, sign, digits), with result
  code \<open>- 1\<close>, 0, 1, 2 or 3 as the function documents; in UTF-16 it sees the low bytes of the
  characters before the first whose high byte is not zero.
\<close>

theorem atoi64_correct:
  "sqlite3Atoi64 z (length z) SQLITE_UTF8 = atoi64_spec z False \<and>
   (let good = takeWhile (\<lambda>(hi, lo). hi = CHR 0x00) cs
    in sqlite3Atoi64 (utf16_bytes SQLITE_UTF16LE cs) (2 * length cs) SQLITE_UTF16LE = atoi64_spec (map snd good) (good \<noteq> cs) \<and>
       sqlite3Atoi64 (utf16_bytes SQLITE_UTF16BE cs) (2 * length cs) SQLITE_UTF16BE = atoi64_spec (map snd good) (good \<noteq> cs))"
  using atoi64_utf8_ok atoi64_utf16_ok by (simp add: Let_def)

text \<open>
  C34.  Every \<open>i64\<close> is printed without leaving the buffer, in at most 20 characters and a terminator, and
  \<open>sqlite3Atoi64\<close> reads the text back as the same number.
\<close>

theorem int64_text_roundtrip:
  assumes "is_i64 v"
  shows "sqlite3Int64ToText v = Some (dec_text v @ [CHR 0x00], length (dec_text v)) \<and> length (dec_text v) \<le> 20 \<and>
    sqlite3Atoi64 (dec_text v) (length (dec_text v)) SQLITE_UTF8 = (0, v)"
  using Int64ToText_ok [OF assms] atoi64_dec_text [OF assms] atoi64_utf8_ok by simp

theorem int64_text_roundtrip_witness:
  "sqlite3Int64ToText (- 9223372036854775808) = Some (dec_text (- 9223372036854775808) @ [CHR 0x00], length (dec_text (- 9223372036854775808))) \<and>
   sqlite3Atoi64 (dec_text (- 9223372036854775808)) (length (dec_text (- 9223372036854775808))) SQLITE_UTF8 = (0, - 9223372036854775808)"
  using int64_text_roundtrip [of "- 9223372036854775808"] by (simp add: i64_defs)

text \<open>
  \<open>sqlite3GetInt32\<close> accepts exactly a signed decimal number in the range of an \<open>int\<close> or an unsigned
  hexadecimal one below \<open>2 ^ 31\<close>, whatever follows the digits, and \<open>sqlite3GetUInt32\<close> exactly the digit
  strings up to \<open>2 ^ 32\<close> inclusive.
\<close>

theorem getint32_correct:
  "sqlite3GetInt32 z = getint32_spec z \<and>
   sqlite3GetUInt32 z = (if z \<noteq> [] \<and> takeWhile sqlite3Isdigit z = z \<and> dec_value z \<le> 2 ^ 32 then (True, of_nat (dec_value z)) else (False, 0))"
proof -
  define ds where "ds = takeWhile sqlite3Isdigit z"
  have l: "getuint_loop z 0 0 = (if dec_value ds \<le> 4294967296 then Some (length ds, dec_value ds, dropWhile sqlite3Isdigit z) else None)"
    by (simp add: getuint_loop_ok Let_def ds_def)
  have r: "dropWhile sqlite3Isdigit z = [] \<longleftrightarrow> ds = z"
    unfolding ds_def by (metis append_Nil2 append_self_conv takeWhile_dropWhile_id)
  have "sqlite3GetUInt32 z = (if z \<noteq> [] \<and> ds = z \<and> dec_value z \<le> 2 ^ 32 then (True, of_nat (dec_value z)) else (False, 0))"
    unfolding sqlite3GetUInt32_def l using r by auto
  then show ?thesis unfolding ds_def using getint32_ok [of z] by blast
qed

end
