(* ===== verification/Dequote.thy ===== *)
theory Dequote
  imports Tokenize Numtext
begin

text \<open>
  Removing the quotes of tokens in place (\<open>util.c\<close>).  A buffer is the list of its characters up to and
  including the terminator; \<open>None\<close> is a read behind its end.
\<close>

section \<open>The model\<close>

definition cstr :: "string \<Rightarrow> string" where "cstr b = takeWhile (\<lambda>c. c \<noteq> CHR 0x00) b"

text \<open>The loop of \<open>sqlite3Dequote\<close> over the reader \<open>i\<close> and the writer \<open>j\<close>.\<close>

function dequote_loop :: "char \<Rightarrow> string \<Rightarrow> nat \<Rightarrow> nat \<Rightarrow> string option" where
  "dequote_loop quote z i j =
    (if length z \<le> i then None
     else if z ! i = quote then
       (if length z \<le> i + 1 then None
        else if z ! (i + 1) = quote then dequote_loop quote (z[j := quote]) (i + 2) (j + 1)
        else Some (z[j := CHR 0x00]))
     else dequote_loop quote (z[j := z ! i]) (i + 1) (j + 1))"
  by auto
termination by (relation "measure (\<lambda>(q, z, i, j). length z - i)") auto

declare dequote_loop.simps [simp del]

definition sqlite3Dequote :: "string \<Rightarrow> string option" where
  "sqlite3Dequote z =
    (if z = [] then None
     else if \<not> sqlite3Isquote (z ! 0) then Some z
     else dequote_loop (if z ! 0 = CHR ''['' then CHR '']'' else z ! 0) z 1 0)"

text \<open>\<open>sqlite3DequoteToken\<close> on a token: its text from \<open>z\<close> on and its length.\<close>

definition sqlite3DequoteToken :: "string \<times> nat \<Rightarrow> string \<times> nat" where
  "sqlite3DequoteToken p =
    (let (z, n) = p
     in if n < 2 then p
        else if \<not> sqlite3Isquote (zat z 0) then p
        else if list_ex (\<lambda>i. sqlite3Isquote (zat z i)) [1..<n - 1] then p
        else (tl z, n - 2))"

text \<open>
  \<open>sqlite3DequoteNumber\<close>: the loop over the reader \<open>i\<close>, the writer \<open>j\<close>, the token code and the texts
  that the error messages quote, and the fields of the expression that it sets.
\<close>

function dequoteNumber_loop :: "bool \<Rightarrow> string \<Rightarrow> nat \<Rightarrow> nat \<Rightarrow> nat \<Rightarrow> string list \<Rightarrow> (string \<times> nat \<times> string list) option" where
  "dequoteNumber_loop bHex z i j t errs =
    (if length z \<le> i then None
     else if z ! i = CHR 0x00 then Some (z[j := CHR 0x00], t, errs)
     else if z ! i \<noteq> SQLITE_DIGIT_SEPARATOR then
       dequoteNumber_loop bHex (z[j := z ! i]) (i + 1) (j + 1)
         (if z ! i = CHR ''e'' \<or> z ! i = CHR ''E'' \<or> z ! i = CHR ''.'' then TK_FLOAT else t) errs
     else if i = 0 then None
     else dequoteNumber_loop bHex z (i + 1) j t
       (if \<not> bHex \<and> (\<not> sqlite3Isdigit (z ! (i - 1)) \<or> \<not> sqlite3Isdigit (zat z (i + 1))) \<or>
           bHex \<and> (\<not> sqlite3Isxdigit (z ! (i - 1)) \<or> \<not> sqlite3Isxdigit (zat z (i + 1)))
        then errs @ [cstr z] else errs))"
  by auto
termination by (relation "measure (\<lambda>(h, z, i, j, t, e). length z - i)") auto

declare dequoteNumber_loop.simps [simp del]

record dequoted_number =
  zToken :: string
  opcode :: nat
  iValue :: "int option"
  messages :: "string list"

definition sqlite3DequoteNumber :: "string \<Rightarrow> dequoted_number option" where
  "sqlite3DequoteNumber z =
    (let bHex = (zat z 0 = CHR ''0'' \<and> (zat z 1 = CHR ''x'' \<or> zat z 1 = CHR ''X''))
     in case dequoteNumber_loop bHex z 0 0 TK_INTEGER [] of None \<Rightarrow> None
        | Some (b, t, errs) \<Rightarrow>
            let t = (if bHex then TK_INTEGER else t)
            in Some \<lparr>zToken = b, opcode = t, iValue = (if t = TK_INTEGER then sqlite3GetInt32 (cstr b) else None), messages = errs\<rparr>)"

section \<open>Quoted tokens\<close>

text \<open>A text in quotes: every quote inside is doubled.\<close>

definition esc :: "char \<Rightarrow> string \<Rightarrow> string" where
  "esc q s = concat (map (\<lambda>c. if c = q then [q, q] else [c]) s)"

definition quoted :: "char \<Rightarrow> string \<Rightarrow> string" where "quoted q s = q # esc q s @ [q]"

lemma esc_simps [simp]: "esc q [] = []" "esc q (c # s) = (if c = q then q # q # esc q s else c # esc q s)"
  by (simp_all add: esc_def)

lemma esc_plain: "q \<notin> set s \<Longrightarrow> esc q s = s"
  by (induction s) auto

lemma set_esc [simp]: "set (esc q s) = set s"
  by (induction s) auto

lemma cstr_append [simp]: "CHR 0x00 \<notin> set s \<Longrightarrow> cstr (s @ CHR 0x00 # r) = s"
  unfolding cstr_def by (subst takeWhile_append2) auto

lemma drop_conv: "drop i z = c # r \<Longrightarrow> i < length z \<and> z ! i = c \<and> drop (i + 1) z = r"
  by (metis Cons_nth_drop_Suc Suc_eq_plus1 drop_all leI list.distinct(1) list.inject)

lemma dequote_loop_ok:
  "j < i \<Longrightarrow> drop i z = esc q s @ q # c # r \<Longrightarrow> c \<noteq> q \<Longrightarrow>
   \<exists>b. dequote_loop q z i j = Some b \<and> take (j + length s + 1) b = take j z @ s @ [CHR 0x00]"
proof (induction s arbitrary: z i j)
  case Nil
  from drop_conv [of i z q "c # r"] Nil have i: "i < length z" "z ! i = q" and d: "drop (i + 1) z = c # r" by simp_all
  from drop_conv [OF d] have i1: "i + 1 < length z" "z ! (i + 1) = c" by simp_all
  then have "dequote_loop q z i j = Some (z[j := CHR 0x00])" using i Nil.prems by (subst dequote_loop.simps) simp
  moreover have "take (j + 1) (z[j := CHR 0x00]) = take j z @ [CHR 0x00]" using i Nil.prems by (simp add: take_Suc_conv_app_nth)
  ultimately show ?case by simp
next
  case (Cons a s)
  show ?case
  proof (cases "a = q")
    case True
    then have d: "drop i z = q # q # esc q s @ q # c # r" using Cons.prems by simp
    from drop_conv [OF d] have i: "i < length z" "z ! i = q" and d1: "drop (i + 1) z = q # esc q s @ q # c # r" by simp_all
    from drop_conv [OF d1] have i1: "i + 1 < length z" "z ! (i + 1) = q" and d2: "drop (i + 2) z = esc q s @ q # c # r" by simp_all
    let ?z = "z[j := q]"
    have "\<exists>b. dequote_loop q ?z (i + 2) (j + 1) = Some b \<and> take (j + 1 + length s + 1) b = take (j + 1) ?z @ s @ [CHR 0x00]"
      using d2 Cons.prems by (intro Cons.IH) simp_all
    moreover have "dequote_loop q z i j = dequote_loop q ?z (i + 2) (j + 1)" using i i1 by (subst dequote_loop.simps) simp
    moreover have "take (j + 1) ?z = take j z @ [q]" using i Cons.prems by (simp add: take_Suc_conv_app_nth)
    ultimately show ?thesis using True by simp
  next
    case False
    then have d: "drop i z = a # esc q s @ q # c # r" using Cons.prems by simp
    from drop_conv [OF d] have i: "i < length z" "z ! i = a" and d1: "drop (i + 1) z = esc q s @ q # c # r" by simp_all
    let ?z = "z[j := a]"
    have "\<exists>b. dequote_loop q ?z (i + 1) (j + 1) = Some b \<and> take (j + 1 + length s + 1) b = take (j + 1) ?z @ s @ [CHR 0x00]"
      using d1 Cons.prems by (intro Cons.IH) simp_all
    moreover have "dequote_loop q z i j = dequote_loop q ?z (i + 1) (j + 1)" using i False by (subst dequote_loop.simps) simp
    moreover have "take (j + 1) ?z = take j z @ [a]" using i Cons.prems by (simp add: take_Suc_conv_app_nth)
    ultimately show ?thesis using False by simp
  qed
qed

lemma dequote_result:
  assumes "take (length s + 1) b = s @ [CHR 0x00]" "CHR 0x00 \<notin> set s"
  shows "cstr b = s"
  using assms cstr_append [of s "drop (length s + 1) b"] by (metis append_Cons append_Nil append_assoc append_take_drop_id)

lemma dequote_quoted:
  assumes "sqlite3Isquote q" "CHR 0x00 \<notin> set s" "x = (if q = CHR ''['' then CHR '']'' else q)"
  shows "map_option cstr (sqlite3Dequote (q # esc x s @ [x, CHR 0x00])) = Some s"
proof -
  have "x \<noteq> CHR 0x00" using assms(1,3) by (auto simp: isquote_code)
  then obtain b where b: "dequote_loop x (q # esc x s @ [x, CHR 0x00]) 1 0 = Some b" "take (length s + 1) b = s @ [CHR 0x00]"
    using dequote_loop_ok [of 0 1 "q # esc x s @ [x, CHR 0x00]" x s "CHR 0x00" "[]"] by auto
  then have "sqlite3Dequote (q # esc x s @ [x, CHR 0x00]) = Some b"
    using assms(1) by (simp only: sqlite3Dequote_def assms(3) [symmetric] list.simps nth_Cons_0 if_True not_True_eq_False if_False)
  then show ?thesis using dequote_result [OF b(2) assms(2)] by simp
qed


lemma quote_over:
  "CHR 0x00 \<notin> set s \<Longrightarrow> q \<noteq> CHR 0x00 \<Longrightarrow> zat r 0 \<noteq> q \<Longrightarrow>
   quote_loop q (p @ esc q s @ q # r) (length p) = (length p + length (esc q s), q)"
proof (induction s arbitrary: p)
  case Nil
  then show ?case by (subst quote_loop.simps) (simp add: zat_append zat_Cons)
next
  case (Cons c s)
  show ?case
  proof (cases "c = q")
    case True
    have "quote_loop q ((p @ [q, q]) @ esc q s @ q # r) (length (p @ [q, q])) = (length (p @ [q, q]) + length (esc q s), q)"
      using Cons.prems by (intro Cons.IH) simp_all
    then show ?thesis using True Cons.prems by (subst quote_loop.simps) (simp add: zat_append zat_Cons)
  next
    case False
    have "quote_loop q ((p @ [c]) @ esc q s @ q # r) (length (p @ [c])) = (length (p @ [c]) + length (esc q s), q)"
      using Cons.prems by (intro Cons.IH) simp_all
    then show ?thesis using False Cons.prems by (subst quote_loop.simps) (auto simp: zat_append zat_Cons)
  qed
qed

lemma quote_shape:
  "i \<le> length z \<Longrightarrow> q \<noteq> CHR 0x00 \<Longrightarrow> quote_loop q z i = (k, c) \<Longrightarrow> c \<noteq> CHR 0x00 \<Longrightarrow>
   c = q \<and> (\<exists>s r. drop i z = esc q s @ q # r \<and> CHR 0x00 \<notin> set s \<and> k = i + length (esc q s))"
proof (induction q z i rule: quote_loop.induct)
  case (1 q z i)
  let ?a = "zat z i"
  have a: "?a \<noteq> CHR 0x00" using "1.prems" by (subst (asm) quote_loop.simps) (auto split: if_splits)
  then have i: "i < length z" by (rule zat_nonzero)
  then have d: "drop i z = ?a # drop (i + 1) z" by (simp add: zat_def Cons_nth_drop_Suc)
  show ?case
  proof (cases "?a = q \<and> zat z (i + 1) \<noteq> q")
    case True
    then have "(k, c) = (i, q)" using "1.prems" a by (subst (asm) quote_loop.simps) simp
    then show ?thesis using d True by (intro conjI exI [of _ "[]"] exI [of _ "drop (i + 1) z"]) simp_all
  next
    case False
    show ?thesis
    proof (cases "?a = q")
      case True
      then have b: "zat z (i + 1) = q" using False by simp
      then have i1: "i + 1 < length z" using "1.prems"(2) zat_nonzero [of z "i + 1"] by simp
      then have d1: "drop (i + 1) z = q # drop (i + 2) z" using b Cons_nth_drop_Suc [of "i + 1" z] by (simp add: zat_def)
      have "quote_loop q z (i + 2) = (k, c)" using "1.prems" a True b by (subst (asm) quote_loop.simps) simp
      then obtain s r where "c = q" "drop (i + 2) z = esc q s @ q # r" "CHR 0x00 \<notin> set s" "k = i + 2 + length (esc q s)"
        using "1.IH" [OF a False] True i1 "1.prems" by auto
      then show ?thesis using d d1 True "1.prems"(2) by (intro conjI exI [of _ "q # s"] exI [of _ r]) simp_all
    next
      case F: False
      have "quote_loop q z (i + 1) = (k, c)" using "1.prems" a F by (subst (asm) quote_loop.simps) simp
      then obtain s r where "c = q" "drop (i + 1) z = esc q s @ q # r" "CHR 0x00 \<notin> set s" "k = i + 1 + length (esc q s)"
        using "1.IH" [OF a False] F i "1.prems" by auto
      then show ?thesis using d F a by (intro conjI exI [of _ "?a # s"] exI [of _ r]) simp_all
    qed
  qed
qed

lemma bracket_shape:
  "i \<le> length z \<Longrightarrow> bracket_loop z i c = (k, CHR '']'') \<Longrightarrow> c \<noteq> CHR '']'' \<Longrightarrow>
   \<exists>s r. drop i z = s @ CHR '']'' # r \<and> CHR 0x00 \<notin> set s \<and> CHR '']'' \<notin> set s \<and> k = i + length s + 1"
proof (induction z i c rule: bracket_loop.induct)
  case (1 z i c)
  let ?a = "zat z i"
  have a: "?a \<noteq> CHR 0x00" using "1.prems" by (subst (asm) bracket_loop.simps) (auto split: if_splits)
  then have i: "i < length z" by (rule zat_nonzero)
  then have d: "drop i z = ?a # drop (i + 1) z" by (simp add: zat_def Cons_nth_drop_Suc)
  have l: "bracket_loop z (i + 1) ?a = (k, CHR '']'')" using "1.prems" a by (subst (asm) bracket_loop.simps) simp
  show ?case
  proof (cases "?a = CHR '']''")
    case True
    then have "k = i + 1" using l by (subst (asm) bracket_loop.simps) simp
    then show ?thesis using d True by (intro exI [of _ "[]"] exI [of _ "drop (i + 1) z"]) simp
  next
    case False
    then obtain s r where "drop (i + 1) z = s @ CHR '']'' # r" "CHR 0x00 \<notin> set s" "CHR '']'' \<notin> set s" "k = i + 1 + length s + 1"
      using "1.IH" [OF "1.prems"(3) a] l i by auto
    then show ?thesis using d False a by (intro exI [of _ "?a # s"] exI [of _ r]) simp
  qed
qed


lemma class_quote: "class_of c = CC_QUOTE \<longleftrightarrow> code c \<in> {34, 39, 96}" "class_of c = CC_QUOTE2 \<longleftrightarrow> c = CHR ''[''"
proof -
  have "map (\<lambda>k. k = CC_QUOTE) aiClass = map (\<lambda>n. n \<in> {34, 39, 96}) [0..<256]" by (simp add: upt_rec aiClass_def CC_defs)
  from table_class [OF this, of c] show "class_of c = CC_QUOTE \<longleftrightarrow> code c \<in> {34, 39, 96}" by simp
  have "map (\<lambda>k. k = CC_QUOTE2) aiClass = map (\<lambda>n. n = 91) [0..<256]" by (simp add: upt_rec aiClass_def CC_defs)
  from table_class [OF this, of c] show "class_of c = CC_QUOTE2 \<longleftrightarrow> c = CHR ''[''"
    using of_char_eq_iff [of c "CHR ''[''", where ?'a = nat] by simp
qed

lemma isquote_class: "sqlite3Isquote c \<longleftrightarrow> class_of c = CC_QUOTE \<or> class_of c = CC_QUOTE2"
  using of_char_eq_iff [of c "CHR ''[''", where ?'a = nat] by (auto simp: class_quote isquote_code)

text \<open>
  What a token that starts with a quote looks like when the tokenizer does not report it as illegal:
  the quote \<open>q\<close>, a text in which the closing quote \<open>x\<close> is doubled, and the closing quote.
\<close>

lemma quoted_token_shape:
  assumes "sqlite3Isquote (zat z 0)" "sqlite3GetToken z = (n, t)" "t \<noteq> TK_ILLEGAL"
    and "x = (if zat z 0 = CHR ''['' then CHR '']'' else zat z 0)"
  shows "\<exists>s. take n z = zat z 0 # esc x s @ [x] \<and> n = length (esc x s) + 2 \<and> CHR 0x00 \<notin> set s \<and> (zat z 0 = CHR ''['' \<longrightarrow> x \<notin> set s)"
proof -
  have "zat z 0 \<noteq> CHR 0x00" using assms(1) by (auto simp: isquote_code)
  then obtain q u where z: "z = q # u" by (cases z) (auto simp: zat_def)
  show ?thesis
  proof (cases "class_of q = CC_QUOTE")
    case True
    then have q: "q \<noteq> CHR 0x00" "x = q" "q \<noteq> CHR ''[''" using assms(4) by (auto simp: class_quote z zat_Cons)
    have tok: "sqlite3GetToken z = tok_quote z" using True by (intro get_token_case) (simp add: z zat_Cons)
    obtain k c where k: "quote_loop q z 1 = (k, c)" by force
    have zq: "zat z 0 = q" by (simp add: z zat_Cons)
    have c: "c \<noteq> CHR 0x00" using assms(2,3) unfolding tok tok_quote_def zq k by (auto split: if_splits)
    obtain s r where s: "c = q" "drop 1 z = esc q s @ q # r" "CHR 0x00 \<notin> set s" "k = 1 + length (esc q s)"
      using quote_shape [OF _ q(1) k c] z by auto
    have "n = length (esc q s) + 2" using assms(2) c s(1,4) unfolding tok tok_quote_def zq k by (auto split: if_splits)
    then show ?thesis using s z q by (intro exI [of _ s]) (simp add: zat_Cons)
  next
    case False
    then have q: "q = CHR ''[''" "x = CHR '']''" using assms(1,4) isquote_class [of q] by (simp_all add: z zat_Cons class_quote)
    have zq: "zat z 0 = q" by (simp add: z zat_Cons)
    have "class_of (zat z 0) = CC_QUOTE2" by (simp add: zq q class_quote)
    then have tok: "sqlite3GetToken z = tok_bracket z" by (simp add: sqlite3GetToken_def CC_defs)
    obtain c where k: "bracket_loop z 1 q = (n, c)" and c: "c = CHR '']''"
      using assms(2,3) unfolding tok tok_bracket_def zq by (auto split: prod.splits if_splits)
    obtain s r where s: "drop 1 z = s @ CHR '']'' # r" "CHR 0x00 \<notin> set s" "CHR '']'' \<notin> set s" "n = 1 + length s + 1"
      using bracket_shape [of 1 z q n] k c q z by auto
    then show ?thesis using s z q esc_plain [of "CHR '']''" s] by (intro exI [of _ s]) (simp add: zat_Cons)
  qed
qed

lemma dequoteToken_plain:
  assumes "sqlite3DequoteToken (z, n) \<noteq> (z, n)" "take n z = zat z 0 # esc x s @ [x]" "n = length (esc x s) + 2"
    and "x = (if zat z 0 = CHR ''['' then CHR '']'' else zat z 0)" "zat z 0 = CHR ''['' \<longrightarrow> x \<notin> set s"
  shows "sqlite3DequoteToken (z, n) = (tl z, n - 2) \<and> take (n - 2) (tl z) = s"
proof -
  have nq: "\<not> list_ex (\<lambda>i. sqlite3Isquote (zat z i)) [1..<n - 1]" "sqlite3Isquote (zat z 0)"
    using assms(1) by (auto simp: sqlite3DequoteToken_def Let_def split: if_splits)
  have z: "z = zat z 0 # esc x s @ x # drop n z"
    using append_take_drop_id [of n z] unfolding assms(2) by simp
  have t: "tl z = esc x s @ x # drop n z" by (subst z) simp
  have "\<not> sqlite3Isquote c" if "c \<in> set s" for c
  proof -
    from that obtain k where k: "k < length (esc x s)" "esc x s ! k = c" by (metis in_set_conv_nth set_esc)
    have "zat z (k + 1) = c" using k by (subst z) (simp add: zat_Cons zat_append)
    moreover have "k + 1 \<in> set [1..<n - 1]" using k assms(3) by (simp del: upt_Suc)
    ultimately show ?thesis using nq(1) unfolding list_ex_iff by metis
  qed
  then have "x \<notin> set s" using nq(2) assms(4,5) by (auto split: if_splits)
  then show ?thesis using nq assms(1,3) t esc_plain [of x s] by (simp add: sqlite3DequoteToken_def Let_def)
qed

section \<open>Quoted numbers\<close>

definition drop_sep :: "string \<Rightarrow> string" where "drop_sep s = filter (\<lambda>c. c \<noteq> SQLITE_DIGIT_SEPARATOR) s"

text \<open>Every separator stands between two digits.\<close>

definition separated :: "(char \<Rightarrow> bool) \<Rightarrow> string \<Rightarrow> nat \<Rightarrow> bool" where
  "separated D s n \<longleftrightarrow> (\<forall>i < length s. n \<le> i \<longrightarrow> s ! i = SQLITE_DIGIT_SEPARATOR \<longrightarrow> 0 < i \<and> D (s ! (i - 1)) \<and> D (zat s (i + 1)))"

definition float_chars :: "string \<Rightarrow> bool" where
  "float_chars s \<longleftrightarrow> CHR ''e'' \<in> set s \<or> CHR ''E'' \<in> set s \<or> CHR ''.'' \<in> set s"

lemma drop_sep_simps [simp]: "drop_sep [] = []"
  "drop_sep (s @ [c]) = (if c = SQLITE_DIGIT_SEPARATOR then drop_sep s else drop_sep s @ [c])"
  by (simp_all add: drop_sep_def)

lemma drop_sep_length: "length (drop_sep s) \<le> length s"
  by (simp add: drop_sep_def)

lemma drop_sep_id: "length (drop_sep s) = length s \<Longrightarrow> drop_sep s = s"
  unfolding drop_sep_def by (metis filter_id_conv length_filter_less less_irrefl)

text \<open>The buffer after the characters \<open>p\<close> are read, of the text \<open>p @ q\<close>.\<close>

definition half_way :: "string \<Rightarrow> string \<Rightarrow> string" where
  "half_way p q = drop_sep p @ drop (length (drop_sep p)) (p @ q @ [CHR 0x00])"

lemma half_way_length: "length (half_way p q) = length p + length q + 1"
  using drop_sep_length [of p] by (simp add: half_way_def)

lemma nth_patched: "length d \<le> i \<Longrightarrow> i < length b \<Longrightarrow> (d @ drop (length d) b) ! i = b ! i"
  by (simp add: nth_append)

lemma half_way_nth: "length p \<le> i + 1 \<Longrightarrow> i < length (p @ q @ [CHR 0x00]) \<Longrightarrow> half_way p q ! i = (p @ q @ [CHR 0x00]) ! i"
proof (cases "length (drop_sep p) \<le> i")
  case False
  assume "length p \<le> i + 1"
  then have "length (drop_sep p) = length p" using False drop_sep_length [of p] by simp
  then have "drop_sep p = p" by (rule drop_sep_id)
  then show ?thesis by (simp add: half_way_def)
qed (unfold half_way_def, rule nth_patched)

lemma half_way_zat: "length p \<le> i + 1 \<Longrightarrow> zat (half_way p q) i = zat (p @ q) i"
proof (cases "i < length (p @ q @ [CHR 0x00])")
  case True
  assume "length p \<le> i + 1"
  from half_way_nth [OF this True] show ?thesis using True by (auto simp: zat_def half_way_length nth_append)
qed (simp add: zat_def half_way_length)

lemma half_way_step:
  "c \<noteq> SQLITE_DIGIT_SEPARATOR \<Longrightarrow> (half_way p (c # q)) [length (drop_sep p) := c] = half_way (p @ [c]) q"
  "c = SQLITE_DIGIT_SEPARATOR \<Longrightarrow> half_way p (c # q) = half_way (p @ [c]) q"
proof -
  let ?d = "drop_sep p" and ?o = "p @ c # q @ [CHR 0x00]"
  have "length ?d < length ?o" using drop_sep_length [of p] by simp
  from Cons_nth_drop_Suc [OF this] have "drop (length ?d) ?o = ?o ! length ?d # drop (length ?d + 1) ?o" by (metis Suc_eq_plus1)
  then show "c \<noteq> SQLITE_DIGIT_SEPARATOR \<Longrightarrow> (half_way p (c # q)) [length ?d := c] = half_way (p @ [c]) q"
    unfolding half_way_def by (simp add: list_update_append)
  show "c = SQLITE_DIGIT_SEPARATOR \<Longrightarrow> half_way p (c # q) = half_way (p @ [c]) q" by (simp add: half_way_def)
qed


lemma separated_step:
  assumes "n < length s"
  shows "separated D s n \<longleftrightarrow>
    (s ! n = SQLITE_DIGIT_SEPARATOR \<longrightarrow> 0 < n \<and> D (s ! (n - 1)) \<and> D (zat s (n + 1))) \<and> separated D s (n + 1)"
proof -
  have "n \<le> i \<longleftrightarrow> i = n \<or> n + 1 \<le> i" for i by auto
  then show ?thesis using assms unfolding separated_def by metis
qed

lemma dequoteNumber_loop_ok:
  assumes "CHR 0x00 \<notin> set (p @ q)" "p = [] \<longrightarrow> q = [] \<or> hd q \<noteq> SQLITE_DIGIT_SEPARATOR"
  shows "\<exists>b errs'. dequoteNumber_loop h (half_way p q) (length p) (length (drop_sep p)) t errs =
      Some (b, if float_chars q then TK_FLOAT else t, errs') \<and> cstr b = drop_sep (p @ q) \<and>
      (errs' = [] \<longleftrightarrow> errs = [] \<and> separated (if h then sqlite3Isxdigit else sqlite3Isdigit) (p @ q) (length p))"
  using assms
proof (induction q arbitrary: p t errs)
  case Nil
  have n: "half_way p [] ! length p = CHR 0x00" "length p < length (half_way p [])"
    using half_way_nth [of p "length p" "[]"] by (simp_all add: half_way_length)
  have "half_way p [] = drop_sep p @ drop (length (drop_sep p)) (p @ [CHR 0x00])" by (simp add: half_way_def)
  moreover have "drop (length (drop_sep p)) (p @ [CHR 0x00]) \<noteq> []" using drop_sep_length [of p] by simp
  ultimately have "(half_way p []) [length (drop_sep p) := CHR 0x00] = drop_sep p @ CHR 0x00 # tl (drop (length (drop_sep p)) (p @ [CHR 0x00]))"
    by (metis list.exhaust_sel list_update_length)
  moreover have "CHR 0x00 \<notin> set (drop_sep p)" using Nil by (simp add: drop_sep_def)
  ultimately show ?case using n by (subst dequoteNumber_loop.simps) (simp add: float_chars_def separated_def)
next
  case (Cons c q)
  let ?D = "if h then sqlite3Isxdigit else sqlite3Isdigit"
  let ?z = "half_way p (c # q)" and ?j = "length (drop_sep p)"
  have i: "length p < length ?z" "?z ! length p = c" "c \<noteq> CHR 0x00"
    using half_way_nth [of p "length p" "c # q"] Cons.prems by (auto simp: half_way_length nth_append)
  have prems: "CHR 0x00 \<notin> set ((p @ [c]) @ q)" "p @ [c] = [] \<longrightarrow> q = [] \<or> hd q \<noteq> SQLITE_DIGIT_SEPARATOR"
    using Cons.prems by auto
  have sep: "separated ?D (p @ c # q) (length p) \<longleftrightarrow>
      (c = SQLITE_DIGIT_SEPARATOR \<longrightarrow> p \<noteq> [] \<and> ?D ((p @ c # q) ! (length p - 1)) \<and> ?D (zat (p @ c # q) (length p + 1))) \<and>
      separated ?D (p @ c # q) (length (p @ [c]))"
    using separated_step [of "length p" "p @ c # q" ?D] by simp
  show ?case
  proof (cases "c = SQLITE_DIGIT_SEPARATOR")
    case False
    then have "dequoteNumber_loop h ?z (length p) ?j t errs =
        dequoteNumber_loop h (half_way (p @ [c]) q) (length (p @ [c])) (length (drop_sep (p @ [c])))
          (if c = CHR ''e'' \<or> c = CHR ''E'' \<or> c = CHR ''.'' then TK_FLOAT else t) errs"
      using i half_way_step(1) [OF False, of p q] by (subst dequoteNumber_loop.simps) simp
    then show ?thesis
      using Cons.IH [OF prems, of "if c = CHR ''e'' \<or> c = CHR ''E'' \<or> c = CHR ''.'' then TK_FLOAT else t" errs] sep False
      by (auto simp: float_chars_def)
  next
    case True
    then have p: "p \<noteq> []" using Cons.prems(2) by auto
    have "?z ! (length p - 1) = (p @ c # q) ! (length p - 1)" "zat ?z (length p + 1) = zat (p @ c # q) (length p + 1)"
      using half_way_nth [of p "length p - 1" "c # q"] half_way_zat [of p "length p + 1" "c # q"] p by (simp_all add: nth_append)
    note near = this
    define e where "e = (if \<not> h \<and> (\<not> sqlite3Isdigit (?z ! (length p - 1)) \<or> \<not> sqlite3Isdigit (zat ?z (length p + 1))) \<or>
           h \<and> (\<not> sqlite3Isxdigit (?z ! (length p - 1)) \<or> \<not> sqlite3Isxdigit (zat ?z (length p + 1))) then errs @ [cstr ?z] else errs)"
    have "e = [] \<longleftrightarrow> errs = [] \<and> ?D ((p @ c # q) ! (length p - 1)) \<and> ?D (zat (p @ c # q) (length p + 1))"
      unfolding e_def near by (cases h) auto
    moreover have "dequoteNumber_loop h ?z (length p) ?j t errs = dequoteNumber_loop h ?z (length p + 1) ?j t e"
      using i True p unfolding e_def by (subst dequoteNumber_loop.simps) simp
    then have "dequoteNumber_loop h ?z (length p) ?j t errs =
        dequoteNumber_loop h (half_way (p @ [c]) q) (length (p @ [c])) (length (drop_sep (p @ [c]))) t e"
      using half_way_step(2) [OF True, of p q] True by simp
    ultimately show ?thesis
      using Cons.IH [OF prems, of t e] sep True p by (auto simp: float_chars_def SQLITE_DIGIT_SEPARATOR_def)
  qed
qed


section \<open>Properties\<close>

text \<open>
  C17. A text between quotes, with every quote inside doubled, is one token whatever follows it other
  than another quote, a string for the single quote and an identifier for the others, and
  \<open>sqlite3Dequote\<close> gives the text back.
\<close>

theorem quoted_token:
  assumes "q = CHR 0x22 \<or> q = CHR 0x27 \<or> q = CHR ''`''" "CHR 0x00 \<notin> set s" "zat r 0 \<noteq> q"
  shows "sqlite3GetToken (quoted q s @ r) = (length (quoted q s), if q = CHR 0x27 then TK_STRING else TK_ID) \<and>
    map_option cstr (sqlite3Dequote (quoted q s @ [CHR 0x00])) = Some s"
proof -
  have q: "class_of q = CC_QUOTE" "q \<noteq> CHR 0x00" "q \<noteq> CHR ''[''" "sqlite3Isquote q" using assms(1) by (auto simp: class_quote isquote_code)
  let ?z = "quoted q s @ r"
  have z: "?z = [q] @ esc q s @ q # r" by (simp add: quoted_def)
  have "sqlite3GetToken ?z = tok_quote ?z" using q by (intro get_token_case) (simp add: z zat_Cons)
  moreover have "quote_loop q ?z 1 = (1 + length (esc q s), q)"
    using quote_over [OF assms(2) q(2) assms(3), of "[q]"] unfolding z by simp
  then have "quote_loop (zat ?z 0) ?z 1 = (1 + length (esc q s), q)" by (simp add: z zat_Cons)
  ultimately have "sqlite3GetToken ?z = (length (quoted q s), if q = CHR 0x27 then TK_STRING else TK_ID)"
    using q(2) by (simp add: tok_quote_def quoted_def)
  moreover have "map_option cstr (sqlite3Dequote (q # esc q s @ [q, CHR 0x00])) = Some s"
    using dequote_quoted [OF q(4) assms(2), of q] q(3) by simp
  ultimately show ?thesis by (simp add: quoted_def)
qed

theorem quoted_token_witness:
  "sqlite3GetToken (quoted (CHR 0x27) ''it'' @ ''; '') = (4, TK_STRING) \<and> sqlite3GetToken (quoted (CHR 0x22) [CHR 0x22]) = (4, TK_ID)"
  using quoted_token [of "CHR 0x27" "''it''" "''; ''"] quoted_token [of "CHR 0x22" "[CHR 0x22]" "[]"]
  by (simp add: quoted_def zat_def)

text \<open>
  C18. On the text of a token that the tokenizer accepts, \<open>sqlite3Dequote\<close> never leaves the buffer,
  and where \<open>sqlite3DequoteToken\<close> strips the quotes from a token in the text it leaves the same
  characters.
\<close>

theorem dequote_token_safe:
  assumes "sqlite3GetToken z = (n, t)" "t \<noteq> TK_ILLEGAL"
  shows "\<exists>b. sqlite3Dequote (take n z @ [CHR 0x00]) = Some b \<and>
    (sqlite3DequoteToken (z, n) \<noteq> (z, n) \<longrightarrow>
      sqlite3DequoteToken (z, n) = (tl z, n - 2) \<and> take (n - 2) (tl z) = cstr b)"
proof (cases "sqlite3Isquote (zat z 0)")
  case False
  have "zat (take n z @ [CHR 0x00]) 0 = zat z 0 \<or> take n z = []"
    by (cases z; cases n) (auto simp: zat_Cons)
  then have "\<not> sqlite3Isquote ((take n z @ [CHR 0x00]) ! 0)"
    using False by (cases "take n z") (auto simp: zat_Cons isquote_code)
  then show ?thesis using False by (simp add: sqlite3Dequote_def sqlite3DequoteToken_def Let_def)
next
  case True
  define x where "x = (if zat z 0 = CHR ''['' then CHR '']'' else zat z 0)"
  obtain s where s: "take n z = zat z 0 # esc x s @ [x]" "n = length (esc x s) + 2" "CHR 0x00 \<notin> set s"
      "zat z 0 = CHR ''['' \<longrightarrow> x \<notin> set s"
    using quoted_token_shape [OF True assms x_def] by blast
  obtain b where b: "sqlite3Dequote (take n z @ [CHR 0x00]) = Some b" "cstr b = s"
    using dequote_quoted [OF True s(3) x_def] unfolding s(1) by auto
  then show ?thesis using dequoteToken_plain [OF _ s(1,2) x_def s(4)] by blast
qed

theorem dequote_token_safe_witness:
  "\<exists>b. sqlite3Dequote (''abc'' @ [CHR 0x00]) = Some b"
proof -
  have "sqlite3GetToken ''abc'' = (3, TK_ID)"
  proof -
    have "ident_type ''abc'' = TK_ID" by (simp add: ident_type_def keyword_list_def toupper_code char_of_eq_iff take_bit_eq_mod)
    then show ?thesis
      using word_token [of "CHR ''a''" "''bc''" "[]"] by (simp add: idchar_code ident_start_def isdigit_code zat_def)
  qed
  moreover have "TK_ID \<noteq> TK_ILLEGAL" by (simp add: TK_defs)
  ultimately show ?thesis using dequote_token_safe [of "''abc''" 3 TK_ID] by (auto simp: numeral_3_eq_3)
qed

text \<open>
  C33. \<open>sqlite3DequoteNumber\<close> removes exactly the separators, decides between integer and real by the
  characters of the number, stores the value of an integer that fits an \<open>int\<close>, and reports an error
  exactly when some separator does not stand between two digits.
\<close>

theorem dequote_number:
  assumes "CHR 0x00 \<notin> set s" "s \<noteq> []" "hd s \<noteq> SQLITE_DIGIT_SEPARATOR"
    and "hex = (zat s 0 = CHR ''0'' \<and> (zat s 1 = CHR ''x'' \<or> zat s 1 = CHR ''X''))"
  shows "\<exists>r. sqlite3DequoteNumber (s @ [CHR 0x00]) = Some r \<and> cstr (zToken r) = drop_sep s \<and>
    opcode r = (if \<not> hex \<and> float_chars s then TK_FLOAT else TK_INTEGER) \<and>
    iValue r = (if opcode r = TK_INTEGER then sqlite3GetInt32 (drop_sep s) else None) \<and>
    (messages r = [] \<longleftrightarrow> separated (if hex then sqlite3Isxdigit else sqlite3Isdigit) s 0)"
proof -
  have hx: "hex = (zat (s @ [CHR 0x00]) 0 = CHR ''0'' \<and> (zat (s @ [CHR 0x00]) 1 = CHR ''x'' \<or> zat (s @ [CHR 0x00]) 1 = CHR ''X''))"
    using assms(2,4) by (cases s) (auto simp: zat_def nth_append)
  have "half_way [] s = s @ [CHR 0x00]" by (simp add: half_way_def)
  then obtain b e where "dequoteNumber_loop hex (s @ [CHR 0x00]) 0 0 TK_INTEGER [] = Some (b, if float_chars s then TK_FLOAT else TK_INTEGER, e)"
      "cstr b = drop_sep s" "e = [] \<longleftrightarrow> separated (if hex then sqlite3Isxdigit else sqlite3Isdigit) s 0"
    using dequoteNumber_loop_ok [of "[]" s hex TK_INTEGER "[]"] assms(1,3) by auto
  then show ?thesis unfolding sqlite3DequoteNumber_def hx [symmetric] by simp
qed

theorem dequote_number_witness:
  "\<exists>r. sqlite3DequoteNumber (''1_000'' @ [CHR 0x00]) = Some r \<and> cstr (zToken r) = ''1000'' \<and> messages r = []"
proof -
  have "separated sqlite3Isdigit ''1_000'' 0"
    by (simp add: separated_def All_less_Suc zat_def isdigit_code SQLITE_DIGIT_SEPARATOR_def)
  then show ?thesis
    using dequote_number [of "''1_000''" False] by (auto simp: drop_sep_def SQLITE_DIGIT_SEPARATOR_def zat_def)
qed

text \<open>
  The message of a misplaced separator quotes the buffer half way through the rewriting, not the
  token: for \<open>1_2__3\<close> it says \<open>122__3\<close>.
\<close>

lemma dequote_number_message:
  "map_option messages (sqlite3DequoteNumber (''1_2__3'' @ [CHR 0x00])) = Some [''122__3'', ''122__3'']"
  by (simp add: sqlite3DequoteNumber_def dequoteNumber_loop.simps zat_def isdigit_code SQLITE_DIGIT_SEPARATOR_def cstr_def)

end
