(* ===== verification/Complete.thy ===== *)
theory Complete
  imports Ctype
begin

text \<open>
  \<open>sqlite3_complete\<close> (\<open>complete.c\<close>): does a text end a statement?  It reads coarse tokens and feeds them
  to an automaton that knows that a \<open>CREATE TRIGGER\<close> statement ends with \<open>;END;\<close>.
\<close>

section \<open>The model\<close>

definition tkSEMI :: nat where "tkSEMI = 0"
definition tkWS :: nat where "tkWS = 1"
definition tkOTHER :: nat where "tkOTHER = 2"
definition tkEXPLAIN :: nat where "tkEXPLAIN = 3"
definition tkCREATE :: nat where "tkCREATE = 4"
definition tkTEMP :: nat where "tkTEMP = 5"
definition tkTRIGGER :: nat where "tkTRIGGER = 6"
definition tkEND :: nat where "tkEND = 7"

lemmas tk_defs = tkSEMI_def tkWS_def tkOTHER_def tkEXPLAIN_def tkCREATE_def tkTEMP_def tkTRIGGER_def tkEND_def

definition trans_table :: "nat list list" where
  "trans_table =
    [[1, 0, 2, 3, 4, 2, 2, 2],
     [1, 1, 2, 3, 4, 2, 2, 2],
     [1, 2, 2, 2, 2, 2, 2, 2],
     [1, 3, 3, 2, 4, 2, 2, 2],
     [1, 4, 2, 2, 2, 4, 5, 2],
     [6, 5, 5, 5, 5, 5, 5, 5],
     [6, 6, 5, 5, 5, 5, 5, 7],
     [1, 7, 5, 5, 5, 5, 5, 5]]"

text \<open>
  One turn of the loop up to the transition: a token with the text behind it, a comment that runs to
  the end of the text, or a comment, name or string without its end.
\<close>

datatype scanned = Token nat string | At_end | Unclosed

text \<open>The loops that look for the end of a comment, a name or a string: \<open>None\<close> at the terminator.\<close>

fun find_close :: "string \<Rightarrow> string option" where
  "find_close [] = None"
| "find_close (c # z) = (if c = CHR ''*'' \<and> zat z 0 = CHR ''/'' then Some (tl z) else find_close z)"

fun find_char :: "char \<Rightarrow> string \<Rightarrow> string option" where
  "find_char c [] = None"
| "find_char c (d # z) = (if d = c then Some z else find_char c z)"

definition closed_by :: "string option \<Rightarrow> nat \<Rightarrow> scanned" where
  "closed_by r t = (case r of None \<Rightarrow> Unclosed | Some z \<Rightarrow> Token t z)"

text \<open>The token of a word of \<open>n\<close> characters.\<close>

definition word_token_code :: "string \<Rightarrow> nat \<Rightarrow> nat" where
  "word_token_code z n =
    (let c = zat z 0
     in if c = CHR ''c'' \<or> c = CHR ''C'' then
          (if n = 6 \<and> strnicmp_loop z ''create'' 6 = 0 then tkCREATE else tkOTHER)
        else if c = CHR ''t'' \<or> c = CHR ''T'' then
          (if n = 7 \<and> strnicmp_loop z ''trigger'' 7 = 0 then tkTRIGGER
           else if n = 4 \<and> strnicmp_loop z ''temp'' 4 = 0 then tkTEMP
           else if n = 9 \<and> strnicmp_loop z ''temporary'' 9 = 0 then tkTEMP
           else tkOTHER)
        else if c = CHR ''e'' \<or> c = CHR ''E'' then
          (if n = 3 \<and> strnicmp_loop z ''end'' 3 = 0 then tkEND
           else if n = 7 \<and> strnicmp_loop z ''explain'' 7 = 0 then tkEXPLAIN
           else tkOTHER)
        else tkOTHER)"

fun scan_token :: "string \<Rightarrow> scanned" where
  "scan_token [] = At_end"
| "scan_token (c # z) =
    (if c = CHR '';'' then Token tkSEMI z
     else if c \<in> {CHR '' '', CHR 0x0D, CHR 0x09, CHR 0x0A, CHR 0x0C} then Token tkWS z
     else if c = CHR ''/'' then
       (if zat z 0 \<noteq> CHR ''*'' then Token tkOTHER z else closed_by (find_close (tl z)) tkWS)
     else if c = CHR ''-'' then
       (if zat z 0 \<noteq> CHR ''-'' then Token tkOTHER z
        else case find_char (CHR 0x0A) (c # z) of None \<Rightarrow> At_end | Some r \<Rightarrow> Token tkWS r)
     else if c = CHR ''['' then closed_by (find_char (CHR '']'') z) tkOTHER
     else if c = CHR ''`'' \<or> c = CHR 0x22 \<or> c = CHR 0x27 then closed_by (find_char c z) tkOTHER
     else if IdChar c then
       (let n = 1 + length (takeWhile IdChar z) in Token (word_token_code (c # z) n) (drop (n - 1) z))
     else Token tkOTHER z)"

lemma find_close_length: "find_close z = Some r \<Longrightarrow> length r < length z"
  by (induction z) (auto split: if_splits simp: less_Suc_eq_le dest: order.trans)

lemma find_char_length: "find_char c z = Some r \<Longrightarrow> length r < length z"
  by (induction z) (auto split: if_splits)

lemma scan_token_length: "scan_token z = Token t r \<Longrightarrow> length r < length z"
proof (cases z)
  case (Cons c u)
  have close: "closed_by (find_close (tl u)) x = Token t r \<Longrightarrow> length r < length z" for x
    using find_close_length [of "tl u" r] by (auto simp: closed_by_def Cons split: option.splits)
  have char: "closed_by (find_char d u) x = Token t r \<Longrightarrow> length r < length z" for d x
    using find_char_length [of d u r] by (auto simp: closed_by_def Cons split: option.splits)
  assume s: "scan_token z = Token t r"
  show ?thesis
    using s close char find_char_length [of "CHR 0x0A" "c # u" r]
    by (auto simp: Cons Let_def less_Suc_eq_le split: if_splits option.splits)
qed simp

text \<open>The main loop.\<close>

function complete_loop :: "nat \<Rightarrow> string \<Rightarrow> bool" where
  "complete_loop state z =
    (case scan_token z of Unclosed \<Rightarrow> False | At_end \<Rightarrow> state = 1
     | Token t r \<Rightarrow> complete_loop (trans_table ! state ! t) r)"
  by auto
termination by (relation "measure (\<lambda>(s, z). length z)") (auto simp: scan_token_length)

declare complete_loop.simps [simp del]

definition sqlite3_complete :: "string \<Rightarrow> bool" where "sqlite3_complete z = complete_loop 0 z"

section \<open>The specification\<close>

text \<open>The tokens of a text, blanks left out: \<open>None\<close> when a comment, name or string has no end.\<close>

function tokens :: "string \<Rightarrow> nat list option" where
  "tokens z =
    (case scan_token z of Unclosed \<Rightarrow> None | At_end \<Rightarrow> Some []
     | Token t r \<Rightarrow> map_option (\<lambda>ts. if t = tkWS then ts else t # ts) (tokens r))"
  by auto
termination by (relation "measure length") (auto simp: scan_token_length)

declare tokens.simps [simp del]

text \<open>
  A trigger definition starts with \<open>CREATE TRIGGER\<close>, possibly after \<open>EXPLAIN\<close> and other words and with
  \<open>TEMP\<close> in between; the rest of the tokens after that.
\<close>

definition after_create :: "nat list \<Rightarrow> nat list option" where
  "after_create ts = (case dropWhile (\<lambda>t. t = tkTEMP) ts of [] \<Rightarrow> None | t # r \<Rightarrow> if t = tkTRIGGER then Some r else None)"

definition at_create :: "nat list \<Rightarrow> nat list option" where
  "at_create ts = (case ts of [] \<Rightarrow> None | t # r \<Rightarrow> if t = tkCREATE then after_create r else None)"

definition trigger_body :: "nat list \<Rightarrow> nat list option" where
  "trigger_body ts =
    (case ts of [] \<Rightarrow> None
     | t # r \<Rightarrow> at_create (if t = tkEXPLAIN then dropWhile (\<lambda>t. t = tkOTHER) r else ts))"

text \<open>What follows the first \<open>;END;\<close>, and the first semicolon.\<close>

fun after_trigger :: "nat list \<Rightarrow> nat list option" where
  "after_trigger (a # b # c # ts) =
    (if a = tkSEMI \<and> b = tkEND \<and> c = tkSEMI then Some ts else after_trigger (b # c # ts))"
| "after_trigger ts = None"

fun after_semi :: "nat list \<Rightarrow> nat list option" where
  "after_semi [] = None"
| "after_semi (t # ts) = (if t = tkSEMI then Some ts else after_semi ts)"

definition after_statement :: "nat list \<Rightarrow> nat list option" where
  "after_statement ts = (case trigger_body ts of Some r \<Rightarrow> after_trigger r | None \<Rightarrow> after_semi ts)"

lemma after_trigger_length: "after_trigger ts = Some r \<Longrightarrow> length r < length ts"
  by (induction ts rule: after_trigger.induct) (auto split: if_splits)

lemma after_semi_length: "after_semi ts = Some r \<Longrightarrow> length r < length ts"
  by (induction ts) (auto split: if_splits)

lemma after_create_length: "after_create ts = Some r \<Longrightarrow> length r < length ts"
  using length_dropWhile_le [of "\<lambda>t. t = tkTEMP" ts] by (auto simp: after_create_def split: list.splits if_splits)

lemma at_create_length: "at_create ts = Some r \<Longrightarrow> length r < length ts"
  by (auto simp: at_create_def split: list.splits if_splits dest: after_create_length)

lemma trigger_body_length: "trigger_body ts = Some r \<Longrightarrow> length r < length ts"
proof (cases ts)
  case (Cons t u)
  assume "trigger_body ts = Some r"
  then show ?thesis
    using Cons length_dropWhile_le [of "\<lambda>t. t = tkOTHER" u] by (fastforce simp: trigger_body_def dest: at_create_length split: if_splits)
qed (simp add: trigger_body_def)

lemma after_statement_length: "after_statement ts = Some r \<Longrightarrow> length r < length ts"
  using trigger_body_length [of ts] after_trigger_length after_semi_length
  by (fastforce simp: after_statement_def split: option.splits)

text \<open>A text made of whole statements.\<close>

function whole_statements :: "nat list \<Rightarrow> bool" where
  "whole_statements ts = (ts = [] \<or> (case after_statement ts of None \<Rightarrow> False | Some r \<Rightarrow> whole_statements r))"
  by auto
termination by (relation "measure length") (auto simp: after_statement_length)

declare whole_statements.simps [simp del]

section \<open>The automaton and the specification\<close>

lemma not_semi [simp]: "tkOTHER \<noteq> tkSEMI" "tkEXPLAIN \<noteq> tkSEMI" "tkTEMP \<noteq> tkSEMI" "tkCREATE \<noteq> tkSEMI"
  by (simp_all add: tk_defs)

definition run :: "nat \<Rightarrow> nat list \<Rightarrow> nat" where "run s ts = foldl (\<lambda>s t. trans_table ! s ! t) s ts"

lemma run_simps [simp]: "run s [] = s" "run s (t # ts) = run (trans_table ! s ! t) ts"
  by (simp_all add: run_def)

lemma less_8: "(t :: nat) < 8 \<longleftrightarrow> t \<in> {0, 1, 2, 3, 4, 5, 6, 7}"
  by auto

lemma word_token_less: "word_token_code z n < 8"
  by (simp add: word_token_code_def Let_def tk_defs)

lemma scan_token_less: "scan_token z = Token t r \<Longrightarrow> t < 8"
proof (cases z)
  case (Cons c u)
  assume "scan_token z = Token t r"
  then show ?thesis using word_token_less
    by (auto simp: Cons Let_def closed_by_def tk_defs split: if_splits option.splits)
qed simp

lemma trans_less: "s < 8 \<Longrightarrow> t < 8 \<Longrightarrow> trans_table ! s ! t < 8"
  by (auto simp: less_8 trans_table_def)

lemma trans_ws: "s < 8 \<Longrightarrow> trans_table ! s ! tkWS = s"
  by (auto simp: less_8 trans_table_def tkWS_def)

lemma complete_loop_run: "s < 8 \<Longrightarrow> complete_loop s z = (case tokens z of None \<Rightarrow> False | Some ts \<Rightarrow> run s ts = 1)"
proof (induction s z rule: complete_loop.induct)
  case (1 s z)
  show ?case
  proof (cases "scan_token z")
    case (Token t r)
    then have t: "t < 8" by (rule scan_token_less)
    have "complete_loop s z = complete_loop (trans_table ! s ! t) r" by (subst complete_loop.simps) (simp add: Token)
    also have "\<dots> = (case tokens r of None \<Rightarrow> False | Some ts \<Rightarrow> run (trans_table ! s ! t) ts = 1)"
      using 1 Token t trans_less by blast
    also have "\<dots> = (case tokens z of None \<Rightarrow> False | Some ts \<Rightarrow> run s ts = 1)"
      using trans_ws [OF "1.prems"] by (subst (2) tokens.simps) (auto simp: Token split: option.splits)
    finally show ?thesis .
  qed (subst complete_loop.simps, subst tokens.simps, simp)+
qed

lemma tokens_less: "tokens z = Some ts \<Longrightarrow> list_all (\<lambda>t. t < 8 \<and> t \<noteq> tkWS) ts"
proof (induction z arbitrary: ts rule: tokens.induct)
  case (1 z)
  then show ?case using scan_token_less [of z]
    by (subst (asm) (2) tokens.simps) (auto split: scanned.splits option.splits if_splits)
qed

lemma after_trigger_other: "t \<noteq> tkSEMI \<Longrightarrow> after_trigger (t # ts) = after_trigger ts"
  by (cases ts rule: after_trigger.cases) auto

lemma after_trigger_semi: "t \<noteq> tkEND \<Longrightarrow> after_trigger (tkSEMI # t # ts) = after_trigger (t # ts)"
  by (cases ts) auto

lemma after_trigger_end: "t \<noteq> tkSEMI \<Longrightarrow> after_trigger (tkSEMI # tkEND # t # ts) = after_trigger ts"
  by (simp add: after_trigger_other tk_defs)

definition then_start :: "nat list option \<Rightarrow> bool" where
  "then_start r = (case r of None \<Rightarrow> False | Some ts \<Rightarrow> run 1 ts = 1)"

lemma then_start_simps [simp]: "then_start None = False" "then_start (Some ts) = (run 1 ts = 1)"
  by (simp_all add: then_start_def)

lemma run_trigger:
  "list_all (\<lambda>t. t < 8 \<and> t \<noteq> tkWS) ts \<Longrightarrow>
   (run 5 ts = 1 \<longleftrightarrow> then_start (after_trigger ts)) \<and>
   (run 6 ts = 1 \<longleftrightarrow> then_start (after_trigger (tkSEMI # ts))) \<and>
   (run 7 ts = 1 \<longleftrightarrow> then_start (after_trigger (tkSEMI # tkEND # ts)))"
proof (induction ts)
  case (Cons t ts)
  then have IH: "run 5 ts = 1 \<longleftrightarrow> then_start (after_trigger ts)" "run 6 ts = 1 \<longleftrightarrow> then_start (after_trigger (tkSEMI # ts))"
      "run 7 ts = 1 \<longleftrightarrow> then_start (after_trigger (tkSEMI # tkEND # ts))" and t: "t < 8" "t \<noteq> tkWS" by simp_all
  consider (semi) "t = tkSEMI" | (e) "t = tkEND" | (other) "t \<noteq> tkSEMI" "t \<noteq> tkEND" by blast
  then show ?case
  proof cases
    case semi
    then have "trans_table ! 5 ! t = 6" "trans_table ! 6 ! t = 6" "trans_table ! 7 ! t = 1" by (simp_all add: trans_table_def tk_defs)
    moreover have "after_trigger (tkSEMI # tkSEMI # ts) = after_trigger (tkSEMI # ts)"
      by (rule after_trigger_semi) (simp add: tk_defs)
    ultimately show ?thesis using IH semi by simp
  next
    case e
    then have "trans_table ! 5 ! t = 5" "trans_table ! 6 ! t = 7" "trans_table ! 7 ! t = 5" by (simp_all add: trans_table_def tk_defs)
    moreover have "after_trigger (tkEND # ts) = after_trigger ts" "after_trigger (tkSEMI # tkEND # tkEND # ts) = after_trigger ts"
      by (rule after_trigger_other after_trigger_end, simp add: tk_defs)+
    ultimately show ?thesis using IH e by simp
  next
    case other
    then have "trans_table ! 5 ! t = 5" "trans_table ! 6 ! t = 5" "trans_table ! 7 ! t = 5"
      using t by (auto simp: trans_table_def tk_defs less_8)
    then show ?thesis using IH other after_trigger_other [of t ts] after_trigger_semi [of t ts] after_trigger_end [of t ts] by simp
  qed
qed (simp add: tk_defs)

lemma run_plain: "list_all (\<lambda>t. t < 8 \<and> t \<noteq> tkWS) ts \<Longrightarrow> run 2 ts = 1 \<longleftrightarrow> then_start (after_semi ts)"
  by (induction ts) (auto simp: less_8 trans_table_def tk_defs)

lemma run_create:
  "list_all (\<lambda>t. t < 8 \<and> t \<noteq> tkWS) ts \<Longrightarrow>
   run 4 ts = 1 \<longleftrightarrow> then_start (case after_create ts of Some r \<Rightarrow> after_trigger r | None \<Rightarrow> after_semi ts)"
proof (induction ts)
  case (Cons t ts)
  then have t: "t < 8" "t \<noteq> tkWS" and ts: "list_all (\<lambda>t. t < 8 \<and> t \<noteq> tkWS) ts" by simp_all
  consider (temp) "t = tkTEMP" | (trig) "t = tkTRIGGER" | (other) "t \<noteq> tkTEMP" "t \<noteq> tkTRIGGER" by blast
  then show ?case
  proof cases
    case temp
    then have "trans_table ! 4 ! t = 4" "t \<noteq> tkSEMI" by (simp_all add: trans_table_def tk_defs)
    moreover have "after_create (t # ts) = after_create ts" using temp by (simp add: after_create_def tk_defs)
    ultimately show ?thesis using Cons.IH [OF ts] temp by (simp split: option.split)
  next
    case trig
    then have "trans_table ! 4 ! t = 5" "t \<noteq> tkTEMP" by (simp_all add: trans_table_def tk_defs)
    then show ?thesis using run_trigger [OF ts] trig by (simp add: after_create_def)
  next
    case other
    then have "trans_table ! 4 ! t = (if t = tkSEMI then 1 else 2)" using t by (auto simp: trans_table_def tk_defs less_8)
    then show ?thesis using run_plain [OF ts] other by (simp add: after_create_def)
  qed
qed (simp add: after_create_def)


definition after_from :: "nat list option \<Rightarrow> nat list \<Rightarrow> nat list option" where
  "after_from b ts = (case b of Some r \<Rightarrow> after_trigger r | None \<Rightarrow> after_semi ts)"

lemma run_explain:
  "list_all (\<lambda>t. t < 8 \<and> t \<noteq> tkWS) ts \<Longrightarrow>
   run 3 ts = 1 \<longleftrightarrow> then_start (after_from (at_create (dropWhile (\<lambda>t. t = tkOTHER) ts)) ts)"
proof (induction ts)
  case (Cons t ts)
  then have t: "t < 8" "t \<noteq> tkWS" and ts: "list_all (\<lambda>t. t < 8 \<and> t \<noteq> tkWS) ts" by simp_all
  consider (oth) "t = tkOTHER" | (cr) "t = tkCREATE" | (other) "t \<noteq> tkOTHER" "t \<noteq> tkCREATE" by blast
  then show ?case
  proof cases
    case oth
    then have "trans_table ! 3 ! t = 3" by (simp_all add: trans_table_def tk_defs)
    then show ?thesis using Cons.IH [OF ts] oth by (simp add: after_from_def split: option.split)
  next
    case cr
    then have "trans_table ! 3 ! t = 4" "t \<noteq> tkOTHER" by (simp_all add: trans_table_def tk_defs)
    then show ?thesis using run_create [OF ts] cr by (simp add: after_from_def at_create_def split: option.split)
  next
    case other
    then have "trans_table ! 3 ! t = (if t = tkSEMI then 1 else 2)" using t by (auto simp: trans_table_def tk_defs less_8)
    then show ?thesis using run_plain [OF ts] other by (simp add: after_from_def at_create_def)
  qed
qed (simp add: after_from_def at_create_def)

lemma run_statement:
  assumes "list_all (\<lambda>t. t < 8 \<and> t \<noteq> tkWS) ts" "ts \<noteq> []" "s \<le> 1"
  shows "run s ts = 1 \<longleftrightarrow> then_start (after_statement ts)"
proof -
  obtain t u where ts: "ts = t # u" using assms(2) by (cases ts) auto
  have t: "t < 8" "t \<noteq> tkWS" and u: "list_all (\<lambda>t. t < 8 \<and> t \<noteq> tkWS) u" using assms(1) ts by simp_all
  have st: "after_statement ts = after_from (trigger_body ts) ts" by (simp add: after_statement_def after_from_def)
  have s: "s = 0 \<or> s = 1" using assms(3) by auto
  consider (ex) "t = tkEXPLAIN" | (cr) "t = tkCREATE" | (other) "t \<noteq> tkEXPLAIN" "t \<noteq> tkCREATE" by blast
  then show ?thesis
  proof cases
    case ex
    then have "trans_table ! s ! t = 3" using s by (auto simp: trans_table_def tk_defs ts)
    then show ?thesis unfolding st unfolding ts using run_explain [OF u] ex by (simp add: trigger_body_def after_from_def split: option.split)
  next
    case cr
    then have "trans_table ! s ! t = 4" "t \<noteq> tkEXPLAIN" using s by (auto simp: trans_table_def tk_defs ts)
    then show ?thesis unfolding st unfolding ts using run_create [OF u] cr by (simp add: trigger_body_def after_from_def at_create_def split: option.split)
  next
    case other
    then have "trans_table ! s ! t = (if t = tkSEMI then 1 else 2)" using t s by (auto simp: trans_table_def tk_defs less_8)
    then show ?thesis unfolding st unfolding ts using run_plain [OF u] other by (simp add: trigger_body_def after_from_def at_create_def)
  qed
qed

lemma after_trigger_suffix: "after_trigger ts = Some r \<Longrightarrow> \<exists>p. ts = p @ r"
  by (induction ts rule: after_trigger.induct) (auto split: if_splits)

lemma after_semi_suffix: "after_semi ts = Some r \<Longrightarrow> \<exists>p. ts = p @ r"
  by (induction ts) (auto split: if_splits)

lemma dropWhile_suffix: "dropWhile P ts = x # r \<Longrightarrow> \<exists>p. ts = p @ r"
  by (metis append.assoc append_Cons append_Nil takeWhile_dropWhile_id)

lemma after_create_suffix: "after_create ts = Some r \<Longrightarrow> \<exists>p. ts = p @ r"
  by (auto simp: after_create_def split: list.splits if_splits dest: dropWhile_suffix)

lemma at_create_suffix: "at_create ts = Some r \<Longrightarrow> \<exists>p. ts = p @ r"
  by (cases ts) (auto simp: at_create_def split: if_splits dest!: after_create_suffix intro: exI [of _ "_ # _"])

lemma trigger_body_suffix: "trigger_body ts = Some r \<Longrightarrow> \<exists>p. ts = p @ r"
proof (cases ts)
  case (Cons t u)
  assume "trigger_body ts = Some r"
  then have "at_create ts = Some r \<or> at_create (dropWhile (\<lambda>t. t = tkOTHER) u) = Some r"
    by (auto simp: trigger_body_def Cons split: if_splits)
  then obtain p where "ts = p @ r \<or> dropWhile (\<lambda>t. t = tkOTHER) u = p @ r" by (metis at_create_suffix)
  then have "ts = p @ r \<or> ts = (t # takeWhile (\<lambda>t. t = tkOTHER) u @ p) @ r"
    using Cons by (metis append.assoc append_Cons takeWhile_dropWhile_id)
  then show ?thesis by blast
qed (simp add: trigger_body_def)

lemma after_statement_suffix: "after_statement ts = Some r \<Longrightarrow> \<exists>p. ts = p @ r"
proof (cases "trigger_body ts")
  case (Some b)
  assume "after_statement ts = Some r"
  then have "after_trigger b = Some r" by (simp add: after_statement_def Some)
  then show ?thesis using trigger_body_suffix [OF Some] after_trigger_suffix [of b r] by (metis append.assoc)
qed (auto simp: after_statement_def dest: after_semi_suffix)

lemma run_statements:
  "list_all (\<lambda>t. t < 8 \<and> t \<noteq> tkWS) ts \<Longrightarrow> run 1 ts = 1 \<longleftrightarrow> whole_statements ts"
proof (induction ts rule: whole_statements.induct)
  case (1 ts)
  show ?case
  proof (cases "ts = []")
    case False
    have "then_start (after_statement ts) \<longleftrightarrow> (case after_statement ts of None \<Rightarrow> False | Some r \<Rightarrow> whole_statements r)"
    proof (cases "after_statement ts")
      case (Some r)
      then obtain p where "ts = p @ r" using after_statement_suffix by blast
      then have "run 1 r = 1 \<longleftrightarrow> whole_statements r" using 1 False Some by auto
      then show ?thesis by (simp add: Some)
    qed simp
    then show ?thesis using run_statement [OF 1(2) False, of 1] False by (subst whole_statements.simps) simp
  qed (subst whole_statements.simps, simp)
qed

text \<open>
  C14. \<open>sqlite3_complete\<close> accepts exactly the texts with at least one token that are made of whole
  statements: plain ones up to their semicolon, and trigger definitions up to \<open>;END;\<close>.  A text that
  ends inside a string, a quoted name or a C comment is not complete; the loop always ends.
\<close>

theorem complete_correct:
  "sqlite3_complete z \<longleftrightarrow> (case tokens z of None \<Rightarrow> False | Some ts \<Rightarrow> ts \<noteq> [] \<and> whole_statements ts)"
proof (cases "tokens z")
  case None
  then show ?thesis by (simp add: sqlite3_complete_def complete_loop_run)
next
  case (Some ts)
  note ok = tokens_less [OF Some]
  have "run 0 ts = 1 \<longleftrightarrow> ts \<noteq> [] \<and> whole_statements ts"
  proof (cases "ts = []")
    case False
    have "run 0 ts = 1 \<longleftrightarrow> run 1 ts = 1" using run_statement [OF ok False, of 0] run_statement [OF ok False, of 1] by simp
    then show ?thesis using run_statements [OF ok] False by simp
  qed simp
  then show ?thesis by (simp add: sqlite3_complete_def complete_loop_run Some)
qed

end
