(* ===== verification/Utf.thy ===== *)
theory Utf
  imports Numtext
begin

text \<open>
  Unicode encodings (\<open>utf.c\<close>): reading and writing characters in UTF-8 and UTF-16 and the translation
  of a text between the encodings.  A text is the list of its bytes without the terminator; reading
  at its end gives the terminator, which is never passed.
\<close>

section \<open>Reading and writing characters\<close>

definition sqlite3Utf8Trans1 :: "u32 list" where
  "sqlite3Utf8Trans1 =
    [0x00, 0x01, 0x02, 0x03, 0x04, 0x05, 0x06, 0x07, 0x08, 0x09, 0x0a, 0x0b, 0x0c, 0x0d, 0x0e, 0x0f,
     0x10, 0x11, 0x12, 0x13, 0x14, 0x15, 0x16, 0x17, 0x18, 0x19, 0x1a, 0x1b, 0x1c, 0x1d, 0x1e, 0x1f,
     0x00, 0x01, 0x02, 0x03, 0x04, 0x05, 0x06, 0x07, 0x08, 0x09, 0x0a, 0x0b, 0x0c, 0x0d, 0x0e, 0x0f,
     0x00, 0x01, 0x02, 0x03, 0x04, 0x05, 0x06, 0x07, 0x00, 0x01, 0x02, 0x03, 0x00, 0x01, 0x00, 0x00]"

definition WRITE_UTF8 :: "u32 \<Rightarrow> u8 list" where
  "WRITE_UTF8 c =
    (if c < 0x80 then [ucast (c AND 0xFF)]
     else if c < 0x800 then [0xC0 + ucast (drop_bit 6 c AND 0x1F), 0x80 + ucast (c AND 0x3F)]
     else if c < 0x10000 then
       [0xE0 + ucast (drop_bit 12 c AND 0x0F), 0x80 + ucast (drop_bit 6 c AND 0x3F), 0x80 + ucast (c AND 0x3F)]
     else
       [0xF0 + ucast (drop_bit 18 c AND 0x07), 0x80 + ucast (drop_bit 12 c AND 0x3F),
        0x80 + ucast (drop_bit 6 c AND 0x3F), 0x80 + ucast (c AND 0x3F)])"

definition WRITE_UTF16LE :: "u32 \<Rightarrow> u8 list" where
  "WRITE_UTF16LE c =
    (if c \<le> 0xFFFF then [ucast (c AND 0x00FF), ucast (drop_bit 8 c AND 0x00FF)]
     else
       [ucast ((drop_bit 10 c AND 0x003F) + (drop_bit 10 (c - 0x10000) AND 0x00C0)),
        ucast (0x00D8 + (drop_bit 18 (c - 0x10000) AND 0x03)),
        ucast (c AND 0x00FF), ucast (0x00DC + (drop_bit 8 c AND 0x03))])"

definition WRITE_UTF16BE :: "u32 \<Rightarrow> u8 list" where
  "WRITE_UTF16BE c =
    (if c \<le> 0xFFFF then [ucast (drop_bit 8 c AND 0x00FF), ucast (c AND 0x00FF)]
     else
       [ucast (0x00D8 + (drop_bit 18 (c - 0x10000) AND 0x03)),
        ucast ((drop_bit 10 c AND 0x003F) + (drop_bit 10 (c - 0x10000) AND 0x00C0)),
        ucast (0x00DC + (drop_bit 8 c AND 0x03)), ucast (c AND 0x00FF)])"

text \<open>The bytes that \<open>sqlite3AppendOneUtf8Character\<close> stores, and their number.\<close>

definition sqlite3AppendOneUtf8Character :: "u32 \<Rightarrow> u8 list \<times> nat" where
  "sqlite3AppendOneUtf8Character v =
    (if v < 0x80 then ([ucast (v AND 0xff)], 1)
     else if v < 0x800 then ([0xc0 + ucast (drop_bit 6 v AND 0x1f), 0x80 + ucast (v AND 0x3f)], 2)
     else if v < 0x10000 then
       ([0xe0 + ucast (drop_bit 12 v AND 0x0f), 0x80 + ucast (drop_bit 6 v AND 0x3f), 0x80 + ucast (v AND 0x3f)], 3)
     else
       ([0xf0 + ucast (drop_bit 18 v AND 0x07), 0x80 + ucast (drop_bit 12 v AND 0x3f),
         0x80 + ucast (drop_bit 6 v AND 0x3f), 0x80 + ucast (v AND 0x3f)], 4))"

definition cont_byte :: "u8 \<Rightarrow> bool" where "cont_byte b \<longleftrightarrow> b AND 0xc0 = 0x80"

text \<open>The loop over continuation bytes: the 32-bit accumulator and the bytes that are left.\<close>

fun utf8_tail :: "u32 \<Rightarrow> u8 list \<Rightarrow> u32 \<times> u8 list" where
  "utf8_tail c [] = (c, [])"
| "utf8_tail c (b # z) = (if cont_byte b then utf8_tail (push_bit 6 c + (0x3f AND ucast b)) z else (c, b # z))"

definition utf8_invalid :: "u32 \<Rightarrow> bool" where
  "utf8_invalid c \<longleftrightarrow> c < 0x80 \<or> c AND 0xFFFFF800 = 0xD800 \<or> c AND 0xFFFFFFFE = 0xFFFE"

fun READ_UTF8 :: "u8 list \<Rightarrow> u32 \<times> u8 list" where
  "READ_UTF8 [] = (0, [])"
| "READ_UTF8 (b # z) =
    (if 0xc0 \<le> b then
       (case utf8_tail (sqlite3Utf8Trans1 ! unat (b - 0xc0)) z of (c, z) \<Rightarrow> (if utf8_invalid c then 0xFFFD else c, z))
     else (ucast b, z))"

definition sqlite3Utf8Read :: "u8 list \<Rightarrow> u32 \<times> u8 list" where "sqlite3Utf8Read z = READ_UTF8 z"

text \<open>\<open>SQLITE_SKIP_UTF8\<close> and the macro \<open>Utf8Read\<close> of \<open>func.c\<close>, which reads ASCII without the call.\<close>

fun SQLITE_SKIP_UTF8 :: "u8 list \<Rightarrow> u8 list" where
  "SQLITE_SKIP_UTF8 [] = []"
| "SQLITE_SKIP_UTF8 (b # z) = (if 0xc0 \<le> b then dropWhile cont_byte z else z)"

definition Utf8Read :: "u8 list \<Rightarrow> u32 \<times> u8 list" where
  "Utf8Read A = (case A of [] \<Rightarrow> (0, []) | b # z \<Rightarrow> if b < 0x80 then (ucast b, z) else sqlite3Utf8Read A)"

text \<open>\<open>sqlite3Utf8ReadLimited\<close> on at most \<open>n\<close> bytes: the number of bytes and the character.\<close>

definition sqlite3Utf8ReadLimited :: "u8 list \<Rightarrow> nat \<Rightarrow> nat \<times> u32" where
  "sqlite3Utf8ReadLimited z n =
    (case z of [] \<Rightarrow> (0, 0)
     | b # r \<Rightarrow>
       if 0xc0 \<le> b then
         let r = take (min n 4 - 1) r; (c, r') = utf8_tail (sqlite3Utf8Trans1 ! unat (b - 0xc0)) r
         in (1 + (length r - length r'), c)
       else (1, ucast b))"

lemma utf8_tail_drop: "snd (utf8_tail c z) = dropWhile cont_byte z"
  by (induction c z rule: utf8_tail.induct) auto

lemma READ_UTF8_rest: "snd (READ_UTF8 (b # z)) = (if 0xc0 \<le> b then dropWhile cont_byte z else z)"
  using utf8_tail_drop by (auto simp: split_beta)

lemma READ_UTF8_length: "z \<noteq> [] \<Longrightarrow> length (snd (READ_UTF8 z)) < length z"
  using length_dropWhile_le [of cont_byte "tl z"] by (cases z) (auto simp: READ_UTF8_rest simp del: READ_UTF8.simps)

lemma skip_read: "SQLITE_SKIP_UTF8 z = snd (READ_UTF8 z)"
  by (cases z) (simp_all add: READ_UTF8_rest del: READ_UTF8.simps(2))

text \<open>
  \<open>sqlite3Utf8CharLen\<close>: the loop over the bytes that are left and, when \<open>nByte\<close> is not negative, the
  number of bytes to the limit.
\<close>

function charlen_loop :: "u8 list \<Rightarrow> nat option \<Rightarrow> nat \<Rightarrow> nat" where
  "charlen_loop z lim r =
    (if z \<noteq> [] \<and> hd z \<noteq> 0 \<and> lim \<noteq> Some 0
     then let z' = SQLITE_SKIP_UTF8 z
          in charlen_loop z' (map_option (\<lambda>n. n - (length z - length z')) lim) (r + 1)
     else r)"
  by auto
termination by (relation "measure (\<lambda>(z, l, r). length z)") (auto simp: skip_read READ_UTF8_length)

definition sqlite3Utf8CharLen :: "u8 list \<Rightarrow> int \<Rightarrow> nat" where
  "sqlite3Utf8CharLen z nByte = charlen_loop z (if 0 \<le> nByte then Some (nat nByte) else None) 0"

section \<open>Translation between the encodings\<close>

text \<open>One character of a UTF-16 text, in the byte order of the text; the length of the text is even.\<close>

definition unit16 :: "bool \<Rightarrow> u8 \<Rightarrow> u8 \<Rightarrow> u32" where
  "unit16 be a b = (if be then push_bit 8 (ucast a) + ucast b else ucast a + push_bit 8 (ucast b))"

fun read_utf16 :: "bool \<Rightarrow> u8 list \<Rightarrow> u32 \<times> u8 list" where
  "read_utf16 be (a # b # z) =
    (let c = unit16 be a b
     in if 0xd800 \<le> c \<and> c < 0xe000 then
          (case z of a2 # b2 # z2 \<Rightarrow>
             let c2 = unit16 be a2 b2
             in ((c2 AND 0x03FF) + push_bit 10 (c AND 0x003F) + push_bit 10 ((c AND 0x03C0) + 0x0040), z2)
           | _ \<Rightarrow> (c, z))
        else (c, z))"
| "read_utf16 be z = (0, [])"

lemma read_utf16_length: "z \<noteq> [] \<Longrightarrow> length (snd (read_utf16 be z)) < length z"
  by (cases "(be, z)" rule: read_utf16.cases) (auto simp: Let_def split: list.splits)

function utf8_to_utf16 :: "bool \<Rightarrow> u8 list \<Rightarrow> u8 list" where
  "utf8_to_utf16 be z =
    (if z = [] then []
     else let (c, r) = READ_UTF8 z in (if be then WRITE_UTF16BE c else WRITE_UTF16LE c) @ utf8_to_utf16 be r)"
  by auto
termination
proof (relation "measure (\<lambda>(be, z). length z)")
  fix be z x c r
  assume "z \<noteq> []" "x = READ_UTF8 z" "(c, r) = x"
  then show "((be, r), be, z) \<in> measure (\<lambda>(be, z). length z)" using READ_UTF8_length [of z] by (metis case_prod_conv in_measure snd_conv)
qed simp

function utf16_to_utf8 :: "bool \<Rightarrow> u8 list \<Rightarrow> u8 list" where
  "utf16_to_utf8 be z = (if z = [] then [] else let (c, r) = read_utf16 be z in WRITE_UTF8 c @ utf16_to_utf8 be r)"
  by auto
termination
proof (relation "measure (\<lambda>(be, z). length z)")
  fix be z x c r
  assume "z \<noteq> []" "x = read_utf16 be z" "(c, r) = x"
  then show "((be, r), be, z) \<in> measure (\<lambda>(be, z). length z)" using read_utf16_length [of z be] by (metis case_prod_conv in_measure snd_conv)
qed simp

fun swap_bytes :: "u8 list \<Rightarrow> u8 list" where
  "swap_bytes (a # b # z) = b # a # swap_bytes z"
| "swap_bytes z = z"

declare utf8_to_utf16.simps [simp del] utf16_to_utf8.simps [simp del]

text \<open>
  The text of a memory cell: its bytes and their encoding, \<open>None\<close> when the cell has become NULL.  The
  argument \<open>ok\<close> says whether the allocations succeed.  The output buffer of a translation has
  \<open>len\<close> bytes; \<open>None\<close> as the result is a write behind its end.
\<close>

record text_cell =
  tbytes :: "u8 list option"
  tenc :: nat

definition sqlite3VdbeMemTranslate :: "bool \<Rightarrow> text_cell \<Rightarrow> nat \<Rightarrow> (nat \<times> text_cell) option" where
  "sqlite3VdbeMemTranslate ok p desiredEnc =
    (case tbytes p of None \<Rightarrow> None
     | Some z \<Rightarrow>
       if tenc p \<noteq> SQLITE_UTF8 \<and> desiredEnc \<noteq> SQLITE_UTF8 then
         (if ok then Some (SQLITE_OK, \<lparr>tbytes = Some (swap_bytes z), tenc = desiredEnc\<rparr>)
          else Some (SQLITE_NOMEM, p\<lparr>tbytes := None\<rparr>))
       else
         let z = (if desiredEnc = SQLITE_UTF8 then take (length z - length z mod 2) z else z);
             len = (if desiredEnc = SQLITE_UTF8 then 2 * length z + 1 else 2 * length z + 2)
         in if \<not> ok then Some (SQLITE_NOMEM, p\<lparr>tbytes := Some z\<rparr>)
            else let out = (if tenc p = SQLITE_UTF8 then utf8_to_utf16 (desiredEnc \<noteq> SQLITE_UTF16LE) z
                            else utf16_to_utf8 (tenc p \<noteq> SQLITE_UTF16LE) z)
                 in if length out + (if desiredEnc = SQLITE_UTF8 then 1 else 2) \<le> len
                    then Some (SQLITE_OK, \<lparr>tbytes = Some out, tenc = desiredEnc\<rparr>) else None)"

definition sqlite3VdbeChangeEncoding :: "bool \<Rightarrow> text_cell \<Rightarrow> nat \<Rightarrow> (nat \<times> text_cell) option" where
  "sqlite3VdbeChangeEncoding ok p desiredEnc =
    (if tbytes p = None then Some (SQLITE_OK, p\<lparr>tenc := desiredEnc\<rparr>)
     else if tenc p = desiredEnc then Some (SQLITE_OK, p) else sqlite3VdbeMemTranslate ok p desiredEnc)"

definition sqlite3VdbeMemHandleBom :: "bool \<Rightarrow> text_cell \<Rightarrow> nat \<times> text_cell" where
  "sqlite3VdbeMemHandleBom ok p =
    (case tbytes p of
       Some (b1 # b2 # z) \<Rightarrow>
         let bom = (if b1 = 0xFF \<and> b2 = 0xFE then SQLITE_UTF16LE else if b1 = 0xFE \<and> b2 = 0xFF then SQLITE_UTF16BE else 0)
         in if bom \<noteq> 0 then
              (if ok then (SQLITE_OK, \<lparr>tbytes = Some z, tenc = bom\<rparr>) else (SQLITE_NOMEM, p\<lparr>tbytes := None\<rparr>))
            else (SQLITE_OK, p)
     | _ \<Rightarrow> (SQLITE_OK, p))"


section \<open>Bytes and characters as numbers\<close>

lemma mask_nums: "(0x03 :: u32) = mask 2" "(0x07 :: u32) = mask 3" "(0x0F :: u32) = mask 4" "(0x1F :: u32) = mask 5" "(0x3F :: u32) = mask 6"
  "(0xFF :: u32) = mask 8" "(0x3FF :: u32) = mask 10"
  by (simp_all add: mask_eq_exp_minus_1)

lemma and_nums: "x AND (0x03 :: u32) = take_bit 2 x" "x AND (0x07 :: u32) = take_bit 3 x" "x AND (0x0F :: u32) = take_bit 4 x"
  "x AND (0x1F :: u32) = take_bit 5 x" "x AND (0x3F :: u32) = take_bit 6 x" "x AND (0xFF :: u32) = take_bit 8 x" "x AND (0x3FF :: u32) = take_bit 10 x"
  unfolding mask_nums by (simp_all only: take_bit_eq_mask)

lemma u8_less: "unat (b :: u8) < 256"
proof -
  have "(unsigned b :: nat) < 2 ^ LENGTH(8)" by (rule unsigned_less)
  then show ?thesis by simp
qed

lemma u32_less: "unat (x :: u32) < 4294967296"
proof -
  have "(unsigned x :: nat) < 2 ^ LENGTH(32)" by (rule unsigned_less)
  then show ?thesis by simp
qed

lemma unat_parts: "unat (take_bit n (x :: u32)) = unat x mod 2 ^ n" "unat (drop_bit n x) = unat x div 2 ^ n"
  by (rule trans [OF unsigned_take_bit_eq take_bit_eq_mod], rule trans [OF unsigned_drop_bit_eq], use u32_less [of x] in \<open>simp add: drop_bit_eq_div take_bit_nat_eq_self\<close>)

lemma u8_by_table:
  assumes "list_all (\<lambda>n. P (of_nat n) = Q n) [0..<256]"
  shows "P (b :: u8) = Q (unat b)"
  using assms u8_less [of b] by (auto simp: list_all_iff dest: bspec [of _ _ "unat b"])

lemma cont_byte_unat: "cont_byte b \<longleftrightarrow> 128 \<le> unat b \<and> unat b < 192"
  by (rule u8_by_table [where P = cont_byte]) (simp add: upt_rec cont_byte_def)

lemma lead_byte_unat: "0xc0 \<le> b \<longleftrightarrow> 192 \<le> unat (b :: u8)"
  by (simp add: word_le_nat_alt)

lemma unat_u8_u32: "unat (ucast (b :: u8) :: u32) = unat b"
  using u8_less [of b] by (simp add: unsigned_ucast_eq take_bit_nat_eq_self)

lemma low_bits_unat: "(0x3f AND ucast (b :: u8) :: u32) = of_nat (unat b mod 64)"
proof -
  have "(0x3f AND ucast b :: u32) = take_bit 6 (ucast b)" by (simp only: and_nums and.commute)
  also have "\<dots> = of_nat (unat b mod 64)"
    by (rule word_unat_eq_iff [THEN iffD2]) (simp add: unat_parts unat_u8_u32 unsigned_of_nat take_bit_nat_eq_self)
  finally show ?thesis .
qed

lemma tail_step:
  "cont_byte b \<Longrightarrow> utf8_tail (of_nat k) (b # z) = utf8_tail (of_nat (64 * k + unat b mod 64)) z"
  by (simp add: low_bits_unat push_bit_eq_mult algebra_simps)

lemma trans1:
  "m < 32 \<Longrightarrow> sqlite3Utf8Trans1 ! m = of_nat m" "m < 16 \<Longrightarrow> sqlite3Utf8Trans1 ! (32 + m) = of_nat m"
  "m < 8 \<Longrightarrow> sqlite3Utf8Trans1 ! (48 + m) = of_nat m"
proof -
  have "list_all (\<lambda>m. sqlite3Utf8Trans1 ! m = of_nat m) [0..<32]" "list_all (\<lambda>m. sqlite3Utf8Trans1 ! (32 + m) = of_nat m) [0..<16]"
    "list_all (\<lambda>m. sqlite3Utf8Trans1 ! (48 + m) = of_nat m) [0..<8]"
    by (simp_all add: upt_rec sqlite3Utf8Trans1_def)
  then show "m < 32 \<Longrightarrow> sqlite3Utf8Trans1 ! m = of_nat m" "m < 16 \<Longrightarrow> sqlite3Utf8Trans1 ! (32 + m) = of_nat m"
    "m < 8 \<Longrightarrow> sqlite3Utf8Trans1 ! (48 + m) = of_nat m"
    by (simp_all only: list_all_iff set_upt atLeastLessThan_iff Ball_def) simp_all
qed

lemma byte_add: "unat a + unat (y :: u32) < 256 \<Longrightarrow> unat (a + ucast y :: u8) = unat a + unat y"
  by (simp add: unat_word_ariths unsigned_ucast_eq take_bit_eq_mod)

lemma byte_ucast: "unat (y :: u32) < 256 \<Longrightarrow> unat (ucast y :: u8) = unat y"
  by (simp add: unsigned_ucast_eq take_bit_eq_mod)

lemma less_numeral_u32: "unat (numeral k :: u32) = numeral k \<Longrightarrow> (c :: u32) < numeral k \<longleftrightarrow> unat c < numeral k"
  by (simp add: word_less_nat_alt)

text \<open>The bytes of a character as numbers.\<close>

lemma WRITE_UTF8_bytes:
  assumes "unat c < 0x110000"
  shows "map unat (WRITE_UTF8 c) =
    (let n = unat c
     in if n < 128 then [n]
        else if n < 2048 then [192 + n div 64, 128 + n mod 64]
        else if n < 65536 then [224 + n div 4096, 128 + n div 64 mod 64, 128 + n mod 64]
        else [240 + n div 262144, 128 + n div 4096 mod 64, 128 + n div 64 mod 64, 128 + n mod 64])"
proof -
  define n where "n = unat c"
  have lt: "c < 0x80 \<longleftrightarrow> n < 128" "c < 0x800 \<longleftrightarrow> n < 2048" "c < 0x10000 \<longleftrightarrow> n < 65536"
    by (simp_all add: word_less_nat_alt n_def)
  have m: "n div 262144 < 8" using assms by (simp add: n_def less_mult_imp_div_less)
  have p: "unat (take_bit k (drop_bit j c)) = n div 2 ^ j mod 2 ^ k" "unat (take_bit k c) = n mod 2 ^ k" for k j
    by (simp_all only: unat_parts n_def)
  have d1: "n < 2048 \<Longrightarrow> n div 64 < 32" and d2: "n < 65536 \<Longrightarrow> n div 4096 < 16" by (simp_all add: less_mult_imp_div_less)
  show ?thesis
    unfolding WRITE_UTF8_def and_nums Let_def n_def [symmetric] lt
    using m d1 d2 by (simp add: byte_add byte_ucast p)
qed

lemma append_one: "sqlite3AppendOneUtf8Character c = (WRITE_UTF8 c, length (WRITE_UTF8 c))"
  by (simp add: sqlite3AppendOneUtf8Character_def WRITE_UTF8_def)

lemma and_not_mask_u32: "x AND NOT (mask k) = push_bit k (drop_bit k (x :: u32))"
  by (rule bit_word_eqI) (auto simp: bit_simps)

lemma unat_push_drop: "unat (push_bit k (drop_bit k (x :: u32))) = unat x div 2 ^ k * 2 ^ k"
proof -
  define m where "m = unat x div 2 ^ k * 2 ^ k"
  have "m < 4294967296" unfolding m_def using u32_less [of x] div_times_less_eq_dividend [of "unat x" "2 ^ k"] by linarith
  moreover have "push_bit k (drop_bit k x) = of_nat m"
    by (simp add: m_def push_bit_eq_mult unat_parts(2) [symmetric])
  ultimately have "unat (push_bit k (drop_bit k x)) = m" by (simp only: unsigned_of_nat) (simp add: take_bit_nat_eq_self)
  then show ?thesis by (simp only: m_def)
qed

lemma div_block: "0 < k \<Longrightarrow> n div k * k = q * k \<longleftrightarrow> q * k \<le> n \<and> n < q * k + (k :: nat)"
proof
  assume k: "0 < k" and "n div k * k = q * k"
  then show "q * k \<le> n \<and> n < q * k + k"
    using div_mult_mod_eq [of n k] mod_less_divisor [OF k, of n] by linarith
next
  assume "0 < k" "q * k \<le> n \<and> n < q * k + k"
  then have "n div k = q" by (intro div_nat_eqI) (simp_all add: algebra_simps)
  then show "n div k * k = q * k" by simp
qed

lemma utf8_invalid_unat:
  "utf8_invalid c \<longleftrightarrow> unat c < 128 \<or> 0xD800 \<le> unat c \<and> unat c < 0xE000 \<or> unat c = 0xFFFE \<or> unat c = 0xFFFF"
proof -
  have m: "(0xFFFFF800 :: u32) = NOT (mask 11)" "(0xFFFFFFFE :: u32) = NOT (mask 1)" by (simp_all add: mask_eq_exp_minus_1)
  have a: "c AND 0xFFFFF800 = 0xD800 \<longleftrightarrow> unat c div 2048 * 2048 = 0xD800" "c AND 0xFFFFFFFE = 0xFFFE \<longleftrightarrow> unat c div 2 * 2 = 0xFFFE"
    unfolding m and_not_mask_u32 word_unat_eq_iff unat_push_drop by simp_all
  have b: "c < 0x80 \<longleftrightarrow> unat c < 128" by (simp add: word_less_nat_alt)
  have "unat c div 2048 * 2048 = 0xD800 \<longleftrightarrow> 0xD800 \<le> unat c \<and> unat c < 0xE000"
    "unat c div 2 * 2 = 0xFFFE \<longleftrightarrow> unat c = 0xFFFE \<or> unat c = 0xFFFF"
    using div_block [where k = 2048 and n = "unat c" and q = 27] div_block [where k = 2 and n = "unat c" and q = 32767] by auto
  then show ?thesis unfolding utf8_invalid_def a b by blast
qed

lemma read_lead:
  assumes "192 \<le> unat b"
  shows "READ_UTF8 (b # z) = (case utf8_tail (sqlite3Utf8Trans1 ! (unat b - 192)) z of (c, z) \<Rightarrow> (if utf8_invalid c then 0xFFFD else c, z))"
proof -
  have "unat (b - 0xc0) = unat b - 192" using assms by (simp add: unat_sub word_le_nat_alt)
  then show ?thesis using assms by (simp add: lead_byte_unat)
qed

definition no_cont :: "u8 list \<Rightarrow> bool" where "no_cont r \<longleftrightarrow> r = [] \<or> \<not> cont_byte (hd r)"

lemma tail_end: "no_cont r \<Longrightarrow> utf8_tail c r = (c, r)"
  by (cases r) (simp_all add: no_cont_def)

lemma tail_over:
  "list_all cont_byte bs \<Longrightarrow> no_cont r \<Longrightarrow>
   utf8_tail (of_nat k) (bs @ r) = (of_nat (foldl (\<lambda>k n. 64 * k + n mod 64) k (map unat bs)), r)"
proof (induction bs arbitrary: k)
  case (Cons b bs)
  then show ?case using tail_step [of b k "bs @ r"] by (simp del: of_nat_add of_nat_mult utf8_tail.simps)
qed (simp add: tail_end)

lemma digits64: "64 * (n div 64) + (128 + n mod 64) mod 64 = (n :: nat)"
  by (simp add: mod_add_eq [symmetric])

lemma read_write:
  assumes "unat c < 0x110000" "no_cont r"
  shows "READ_UTF8 (WRITE_UTF8 c @ r) = (if 128 \<le> unat c \<and> utf8_invalid c then 0xFFFD else c, r)"
proof (cases "unat c < 128")
  case True
  then obtain b where b: "WRITE_UTF8 c = [b]" "unat b = unat c"
    using WRITE_UTF8_bytes [OF assms(1)] by (auto simp: Let_def)
  moreover have "ucast b = c" using b(2) by (simp add: word_unat_eq_iff unat_u8_u32)
  ultimately show ?thesis using True by (simp add: lead_byte_unat)
next
  case False
  define n where "n = unat c"
  have n: "n < 0x110000" "\<not> n < 128" "of_nat n = c" using assms(1) False by (simp_all add: n_def)
  have "WRITE_UTF8 c \<noteq> []" by (simp add: WRITE_UTF8_def)
  then obtain b bs where w: "WRITE_UTF8 c = b # bs" by (cases "WRITE_UTF8 c") auto
  have bytes: "unat b # map unat bs =
      (if n < 2048 then [192 + n div 64, 128 + n mod 64]
       else if n < 65536 then [224 + n div 4096, 128 + n div 64 mod 64, 128 + n mod 64]
       else [240 + n div 262144, 128 + n div 4096 mod 64, 128 + n div 64 mod 64, 128 + n mod 64])"
    using WRITE_UTF8_bytes [OF assms(1)] w n(2) by (simp add: Let_def n_def [symmetric])
  have lead: "192 \<le> unat b" using bytes by (auto split: if_splits)
  have dv: "n < 2048 \<Longrightarrow> n div 64 < 32" "n < 65536 \<Longrightarrow> n div 4096 < 16" "n div 262144 < 8"
    using n(1) by (simp_all add: less_mult_imp_div_less)
  define m where "m = (if n < 2048 then n div 64 else if n < 65536 then n div 4096 else n div 262144)"
  have mb: "n < 2048 \<Longrightarrow> m < 32" "\<not> n < 2048 \<Longrightarrow> n < 65536 \<Longrightarrow> m < 16" "\<not> n < 65536 \<Longrightarrow> m < 8"
    using dv by (simp_all add: m_def)
  have "unat b - 192 = (if n < 2048 then m else if n < 65536 then 32 + m else 48 + m)"
    using bytes by (auto simp: m_def split: if_splits)
  then have tr: "sqlite3Utf8Trans1 ! (unat b - 192) = of_nat m"
    using trans1 [of m] mb by (auto split: if_splits)
  have "foldl (\<lambda>k n. 64 * k + n mod 64) m (map unat bs) = n"
  proof (cases "n < 2048")
    case True
    then show ?thesis using bytes digits64 [of n] by (simp add: m_def)
  next
    case False
    have d2: "64 * (n div 4096) + (128 + n div 64 mod 64) mod 64 = n div 64"
      using digits64 [of "n div 64"] by (simp only: div_mult2_eq [symmetric]) simp
    have d3: "64 * (n div 262144) + (128 + n div 4096 mod 64) mod 64 = n div 4096"
      using digits64 [of "n div 4096"] by (simp only: div_mult2_eq [symmetric]) simp
    have "map unat bs = (if n < 65536 then [128 + n div 64 mod 64, 128 + n mod 64]
        else [128 + n div 4096 mod 64, 128 + n div 64 mod 64, 128 + n mod 64])"
      using bytes False by (auto split: if_splits)
    then show ?thesis unfolding m_def using False by (cases "n < 65536") (simp_all only: foldl.simps if_True if_False d2 d3 digits64)
  qed
  moreover have "list_all cont_byte bs"
    using bytes by (auto simp: cont_byte_unat split: if_splits)
  ultimately have "utf8_tail (of_nat m) (bs @ r) = (c, r)" using tail_over [of bs r m] assms(2) n(3) by simp
  then have "READ_UTF8 (WRITE_UTF8 c @ r) = (if utf8_invalid c then 0xFFFD else c, r)"
    using read_lead [OF lead, of "bs @ r"] w tr by (simp del: READ_UTF8.simps)
  then show ?thesis using False by simp
qed


section \<open>The output buffer is large enough\<close>

lemma read_one_small:
  assumes "length (snd (READ_UTF8 (b # z))) = length z"
  shows "fst (READ_UTF8 (b # z)) \<le> 0xFFFF"
proof (cases "192 \<le> unat b")
  case True
  have "dropWhile cont_byte z = z"
    using assms True by (metis READ_UTF8_rest lead_byte_unat append_Nil length_append append_self_conv2 diff_add_inverse2 diff_self_eq_0 length_0_conv takeWhile_dropWhile_id)
  then have nc: "no_cont z" using hd_dropWhile [of cont_byte z] by (metis no_cont_def)
  have "list_all (\<lambda>m. unat (sqlite3Utf8Trans1 ! m) < 128) [0..<64]" by (simp add: upt_rec sqlite3Utf8Trans1_def)
  moreover have "unat b - 192 < 64" using u8_less [of b] by simp
  ultimately have "utf8_invalid (sqlite3Utf8Trans1 ! (unat b - 192))" by (auto simp: utf8_invalid_unat list_all_iff)
  then show ?thesis using read_lead [OF True, of z] tail_end [OF nc] by (simp del: READ_UTF8.simps)
next
  case False
  then show ?thesis using u8_less [of b] by (simp add: lead_byte_unat word_le_nat_alt unat_u8_u32)
qed

lemma write16_length: "length (WRITE_UTF16LE c) = (if c \<le> 0xFFFF then 2 else 4)" "length (WRITE_UTF16BE c) = (if c \<le> 0xFFFF then 2 else 4)"
  by (simp_all add: WRITE_UTF16LE_def WRITE_UTF16BE_def)

lemma utf8_to_utf16_length: "length (utf8_to_utf16 be z) \<le> 2 * length z"
proof (induction be z rule: utf8_to_utf16.induct)
  case (1 be z)
  show ?case
  proof (cases z)
    case Nil
    then show ?thesis by (simp add: utf8_to_utf16.simps)
  next
    case (Cons b u)
    obtain c r where r: "READ_UTF8 z = (c, r)" by force
    have IH: "length (utf8_to_utf16 be r) \<le> 2 * length r" using 1 [OF _ r [symmetric] refl] Cons by simp
    have l: "length r < length z" using READ_UTF8_length [of z] r Cons by simp
    have "length (if be then WRITE_UTF16BE c else WRITE_UTF16LE c) + 2 * length r \<le> 2 * length z"
    proof (cases "length r = length u")
      case True
      then have "c \<le> 0xFFFF" using read_one_small [of b u] r Cons by simp
      then show ?thesis using l by (simp add: write16_length)
    qed (use l Cons in \<open>simp add: write16_length\<close>)
    then show ?thesis using IH Cons r by (subst utf8_to_utf16.simps) simp
  qed
qed

lemma unat_unit16: "unat (unit16 be a b) = (if be then 256 * unat a + unat b else unat a + 256 * unat b)"
proof -
  define m where "m = (if be then 256 * unat a + unat b else unat a + 256 * unat b)"
  have "m < 65536" using u8_less [of a] u8_less [of b] by (simp add: m_def)
  moreover have "unit16 be a b = of_nat m" by (cases be) (simp_all add: unit16_def push_bit_eq_mult m_def mult.commute)
  ultimately have "unat (unit16 be a b) = m" by (simp only: unsigned_of_nat) (simp add: take_bit_nat_eq_self)
  then show ?thesis by (simp only: m_def)
qed

lemma unit16_less: "unat (unit16 be a b) < 65536"
  using u8_less [of a] u8_less [of b] by (simp add: unat_unit16)

lemma write8_length: "length (WRITE_UTF8 c) \<le> 4" "unat c < 65536 \<Longrightarrow> length (WRITE_UTF8 c) \<le> 3"
  by (simp_all add: WRITE_UTF8_def word_less_nat_alt)

lemma utf16_to_utf8_length: "length (utf16_to_utf8 be z) \<le> 2 * length z"
proof (induction be z rule: utf16_to_utf8.induct)
  case (1 be z)
  show ?case
  proof (cases "z = []")
    case True
    then show ?thesis by (simp add: utf16_to_utf8.simps)
  next
    case False
    obtain c r where r: "read_utf16 be z = (c, r)" by force
    have IH: "length (utf16_to_utf8 be r) \<le> 2 * length r" using 1 [OF False r [symmetric] refl] .
    have "length (WRITE_UTF8 c) + 2 * length r \<le> 2 * length z"
    proof (cases "(be, z)" rule: read_utf16.cases)
      case (1 be' a b u)
      then have z: "z = a # b # u" "be' = be" by simp_all
      have "c = unit16 be a b \<and> r = u \<or> length u = length r + 2"
        using r by (auto simp: z Let_def split: if_splits list.splits)
      then show ?thesis using write8_length [of c] unit16_less [of be a b] by (auto simp: z)
    qed (use r False in \<open>auto simp: WRITE_UTF8_def\<close>)
    then show ?thesis using IH False r by (subst utf16_to_utf8.simps) simp
  qed
qed

section \<open>Round trips\<close>

lemma and_high: "x AND (0xC0 :: u32) = push_bit 6 (take_bit 2 (drop_bit 6 x))" "x AND (0x3C0 :: u32) = push_bit 6 (take_bit 4 (drop_bit 6 x))"
proof -
  have m: "(0xC0 :: u32) = push_bit 6 (mask 2)" "(0x3C0 :: u32) = push_bit 6 (mask 4)" by (simp_all add: mask_eq_exp_minus_1 push_bit_eq_mult)
  show "x AND (0xC0 :: u32) = push_bit 6 (take_bit 2 (drop_bit 6 x))" "x AND (0x3C0 :: u32) = push_bit 6 (take_bit 4 (drop_bit 6 x))"
    unfolding m by (auto intro!: bit_word_eqI simp: bit_simps)
qed


lemma unat_push: "unat x * 2 ^ k < 4294967296 \<Longrightarrow> unat (push_bit k (x :: u32)) = unat x * 2 ^ k"
proof -
  assume a: "unat x * 2 ^ k < 4294967296"
  have "push_bit k x = of_nat (unat x * 2 ^ k)" by (simp add: push_bit_eq_mult)
  then show ?thesis using a by (simp only: unsigned_of_nat) (simp add: take_bit_nat_eq_self)
qed

lemma unat_plus: "unat x + unat y < 4294967296 \<Longrightarrow> unat (x + y :: u32) = unat x + unat y"
  by (simp add: unat_word_ariths)

lemma unat_high:
  "unat (x AND (0xC0 :: u32)) = 64 * (unat x div 64 mod 4)" "unat (x AND (0x3C0 :: u32)) = 64 * (unat x div 64 mod 16)"
proof -
  have "unat (take_bit 2 (drop_bit 6 x)) = unat x div 64 mod 4" "unat (take_bit 4 (drop_bit 6 x)) = unat x div 64 mod 16"
    by (simp_all only: unat_parts) simp_all
  moreover have "unat x div 64 mod 4 < 4" "unat x div 64 mod 16 < 16" by simp_all
  ultimately show "unat (x AND (0xC0 :: u32)) = 64 * (unat x div 64 mod 4)" "unat (x AND (0x3C0 :: u32)) = 64 * (unat x div 64 mod 16)"
    unfolding and_high by (subst unat_push; simp)+
qed

lemma unat_low: "unat (x AND (0x3F :: u32)) = unat x mod 64" "unat (x AND (0x3FF :: u32)) = unat x mod 1024" "unat (x AND (0x03 :: u32)) = unat x mod 4"
  "unat (x AND (0xFF :: u32)) = unat x mod 256"
  by (simp_all only: and_nums unat_parts) simp_all

definition surr_high :: "nat \<Rightarrow> nat" where "surr_high n = (n - 65536) div 1024"

lemma surrogate_bytes:
  fixes c :: u32
  assumes "65536 \<le> unat c" "unat c < 0x110000" and h: "h = surr_high (unat c)"
  shows "unat (ucast ((drop_bit 10 c AND 0x003F) + (drop_bit 10 (c - 0x10000) AND 0x00C0)) :: u8) = h mod 256"
    "unat (ucast (0x00D8 + (drop_bit 18 (c - 0x10000) AND 0x03)) :: u8) = 216 + h div 256"
    "unat (ucast (c AND 0x00FF) :: u8) = unat c mod 256"
    "unat (ucast (0x00DC + (drop_bit 8 c AND 0x03)) :: u8) = 220 + unat c div 256 mod 4"
proof -
  define n where "n = unat c"
  have n: "65536 \<le> n" "n < 0x110000" using assms by (simp_all add: n_def)
  have d: "unat (c - 0x10000) = n - 65536" using unat_sub [of "0x10000" c] assms(1) by (simp add: word_le_nat_alt n_def)
  have hb: "h < 1024" using n by (simp add: h surr_high_def n_def [symmetric] less_mult_imp_div_less)
  have d10: "unat (drop_bit 10 (c - 0x10000)) = h" "unat (drop_bit 10 c) = h + 64"
  proof -
    show "unat (drop_bit 10 (c - 0x10000)) = h" by (simp only: unat_parts d h surr_high_def n_def [symmetric]) simp
    have "n = (n - 65536) + 64 * 1024" using n by simp
    then have "n div 1024 = (n - 65536) div 1024 + 64" by (metis div_mult_self1 zero_neq_numeral add.commute)
    then show "unat (drop_bit 10 c) = h + 64" by (simp only: unat_parts h surr_high_def n_def [symmetric]) simp
  qed
  have d18: "unat (drop_bit 18 (c - 0x10000)) = h div 256"
    by (simp only: unat_parts d h surr_high_def n_def [symmetric]) (simp add: div_mult2_eq [symmetric])
  have hm: "h mod 64 + 64 * (h div 64 mod 4) = h mod 256" using mod_mult2_eq [of h 64 4] by simp
  have "unat ((drop_bit 10 c AND 0x003F) + (drop_bit 10 (c - 0x10000) AND 0x00C0)) = h mod 256"
    by (subst unat_plus) (simp_all add: unat_low unat_high d10 hm)
  then show "unat (ucast ((drop_bit 10 c AND 0x003F) + (drop_bit 10 (c - 0x10000) AND 0x00C0)) :: u8) = h mod 256"
    by (subst byte_ucast) simp_all
  have "h div 256 < 4" using hb by (simp add: less_mult_imp_div_less)
  then have "unat (0x00D8 + (drop_bit 18 (c - 0x10000) AND 0x03)) = 216 + h div 256"
    by (subst unat_plus) (simp_all add: unat_low d18)
  then show "unat (ucast (0x00D8 + (drop_bit 18 (c - 0x10000) AND 0x03)) :: u8) = 216 + h div 256"
    using \<open>h div 256 < 4\<close> by (subst byte_ucast) simp_all
  show "unat (ucast (c AND 0x00FF) :: u8) = unat c mod 256" by (subst byte_ucast) (simp_all add: unat_low)
  have d8: "unat (drop_bit 8 c) = n div 256" by (simp only: unat_parts n_def) simp
  then have "unat (0x00DC + (drop_bit 8 c AND 0x03)) = 220 + n div 256 mod 4"
    by (subst unat_plus) (simp_all add: unat_low)
  then show "unat (ucast (0x00DC + (drop_bit 8 c AND 0x03)) :: u8) = 220 + unat c div 256 mod 4"
    by (subst byte_ucast) (simp_all add: n_def)
qed

lemma surrogate_read:
  fixes c u v :: u32
  assumes "65536 \<le> unat c" "unat c < 0x110000" "h = surr_high (unat c)" "unat u = 55296 + h" "unat v = 56320 + unat c mod 1024"
  shows "(v AND 0x03FF) + push_bit 10 (u AND 0x003F) + push_bit 10 ((u AND 0x03C0) + 0x0040) = c"
proof -
  define n where "n = unat c"
  have n: "65536 \<le> n" "n < 0x110000" using assms by (simp_all add: n_def)
  have hb: "h < 1024" using n by (simp add: assms(3) surr_high_def n_def [symmetric] less_mult_imp_div_less)
  have p1: "unat (v AND 0x03FF) = n mod 1024" unfolding unat_low assms(5) n_def using mod_mult_self3 [of 55 1024 "unat c mod 1024"] by simp
  have "unat (u AND 0x003F) = h mod 64" unfolding unat_low assms(4) using mod_mult_self3 [of 864 64 h] by simp
  then have p2: "unat (push_bit 10 (u AND 0x003F)) = h mod 64 * 1024" by (subst unat_push) (simp_all add: less_trans [of "h mod 64" 64])
  have "(55296 + h) div 64 = 864 + h div 64" by simp
  moreover have "h div 64 < 16" using hb by (simp add: less_mult_imp_div_less)
  moreover have "(864 + h div 64) mod 16 = h div 64 mod 16" by (simp add: mod_add_eq [symmetric])
  ultimately have p3: "unat (u AND 0x03C0) = 64 * (h div 64)" using assms(4) by (simp add: unat_high)
  then have "unat ((u AND 0x03C0) + 0x0040) = 64 * (h div 64) + 64"
    using hb by (subst unat_plus) simp_all
  moreover have "64 * (h div 64) \<le> h" by simp
  ultimately have p4: "unat (push_bit 10 ((u AND 0x03C0) + 0x0040)) = (64 * (h div 64) + 64) * 1024"
    using hb by (subst unat_push) simp_all
  have "n mod 1024 + h mod 64 * 1024 + (64 * (h div 64) + 64) * 1024 = n mod 1024 + h * 1024 + 65536"
  proof -
    have "h = h div 64 * 64 + h mod 64" by simp
    then have "h * 1024 = (h div 64 * 64 + h mod 64) * 1024" by simp
    then show ?thesis by (simp only: add_mult_distrib mult.assoc mult.commute [of 64])
  qed
  also have "\<dots> = n"
  proof -
    have e: "n = (n - 65536) + 64 * 1024" using n by simp
    then have "n mod 1024 = (n - 65536) mod 1024" by (metis mod_mult_self1)
    then show ?thesis using e div_mult_mod_eq [of "n - 65536" 1024] by (simp add: assms(3) surr_high_def n_def [symmetric])
  qed
  finally have t: "n mod 1024 + h mod 64 * 1024 + (64 * (h div 64) + 64) * 1024 = n" .
  have "unat ((v AND 0x03FF) + push_bit 10 (u AND 0x003F) + push_bit 10 ((u AND 0x03C0) + 0x0040)) = n"
    using t n p1 p2 p4 by (subst unat_plus; (subst unat_plus)?; simp)
  then show ?thesis by (simp add: word_unat_eq_iff n_def)
qed


text \<open>The characters that every encoding represents: no surrogates and no non-characters.\<close>

definition scalar :: "u32 \<Rightarrow> bool" where
  "scalar c \<longleftrightarrow> c < 0x110000 \<and> \<not> (0xD800 \<le> c \<and> c < 0xE000) \<and> c \<noteq> 0xFFFE \<and> c \<noteq> 0xFFFF"

lemma scalar_unat:
  "scalar c \<longleftrightarrow> unat c < 0x110000 \<and> \<not> (0xD800 \<le> unat c \<and> unat c < 0xE000) \<and> unat c \<noteq> 0xFFFE \<and> unat c \<noteq> 0xFFFF"
  by (simp add: scalar_def word_less_nat_alt word_le_nat_alt word_unat_eq_iff)

definition WRITE_UTF16 :: "bool \<Rightarrow> u32 \<Rightarrow> u8 list" where
  "WRITE_UTF16 be c = (if be then WRITE_UTF16BE c else WRITE_UTF16LE c)"

lemma read_write16:
  assumes "scalar c"
  shows "read_utf16 be (WRITE_UTF16 be c @ r) = (c, r)"
proof (cases "unat c < 65536")
  case True
  have b: "unat (ucast (c AND 0x00FF) :: u8) = unat c mod 256" "unat (ucast (drop_bit 8 c AND 0x00FF) :: u8) = unat c div 256"
  proof -
    have "unat (drop_bit 8 c AND 0x00FF) = unat c div 256 mod 256" by (simp only: unat_low unat_parts) simp
    then have "unat (drop_bit 8 c AND 0x00FF) = unat c div 256" using True by (simp add: less_mult_imp_div_less)
    then show "unat (ucast (drop_bit 8 c AND 0x00FF) :: u8) = unat c div 256"
      using True by (subst byte_ucast) (simp_all add: less_mult_imp_div_less)
    show "unat (ucast (c AND 0x00FF) :: u8) = unat c mod 256" by (subst byte_ucast) (simp_all add: unat_low)
  qed
  have "unit16 True (ucast (drop_bit 8 c AND 0x00FF)) (ucast (c AND 0x00FF)) = c"
    "unit16 False (ucast (c AND 0x00FF)) (ucast (drop_bit 8 c AND 0x00FF)) = c"
    unfolding word_unat_eq_iff unat_unit16 b using mod_mult_div_eq [of "unat c" 256] by (simp_all add: add.commute)
  moreover have "c \<le> 0xFFFF" "\<not> (0xd800 \<le> c \<and> c < 0xe000)" using True assms by (auto simp: word_le_nat_alt scalar_def)
  ultimately show ?thesis by (cases be) (auto simp: WRITE_UTF16_def WRITE_UTF16LE_def WRITE_UTF16BE_def Let_def)
next
  case False
  define h where "h = surr_high (unat c)"
  have c: "65536 \<le> unat c" "unat c < 0x110000" using False assms by (simp_all add: scalar_unat)
  have hb: "h < 1024" using c by (simp add: h_def surr_high_def less_mult_imp_div_less)
  define b1 where "b1 = (ucast ((drop_bit 10 c AND 0x003F) + (drop_bit 10 (c - 0x10000) AND 0x00C0)) :: u8)"
  define b2 where "b2 = (ucast (0x00D8 + (drop_bit 18 (c - 0x10000) AND 0x03)) :: u8)"
  define b3 where "b3 = (ucast (c AND 0x00FF) :: u8)"
  define b4 where "b4 = (ucast (0x00DC + (drop_bit 8 c AND 0x03)) :: u8)"
  note bytes = surrogate_bytes [OF c h_def, folded b1_def b2_def b3_def b4_def]
  have m: "unat c mod 256 + 256 * (unat c div 256 mod 4) = unat c mod 1024" using mod_mult2_eq [of "unat c" 256 4] by simp
  have u: "unat (unit16 False b1 b2) = 55296 + h" "unat (unit16 True b2 b1) = 55296 + h"
    unfolding unat_unit16 bytes using mod_mult_div_eq [of h 256] by simp_all
  have v: "unat (unit16 False b3 b4) = 56320 + unat c mod 1024" "unat (unit16 True b4 b3) = 56320 + unat c mod 1024"
    unfolding unat_unit16 bytes using m by simp_all
  have sr: "0xd800 \<le> x \<and> x < 0xe000" if "unat x = 55296 + h" for x :: u32
    using that hb by (simp add: word_le_nat_alt word_less_nat_alt)
  have w: "WRITE_UTF16LE c = [b1, b2, b3, b4]" "WRITE_UTF16BE c = [b2, b1, b4, b3]"
    using c by (simp_all add: WRITE_UTF16LE_def WRITE_UTF16BE_def b1_def b2_def b3_def b4_def word_le_nat_alt)
  show ?thesis
  proof (cases be)
    case True
    then show ?thesis
      using sr [OF u(2)] surrogate_read [OF c h_def u(2) v(2)] by (simp add: WRITE_UTF16_def w Let_def)
  next
    case False
    then show ?thesis
      using sr [OF u(1)] surrogate_read [OF c h_def u(1) v(1)] by (simp add: WRITE_UTF16_def w Let_def)
  qed
qed

definition encode :: "nat \<Rightarrow> u32 list \<Rightarrow> u8 list" where
  "encode enc cs = concat (map (if enc = SQLITE_UTF8 then WRITE_UTF8 else WRITE_UTF16 (enc \<noteq> SQLITE_UTF16LE)) cs)"

lemma encode8_no_cont: "list_all scalar cs \<Longrightarrow> no_cont (concat (map WRITE_UTF8 cs))"
proof (cases cs)
  case (Cons c u)
  assume "list_all scalar cs"
  then have c: "unat c < 0x110000" using Cons by (simp add: scalar_unat)
  have "WRITE_UTF8 c \<noteq> []" by (simp add: WRITE_UTF8_def)
  moreover have "\<not> cont_byte (hd (WRITE_UTF8 c))"
    using WRITE_UTF8_bytes [OF c] \<open>WRITE_UTF8 c \<noteq> []\<close>
    by (cases "WRITE_UTF8 c") (auto simp: cont_byte_unat Let_def split: if_splits)
  ultimately show ?thesis using Cons by (simp add: no_cont_def)
qed (simp add: no_cont_def)

lemma utf8_to_utf16_encode:
  "list_all scalar cs \<Longrightarrow> utf8_to_utf16 be (concat (map WRITE_UTF8 cs)) = concat (map (WRITE_UTF16 be) cs)"
proof (induction cs)
  case (Cons c cs)
  have "READ_UTF8 (WRITE_UTF8 c @ concat (map WRITE_UTF8 cs)) = (c, concat (map WRITE_UTF8 cs))"
  proof -
    have "no_cont (concat (map WRITE_UTF8 cs))" using Cons.prems by (intro encode8_no_cont) simp
    moreover have "unat c < 0x110000" "\<not> (128 \<le> unat c \<and> utf8_invalid c)"
      using Cons.prems by (auto simp: scalar_unat utf8_invalid_unat)
    ultimately show ?thesis using read_write [of c "concat (map WRITE_UTF8 cs)"] by auto
  qed
  moreover have "WRITE_UTF8 c \<noteq> []" by (simp add: WRITE_UTF8_def)
  ultimately show ?case using Cons by (subst utf8_to_utf16.simps) (simp add: WRITE_UTF16_def [symmetric])
qed (simp add: utf8_to_utf16.simps)

lemma utf16_to_utf8_encode:
  "list_all scalar cs \<Longrightarrow> utf16_to_utf8 be (concat (map (WRITE_UTF16 be) cs)) = concat (map WRITE_UTF8 cs)"
proof (induction cs)
  case (Cons c cs)
  have "WRITE_UTF16 be c \<noteq> []" by (simp add: WRITE_UTF16_def WRITE_UTF16LE_def WRITE_UTF16BE_def)
  then show ?case using Cons read_write16 [of c be "concat (map (WRITE_UTF16 be) cs)"] by (subst utf16_to_utf8.simps) simp
qed (simp add: utf16_to_utf8.simps)

lemma swap_encode: "swap_bytes (concat (map (WRITE_UTF16 be) cs)) = concat (map (WRITE_UTF16 (\<not> be)) cs)"
  by (induction cs) (auto simp: WRITE_UTF16_def WRITE_UTF16LE_def WRITE_UTF16BE_def)

lemma encode16_even: "even (length (concat (map (WRITE_UTF16 be) cs)))"
  by (induction cs) (auto simp: WRITE_UTF16_def write16_length)


section \<open>Properties\<close>

text \<open>
  C21. Reading back a character that was written gives the character and the bytes behind it, except
  that surrogates and the two non-characters read as the replacement character; the character takes
  one to four bytes, and \<open>sqlite3AppendOneUtf8Character\<close> writes the same ones.
\<close>

theorem utf8_roundtrip:
  assumes "c < 0x110000" "no_cont r"
  shows "sqlite3Utf8Read (WRITE_UTF8 c @ r) =
      (if 0xD800 \<le> c \<and> c < 0xE000 \<or> c = 0xFFFE \<or> c = 0xFFFF then 0xFFFD else c, r) \<and>
    SQLITE_SKIP_UTF8 (WRITE_UTF8 c @ r) = r \<and>
    sqlite3AppendOneUtf8Character c = (WRITE_UTF8 c, length (WRITE_UTF8 c)) \<and>
    1 \<le> length (WRITE_UTF8 c) \<and> length (WRITE_UTF8 c) \<le> 4"
proof -
  have c: "unat c < 0x110000" using assms(1) by (simp add: word_less_nat_alt)
  have i: "128 \<le> unat c \<and> utf8_invalid c \<longleftrightarrow> 0xD800 \<le> c \<and> c < 0xE000 \<or> c = 0xFFFE \<or> c = 0xFFFF"
    by (auto simp: utf8_invalid_unat word_less_nat_alt word_le_nat_alt word_unat_eq_iff)
  have "READ_UTF8 (WRITE_UTF8 c @ r) = (if 0xD800 \<le> c \<and> c < 0xE000 \<or> c = 0xFFFE \<or> c = 0xFFFF then 0xFFFD else c, r)"
    unfolding read_write [OF c assms(2)] i ..
  moreover have "1 \<le> length (WRITE_UTF8 c)" by (simp add: WRITE_UTF8_def)
  ultimately show ?thesis using write8_length(1) [of c] by (simp add: sqlite3Utf8Read_def skip_read append_one)
qed

theorem utf8_roundtrip_witness: "sqlite3Utf8Read (WRITE_UTF8 0x20AC @ [0x41]) = (0x20AC, [0x41])"
  using utf8_roundtrip [of "0x20AC" "[0x41]"] by (simp add: no_cont_def cont_byte_def)

text \<open>
  C20. Translating a text between UTF-8 and the two byte orders of UTF-16 never writes behind the
  buffer that was allocated for it, whatever the bytes of the text; a failing allocation is reported
  and leaves the encoding as it was.
\<close>

theorem translate_in_buffer:
  assumes "tbytes p = Some z" "d \<noteq> tenc p"
  shows "\<exists>rc q. sqlite3VdbeMemTranslate ok p d = Some (rc, q) \<and>
    rc = (if ok then SQLITE_OK else SQLITE_NOMEM) \<and> tenc q = (if ok then d else tenc p) \<and>
    (\<forall>y. tbytes q = Some y \<longrightarrow> length y \<le> 2 * length z)"
proof -
  have e: "length (utf16_to_utf8 be (take k z)) \<le> 2 * length (take k z)" "length (utf8_to_utf16 be z) \<le> 2 * length z" for be k
    by (rule utf16_to_utf8_length utf8_to_utf16_length)+
  have t: "length (take k z) \<le> length z" "length z - k \<le> 2 * length z" for k by simp_all
  have s: "length (swap_bytes z) = length z" by (induction z rule: swap_bytes.induct) simp_all
  have e2: "length (utf16_to_utf8 be (take k z)) \<le> 2 * length z" for be k using e(1) [of be k] t(1) [of k] by linarith
  show ?thesis
  proof (cases "tenc p \<noteq> SQLITE_UTF8 \<and> d \<noteq> SQLITE_UTF8")
    case True
    then show ?thesis using assms s by (auto simp: sqlite3VdbeMemTranslate_def)
  next
    case False
    show ?thesis
    proof (cases "d = SQLITE_UTF8")
      case True
      then show ?thesis
        using assms(1,2) e(1) [of "tenc p \<noteq> SQLITE_UTF16LE" "length z - length z mod 2"] e2 t
        by (simp add: sqlite3VdbeMemTranslate_def Let_def)
    next
      case d: False
      then show ?thesis using False assms(1,2) e(2) by (simp add: sqlite3VdbeMemTranslate_def Let_def)
    qed
  qed
qed

theorem translate_in_buffer_witness:
  "\<exists>rc q. sqlite3VdbeMemTranslate True \<lparr>tbytes = Some [0xFF, 0x80], tenc = SQLITE_UTF8\<rparr> SQLITE_UTF16LE = Some (rc, q) \<and> rc = SQLITE_OK"
  using translate_in_buffer [of "\<lparr>tbytes = Some [0xFF, 0x80], tenc = SQLITE_UTF8\<rparr>" "[0xFF, 0x80]" SQLITE_UTF16LE True]
  by (auto simp: SQLITE_UTF8_def SQLITE_UTF16LE_def)

text \<open>
  C19. The encodings represent the same texts: changing the encoding of a text of characters gives
  exactly the encoding of the same characters, in all directions.
\<close>

theorem change_encoding_exact:
  assumes "list_all scalar cs" "e \<in> {SQLITE_UTF8, SQLITE_UTF16LE, SQLITE_UTF16BE}" "d \<in> {SQLITE_UTF8, SQLITE_UTF16LE, SQLITE_UTF16BE}"
  shows "sqlite3VdbeChangeEncoding True \<lparr>tbytes = Some (encode e cs), tenc = e\<rparr> d =
    Some (SQLITE_OK, \<lparr>tbytes = Some (encode d cs), tenc = d\<rparr>)"
proof -
  have ne: "SQLITE_UTF16LE \<noteq> SQLITE_UTF8" "SQLITE_UTF16BE \<noteq> SQLITE_UTF8" "SQLITE_UTF16BE \<noteq> SQLITE_UTF16LE"
    by (simp_all add: SQLITE_UTF8_def SQLITE_UTF16LE_def SQLITE_UTF16BE_def)
  have len8: "length (concat (map (WRITE_UTF16 be) cs)) \<le> 2 * length (concat (map WRITE_UTF8 cs))" for be
    using utf8_to_utf16_length [of be "concat (map WRITE_UTF8 cs)"] utf8_to_utf16_encode [OF assms(1)] by simp
  have len16: "length (concat (map WRITE_UTF8 cs)) \<le> 2 * length (concat (map (WRITE_UTF16 be) cs))" for be
    using utf16_to_utf8_length [of be "concat (map (WRITE_UTF16 be) cs)"] utf16_to_utf8_encode [OF assms(1)] by simp
  have ev: "length (concat (map (WRITE_UTF16 be) cs)) - length (concat (map (WRITE_UTF16 be) cs)) mod 2 = length (concat (map (WRITE_UTF16 be) cs))" for be
    using encode16_even [of be cs] by (simp add: even_iff_mod_2_eq_zero)
  consider "e = d" | "e = SQLITE_UTF8" "d \<noteq> SQLITE_UTF8" | "e \<noteq> SQLITE_UTF8" "d = SQLITE_UTF8" | "e \<noteq> SQLITE_UTF8" "d \<noteq> SQLITE_UTF8" "e \<noteq> d"
    by blast
  then show ?thesis
  proof cases
    case 2
    then show ?thesis
      using len8 utf8_to_utf16_encode [OF assms(1)] ne by (simp add: sqlite3VdbeChangeEncoding_def sqlite3VdbeMemTranslate_def Let_def encode_def)
  next
    case 3
    then show ?thesis
      using len16 utf16_to_utf8_encode [OF assms(1)] ne ev by (simp add: sqlite3VdbeChangeEncoding_def sqlite3VdbeMemTranslate_def Let_def encode_def)
  next
    case 4
    then have "(d \<noteq> SQLITE_UTF16LE) = (\<not> (e \<noteq> SQLITE_UTF16LE))" using assms(2,3) by auto
    then show ?thesis
      using 4 swap_encode [of "e \<noteq> SQLITE_UTF16LE" cs] by (simp add: sqlite3VdbeChangeEncoding_def sqlite3VdbeMemTranslate_def encode_def)
  qed (simp add: sqlite3VdbeChangeEncoding_def)
qed

theorem change_encoding_exact_witness:
  "sqlite3VdbeChangeEncoding True \<lparr>tbytes = Some (encode SQLITE_UTF8 [0x1F600, 0x41]), tenc = SQLITE_UTF8\<rparr> SQLITE_UTF16BE =
    Some (SQLITE_OK, \<lparr>tbytes = Some [0xD8, 0x3D, 0xDE, 0x00, 0x00, 0x41], tenc = SQLITE_UTF16BE\<rparr>)"
proof -
  have "encode SQLITE_UTF16BE [0x1F600, 0x41] = [0xD8, 0x3D, 0xDE, 0x00, 0x00, 0x41]"
    by (simp add: encode_def SQLITE_UTF8_def SQLITE_UTF16LE_def SQLITE_UTF16BE_def WRITE_UTF16_def WRITE_UTF16BE_def drop_bit_eq_div)
  then show ?thesis using change_encoding_exact [of "[0x1F600, 0x41]" SQLITE_UTF8 SQLITE_UTF16BE] by (simp add: scalar_def)
qed

end
