(* ===== verification/Pattern.thy ===== *)
theory Pattern
  imports Utf
begin

text \<open>
  LIKE and GLOB (\<open>func.c\<close>): \<open>patternCompare\<close> on the bytes of the pattern and of the string, and the
  functions around it.  The result \<open>SQLITE_NOWILDCARDMATCH\<close> cuts the search short: not even a suffix
  of the string can match.  A pointer into the pattern or the string is what is left of its bytes.
\<close>

section \<open>The model\<close>

record compareInfo =
  matchAll :: u32
  matchOne :: u32
  matchSet :: u32
  noCase :: bool

definition ascii :: "char \<Rightarrow> u32" where "ascii c = of_nat (code c)"

definition globInfo :: compareInfo where
  "globInfo = \<lparr>matchAll = ascii (CHR ''*''), matchOne = ascii (CHR ''?''), matchSet = ascii (CHR ''[''), noCase = False\<rparr>"
definition likeInfoNorm :: compareInfo where
  "likeInfoNorm = \<lparr>matchAll = ascii (CHR ''%''), matchOne = ascii (CHR ''_''), matchSet = 0, noCase = True\<rparr>"
definition likeInfoAlt :: compareInfo where
  "likeInfoAlt = \<lparr>matchAll = ascii (CHR ''%''), matchOne = ascii (CHR ''_''), matchSet = 0, noCase = False\<rparr>"

definition SQLITE_MATCH :: nat where "SQLITE_MATCH = 0"
definition SQLITE_NOMATCH :: nat where "SQLITE_NOMATCH = 1"
definition SQLITE_NOWILDCARDMATCH :: nat where "SQLITE_NOWILDCARDMATCH = 2"

text \<open>The case tables on a character below 0x80.\<close>

definition chr8 :: "u32 \<Rightarrow> char" where "chr8 c = char_of (unat c)"

text \<open>The bytes in \<open>zStop\<close>.\<close>

definition in_zStop :: "compareInfo \<Rightarrow> u32 \<Rightarrow> u8 \<Rightarrow> bool" where
  "in_zStop info c b =
    (if noCase info then unat b = code (sqlite3Toupper (chr8 c)) \<or> unat b = sqlite3Tolower (chr8 c) else unat b = unat c)"

text \<open>
  The searches behind a star, over the comparison \<open>f\<close> of the rest of the pattern: for a byte in
  \<open>zStop\<close> (the loop with \<open>strcspn\<close>), for a character, and the slow one before a set.
\<close>

fun search_stop :: "(u8 list \<Rightarrow> nat) \<Rightarrow> (u8 \<Rightarrow> bool) \<Rightarrow> u8 list \<Rightarrow> nat" where
  "search_stop f stop [] = SQLITE_NOWILDCARDMATCH"
| "search_stop f stop (b # z) =
    (if stop b then let bMatch = f z in if bMatch \<noteq> SQLITE_NOMATCH then bMatch else search_stop f stop z
     else search_stop f stop z)"

lemma Utf8Read_eq: "Utf8Read z = READ_UTF8 z"
proof (cases z)
  case (Cons b u)
  have "b < 0x80 \<Longrightarrow> \<not> 0xc0 \<le> b" by (simp add: word_less_nat_alt word_le_nat_alt)
  then show ?thesis by (auto simp: Utf8Read_def Cons sqlite3Utf8Read_def)
qed (simp add: Utf8Read_def)

lemma Utf8Read_length: "z \<noteq> [] \<Longrightarrow> length (snd (Utf8Read z)) < length z"
  by (simp add: Utf8Read_eq READ_UTF8_length)

lemma Utf8Read_shorter: "Utf8Read z = (c, r) \<Longrightarrow> length r < length z \<or> z = [] \<and> r = [] \<and> c = 0"
  using Utf8Read_length [of z] by (cases z) (auto simp: Utf8Read_def)

lemma Utf8Read_less: "(c, r) = Utf8Read z \<Longrightarrow> c \<noteq> 0 \<Longrightarrow> length r < length z"
  using Utf8Read_shorter [of z c r] by auto

lemma read_shorter: "sqlite3Utf8Read z = (c, r) \<Longrightarrow> length r < length z \<or> z = [] \<and> r = [] \<and> c = 0"
  using Utf8Read_shorter [of z c r] by (simp add: Utf8Read_eq sqlite3Utf8Read_def)

function search_char :: "(u8 list \<Rightarrow> nat) \<Rightarrow> u8 list \<Rightarrow> u32 \<Rightarrow> nat" where
  "search_char f z c =
    (case Utf8Read z of (c2, r) \<Rightarrow>
     if c2 = 0 then SQLITE_NOWILDCARDMATCH
     else if c2 \<noteq> c then search_char f r c
     else let bMatch = f r in if bMatch \<noteq> SQLITE_NOMATCH then bMatch else search_char f r c)"
  by auto
termination by (relation "measure (\<lambda>(f, z, c). length z)") (use Utf8Read_less in auto)

function search_set :: "(u8 list \<Rightarrow> nat) \<Rightarrow> u8 list \<Rightarrow> nat" where
  "search_set f z =
    (if z = [] then SQLITE_NOWILDCARDMATCH
     else let bMatch = f z in if bMatch \<noteq> SQLITE_NOMATCH then bMatch else search_set f (SQLITE_SKIP_UTF8 z))"
  by auto
termination by (relation "measure (\<lambda>(f, z). length z)") (auto simp: skip_read READ_UTF8_length)

text \<open>The loop that skips the wildcards behind a star: the pattern from the next character on and the string.\<close>

function skip_wild :: "compareInfo \<Rightarrow> u8 list \<Rightarrow> u8 list \<Rightarrow> (u8 list \<times> u8 list) option" where
  "skip_wild info zPattern zString =
    (let (c, p) = Utf8Read zPattern
     in if c \<noteq> 0 \<and> (c = matchAll info \<or> c = matchOne info \<and> matchOne info \<noteq> 0) then
          (if c = matchOne info then
             (case sqlite3Utf8Read zString of (d, s) \<Rightarrow> if d = 0 then None else skip_wild info p s)
           else skip_wild info p zString)
        else Some (zPattern, zString))"
  by auto
termination by (relation "measure (\<lambda>(i, p, s). length p)") (use Utf8Read_less in auto)

text \<open>The loop over the characters of a set: the character that ended it, whether \<open>c\<close> was seen, the pattern.\<close>

definition first_byte :: "u8 list \<Rightarrow> u8" where "first_byte z = (case z of [] \<Rightarrow> 0 | b # _ \<Rightarrow> b)"

function set_loop :: "u32 \<Rightarrow> u8 list \<Rightarrow> u32 \<Rightarrow> u32 \<Rightarrow> bool \<Rightarrow> u32 \<times> bool \<times> u8 list" where
  "set_loop c zPattern c2 prior_c seen =
    (if c2 \<noteq> 0 \<and> c2 \<noteq> ascii (CHR '']'') then
       (if c2 = ascii (CHR ''-'') \<and> ucast (first_byte zPattern) \<noteq> ascii (CHR '']'') \<and> first_byte zPattern \<noteq> 0 \<and> prior_c > 0 then
          (case sqlite3Utf8Read zPattern of (c2, p) \<Rightarrow>
           case sqlite3Utf8Read p of (c3, p) \<Rightarrow> set_loop c p c3 0 (seen \<or> (prior_c \<le> c \<and> c \<le> c2)))
        else
          (case sqlite3Utf8Read zPattern of (c3, p) \<Rightarrow> set_loop c p c3 c2 (seen \<or> c = c2)))
     else (c2, seen, zPattern))"
  by auto
termination
proof (relation "measure (\<lambda>(c, p, c2, pr, s). length p + (if c2 = 0 then 0 else 1))", goal_cases)
  case (2 c zP c2 prior seen x p y q)
  then show ?case using read_shorter [of zP x p] read_shorter [of p y q] by auto
next
  case (3 c zP c2 prior seen x p)
  then show ?case using read_shorter [of zP x p] by auto
qed simp

text \<open>A set against the next character of the string: the rest of the pattern and of the string, or no match.\<close>

definition match_set :: "u8 list \<Rightarrow> u8 list \<Rightarrow> (u8 list \<times> u8 list) option" where
  "match_set zPattern zString =
    (let (c, s) = sqlite3Utf8Read zString
     in if c = 0 then None
        else let (c2, p) = sqlite3Utf8Read zPattern;
                 invert = (c2 = ascii (CHR ''^''));
                 (c2, p) = (if invert then sqlite3Utf8Read p else (c2, p));
                 seen = (c2 = ascii (CHR '']'') \<and> c = ascii (CHR '']''));
                 (c2, p) = (if c2 = ascii (CHR '']'') then sqlite3Utf8Read p else (c2, p));
                 (c2, seen, p) = set_loop c p c2 0 seen
             in if c2 = 0 \<or> seen = invert then None else Some (p, s))"

definition same_fold :: "compareInfo \<Rightarrow> u32 \<Rightarrow> u32 \<Rightarrow> bool" where
  "same_fold info c c2 \<longleftrightarrow> noCase info \<and> sqlite3Tolower (chr8 c) = sqlite3Tolower (chr8 c2) \<and> c < 0x80 \<and> c2 < 0x80"

declare search_char.simps [simp del] search_set.simps [simp del] skip_wild.simps [simp del] set_loop.simps [simp del]

lemma skip_wild_length: "skip_wild info p s = Some (q, t) \<Longrightarrow> length q \<le> length p"
proof (induction info p s rule: skip_wild.induct)
  case (1 info p s)
  obtain c r where r: "Utf8Read p = (c, r)" by force
  have l: "length r \<le> length p" using Utf8Read_shorter [OF r] by auto
  show ?case using 1 r l by (subst (asm) (3) skip_wild.simps) (fastforce split: if_splits prod.splits)
qed

lemma set_loop_length: "set_loop c p c2 prior seen = (e, t, q) \<Longrightarrow> length q \<le> length p"
proof (induction c p c2 prior seen rule: set_loop.induct)
  case (1 c p c2 prior seen)
  obtain c3 r where r: "sqlite3Utf8Read p = (c3, r)" by force
  obtain c4 r' where r': "sqlite3Utf8Read r = (c4, r')" by force
  have l: "length r \<le> length p" "length r' \<le> length r" using read_shorter [OF r] read_shorter [OF r'] by auto
  show ?case using 1 r r' l by (subst (asm) (3) set_loop.simps) (fastforce split: if_splits)
qed

lemma match_set_length: "match_set p s = Some (q, t) \<Longrightarrow> length q \<le> length p"
proof -
  assume m: "match_set p s = Some (q, t)"
  obtain c s' where s: "sqlite3Utf8Read s = (c, s')" by force
  obtain c2 p1 where p1: "sqlite3Utf8Read p = (c2, p1)" by force
  obtain c3 p2 where p2: "(if c2 = ascii (CHR ''^'') then sqlite3Utf8Read p1 else (c2, p1)) = (c3, p2)" by force
  obtain c4 p3 where p3: "(if c3 = ascii (CHR '']'') then sqlite3Utf8Read p2 else (c3, p2)) = (c4, p3)" by force
  obtain e t' q' where l: "set_loop c p3 c4 0 (c3 = ascii (CHR '']'') \<and> c = ascii (CHR '']'')) = (e, t', q')" by (metis prod_cases3)
  have "q = q'" using m s p1 p2 p3 l by (auto simp: match_set_def Let_def split: if_splits)
  moreover have "length p1 \<le> length p" "length p2 \<le> length p1" "length p3 \<le> length p2"
    using read_shorter [OF p1] p2 p3 read_shorter [of p1 c3 p2] read_shorter [of p2 c4 p3] by (auto split: if_splits)
  ultimately show ?thesis using set_loop_length [OF l] by simp
qed

lemma escape_length:
  assumes r: "(c, p) = Utf8Read z" and e: "(d, q) = (if c = other then sqlite3Utf8Read p else (c, p))"
  shows "length q \<le> length z"
proof -
  have l: "length p \<le> length z" using Utf8Read_shorter [of z c p, OF r [symmetric]] by auto
  show ?thesis
  proof (cases "c = other")
    case True
    then show ?thesis using l e read_shorter [of p d q] by auto
  next
    case False
    then have "q = p" using e by (metis Pair_inject)
    then show ?thesis using l by simp
  qed
qed

lemma escape_rest:
  "(d, e) = (if c = other then case sqlite3Utf8Read p of (c, p) \<Rightarrow> (c, p, Some (length p)) else (c, p, esc)) \<Longrightarrow>
   (q, e') = e \<Longrightarrow> length q \<le> length p"
  using read_shorter [of p "fst (sqlite3Utf8Read p)" "snd (sqlite3Utf8Read p)"] by (auto simp: split_beta split: if_splits)

text \<open>
  The main loop.  \<open>esc\<close> is \<open>zEscaped\<close>: the length of the pattern behind the last escaped character.
\<close>

function patternCompare :: "compareInfo \<Rightarrow> u32 \<Rightarrow> nat option \<Rightarrow> u8 list \<Rightarrow> u8 list \<Rightarrow> nat" where
  "patternCompare info matchOther esc zPattern zString =
    (case Utf8Read zPattern of (c, p) \<Rightarrow>
     if c = 0 then (if zString = [] then SQLITE_MATCH else SQLITE_NOMATCH)
     else if c = matchAll info then
       (case skip_wild info p zString of
          None \<Rightarrow> SQLITE_NOWILDCARDMATCH
        | Some (pc, s) \<Rightarrow>
          (case Utf8Read pc of (c, p2) \<Rightarrow>
           if c = 0 then SQLITE_MATCH
           else if c = matchOther \<and> matchSet info \<noteq> 0 then search_set (\<lambda>s. patternCompare info matchOther None pc s) s
           else (case (if c = matchOther then sqlite3Utf8Read p2 else (c, p2)) of (c, p3) \<Rightarrow>
             if c = 0 then SQLITE_NOWILDCARDMATCH
             else if c < 0x80 then search_stop (\<lambda>s. patternCompare info matchOther None p3 s) (in_zStop info c) s
             else search_char (\<lambda>s. patternCompare info matchOther None p3 s) s c)))
     else if c = matchOther \<and> matchSet info \<noteq> 0 then
       (case match_set p zString of None \<Rightarrow> SQLITE_NOMATCH | Some (p, s) \<Rightarrow> patternCompare info matchOther esc p s)
     else
       (case (if c = matchOther then (case sqlite3Utf8Read p of (c, p) \<Rightarrow> (c, p, Some (length p))) else (c, p, esc)) of
        (c, p, esc) \<Rightarrow>
          if c = 0 then SQLITE_NOMATCH
          else (case Utf8Read zString of (c2, s) \<Rightarrow>
            if c = c2 then patternCompare info matchOther esc p s
            else if same_fold info c c2 then patternCompare info matchOther esc p s
            else if c = matchOne info \<and> esc \<noteq> Some (length p) \<and> c2 \<noteq> 0 then patternCompare info matchOther esc p s
            else SQLITE_NOMATCH)))"
  by auto
termination
proof (relation "measure (\<lambda>(i, m, e, p, s). length p)", goal_cases)
  case (2 info other esc P S x y x2 xa ya xb yb xc)
  then show ?case using Utf8Read_less [of x y P] skip_wild_length [of info y S xa ya] by simp
next
  case (3 info other esc P S x y x2 xa ya xb yb xc yc xd)
  then show ?case using Utf8Read_less [of x y P] skip_wild_length [of info y S xa ya] escape_length [of xb yb xa xc yc other] by simp
next
  case (4 info other esc P S x y x2 xa ya xb yb xc yc xd)
  then show ?case using Utf8Read_less [of x y P] skip_wild_length [of info y S xa ya] escape_length [of xb yb xa xc yc other] by simp
next
  case (5 info other esc P S x y x2 xa ya)
  then have "match_set y S = Some (xa, ya)" by metis
  then have "length xa \<le> length y" by (rule match_set_length)
  then show ?case using 5 Utf8Read_less [of x y P] by (cases x2) simp
next
  case (6 info other esc P S x y xa ya xb yb xc yc)
  then show ?case using Utf8Read_less [of x y P] escape_rest [of xa ya x other y esc xb yb] by simp
next
  case (7 info other esc P S x y xa ya xb yb xc yc)
  then show ?case using Utf8Read_less [of x y P] escape_rest [of xa ya x other y esc xb yb] by simp
next
  case (8 info other esc P S x y xa ya xb yb xc yc)
  then show ?case using Utf8Read_less [of x y P] escape_rest [of xa ya x other y esc xb yb] by simp
qed simp

declare patternCompare.simps [simp del]


definition sqlite3_strlike :: "u8 list option \<Rightarrow> u8 list option \<Rightarrow> u32 \<Rightarrow> nat" where
  "sqlite3_strlike zPattern zStr esc =
    (case zStr of None \<Rightarrow> of_bool (zPattern \<noteq> None)
     | Some s \<Rightarrow> (case zPattern of None \<Rightarrow> 1 | Some p \<Rightarrow> patternCompare likeInfoNorm esc None p s))"

text \<open>
  \<open>likeFunc\<close> on the texts of its arguments (\<open>None\<close>: NULL), the limit on the pattern and the structure
  that the function was registered with.
\<close>

datatype like_result = Like_error string | Like_null | Like_result bool

definition likeFunc :: "nat \<Rightarrow> compareInfo \<Rightarrow> u8 list option \<Rightarrow> u8 list option \<Rightarrow> u8 list option option \<Rightarrow> like_result" where
  "likeFunc limit pInfo zB zA zEsc =
    (if limit < (case zB of None \<Rightarrow> 0 | Some b \<Rightarrow> length b) then Like_error ''LIKE or GLOB pattern too complex''
     else
       let run = (\<lambda>pInfo escape.
             case (zA, zB) of (Some a, Some b) \<Rightarrow> Like_result (patternCompare pInfo escape None b a = SQLITE_MATCH)
             | _ \<Rightarrow> Like_null)
       in case zEsc of
            None \<Rightarrow> run pInfo (matchSet pInfo)
          | Some None \<Rightarrow> Like_null
          | Some (Some e) \<Rightarrow>
            if sqlite3Utf8CharLen e (- 1) \<noteq> 1 then Like_error ''ESCAPE expression must be a single character''
            else
              let escape = fst (sqlite3Utf8Read e)
              in run (pInfo\<lparr>matchAll := (if escape = matchAll pInfo then 0 else matchAll pInfo),
                            matchOne := (if escape = matchOne pInfo then 0 else matchOne pInfo)\<rparr>) escape)"

section \<open>The specification\<close>

text \<open>The characters of a text.\<close>

function decode :: "u8 list \<Rightarrow> u32 list" where
  "decode z = (if z = [] then [] else case READ_UTF8 z of (c, r) \<Rightarrow> c # decode r)"
  by auto
termination by (relation "measure length") (simp_all, metis READ_UTF8_length snd_conv)

declare decode.simps [simp del]

text \<open>
  A pattern is a sequence of items; a set is a list of ranges, possibly negated.  \<open>None\<close> is a pattern
  with an open set or an escape character at its end.
\<close>

datatype item = Many | One | Exactly u32 | OneOf bool "(u32 \<times> u32) list"

text \<open>The members of a set up to the closing bracket: a range covers at least its first character.\<close>

definition opens_range :: "u32 list \<Rightarrow> bool" where
  "opens_range p = (case p of d # b # _ \<Rightarrow> d = ascii (CHR ''-'') \<and> b \<noteq> ascii (CHR '']'') | _ \<Rightarrow> False)"

fun set_members :: "u32 list \<Rightarrow> ((u32 \<times> u32) list \<times> u32 list) option" where
  "set_members [] = None"
| "set_members (a # p) =
    (if a = ascii (CHR '']'') then Some ([], p)
     else if opens_range p then map_option (\<lambda>(rs, q). ((a, a) # (a, hd (tl p)) # rs, q)) (set_members (tl (tl p)))
     else map_option (\<lambda>(rs, q). ((a, a) # rs, q)) (set_members p))"

definition set_body :: "u32 list \<Rightarrow> ((u32 \<times> u32) list \<times> u32 list) option" where
  "set_body p =
    (case p of [] \<Rightarrow> None
     | a # q \<Rightarrow> if a = ascii (CHR '']'') then map_option (\<lambda>(rs, q). ((a, a) # rs, q)) (set_members q) else set_members p)"

definition parse_set :: "u32 list \<Rightarrow> (bool \<times> (u32 \<times> u32) list \<times> u32 list) option" where
  "parse_set p =
    (case p of [] \<Rightarrow> None
     | a # q \<Rightarrow> if a = ascii (CHR ''^'') then map_option (Pair True) (set_body q) else map_option (Pair False) (set_body p))"

lemma set_members_length: "set_members p = Some (rs, q) \<Longrightarrow> length q < length p"
  by (induction p arbitrary: rs q rule: set_members.induct) (fastforce split: if_splits)+

lemma set_body_length: "set_body p = Some (rs, q) \<Longrightarrow> length q < length p"
proof (cases p)
  case (Cons a p')
  assume "set_body p = Some (rs, q)"
  then show ?thesis
    using set_members_length [of p' "tl rs" q] set_members_length [of p rs q]
    by (auto simp: set_body_def Cons simp del: set_members.simps split: if_splits)
qed (simp add: set_body_def)

lemma parse_set_length: "parse_set p = Some (neg, rs, q) \<Longrightarrow> length q < length p"
proof (cases p)
  case (Cons a p')
  assume "parse_set p = Some (neg, rs, q)"
  then show ?thesis
    using set_body_length [of p' rs q] set_body_length [of p rs q]
    by (auto simp: parse_set_def Cons split: if_splits)
qed (simp add: parse_set_def)

function parse_pattern :: "compareInfo \<Rightarrow> u32 \<Rightarrow> u32 list \<Rightarrow> item list option" where
  "parse_pattern info other [] = Some []"
| "parse_pattern info other (c # p) =
    (if c = matchAll info then map_option (Cons Many) (parse_pattern info other p)
     else if c = other then
       (if matchSet info = 0 then (case p of [] \<Rightarrow> None | d # p \<Rightarrow> map_option (Cons (Exactly d)) (parse_pattern info other p))
        else (case parse_set p of None \<Rightarrow> None | Some (neg, rs, q) \<Rightarrow> map_option (Cons (OneOf neg rs)) (parse_pattern info other q)))
     else if c = matchOne info then map_option (Cons One) (parse_pattern info other p)
     else map_option (Cons (Exactly c)) (parse_pattern info other p))"
  by pat_completeness auto
termination by (relation "measure (\<lambda>(i, m, p). length p)") (auto dest: parse_set_length)

definition same_char :: "compareInfo \<Rightarrow> u32 \<Rightarrow> u32 \<Rightarrow> bool" where
  "same_char info c d \<longleftrightarrow> c = d \<or> same_fold info c d"

fun item_matches :: "compareInfo \<Rightarrow> item \<Rightarrow> u32 \<Rightarrow> bool" where
  "item_matches info One c = True"
| "item_matches info (Exactly d) c = same_char info d c"
| "item_matches info (OneOf neg rs) c = (list_ex (\<lambda>(a, b). a \<le> c \<and> c \<le> b) rs \<noteq> neg)"
| "item_matches info Many c = False"

fun matches :: "compareInfo \<Rightarrow> item list \<Rightarrow> u32 list \<Rightarrow> bool" where
  "matches info [] s = (s = [])"
| "matches info (i # p) s =
    (if i = Many then list_ex (\<lambda>k. matches info p (drop k s)) [0..<length s + 1]
     else s \<noteq> [] \<and> item_matches info i (hd s) \<and> matches info p (tl s))"

definition pattern_matches :: "compareInfo \<Rightarrow> u32 \<Rightarrow> u32 list \<Rightarrow> u32 list \<Rightarrow> bool" where
  "pattern_matches info other p s = (case parse_pattern info other p of None \<Rightarrow> False | Some is \<Rightarrow> matches info is s)"

section \<open>Reading the texts\<close>

lemma read_nonzero:
  assumes "b \<noteq> 0"
  shows "fst (READ_UTF8 (b # z)) \<noteq> 0"
proof -
  have "c < 0x80 \<Longrightarrow> utf8_invalid c" for c by (simp add: utf8_invalid_def)
  moreover have "(ucast b :: u32) \<noteq> 0" using assms unat_u8_u32 [of b] by (metis unat_eq_zero unsigned_0)
  ultimately show ?thesis by (auto simp: split_beta)
qed

lemma read_subset: "set (snd (READ_UTF8 z)) \<subseteq> set z"
  by (cases z) (auto simp: READ_UTF8_rest simp del: READ_UTF8.simps(2) dest: set_dropWhileD)

lemma decode_Nil [simp]: "decode [] = []" by (simp add: decode.simps)

lemma decode_read: "z \<noteq> [] \<Longrightarrow> decode z = fst (READ_UTF8 z) # decode (snd (READ_UTF8 z))"
  by (simp add: decode.simps [of z] split_beta)

lemma decode_eq_Nil [simp]: "decode z = [] \<longleftrightarrow> z = []"
  using decode_read [of z] by (cases "z = []") simp_all

text \<open>A read gives the first character; at the end it gives 0, which no other read gives.\<close>

lemma read_cases:
  assumes "Utf8Read z = (c, r)" "0 \<notin> set z"
  shows "z = [] \<and> c = 0 \<and> r = [] \<or> z \<noteq> [] \<and> c \<noteq> 0 \<and> decode z = c # decode r \<and> 0 \<notin> set r \<and> length r < length z"
proof (cases z)
  case (Cons b u)
  have e: "READ_UTF8 z = (c, r)" using assms(1) by (simp add: Utf8Read_eq)
  then have "set r \<subseteq> set z" using read_subset [of z] by simp
  moreover have "length r < length z" using READ_UTF8_length [of z] e Cons by simp
  moreover have "c \<noteq> 0" using read_nonzero [of b u] assms(2) e Cons by auto
  ultimately show ?thesis using assms(2) decode_read [of z] e Cons by auto
qed (use assms in \<open>simp add: Utf8Read_def\<close>)

lemma sqlite3Utf8Read_eq: "sqlite3Utf8Read z = Utf8Read z" by (simp add: sqlite3Utf8Read_def Utf8Read_eq)

lemma read_small:
  assumes "fst (READ_UTF8 (b # z)) < 0x80"
  shows "b < 0x80"
proof (rule ccontr)
  assume b: "\<not> b < 0x80"
  then have u: "(0x80 :: u32) \<le> ucast b" using unat_u8_u32 [of b] by (simp add: word_less_nat_alt word_le_nat_alt)
  have "\<not> utf8_invalid c \<Longrightarrow> \<not> c < 0x80" for c by (simp add: utf8_invalid_def)
  then show False using assms u by (auto simp: split_beta split: if_splits)
qed

lemma decode_ascii: "b < 0x80 \<Longrightarrow> decode (b # z) = ucast b # decode z"
proof -
  assume "b < 0x80"
  then have "READ_UTF8 (b # z) = (ucast b, z)" using Utf8Read_eq [of "b # z"] by (simp add: Utf8Read_def)
  then show ?thesis by (simp add: decode_read)
qed

lemma first_char:
  assumes "fst (READ_UTF8 (b # z)) < 0x80 \<or> b < 0x80"
  shows "fst (READ_UTF8 (b # z)) = ucast b"
  using assms read_small [of b z] decode_ascii [of b z] decode_read [of "b # z"] by auto

section \<open>Matching\<close>

abbreviation "pm \<equiv> pattern_matches"

lemma match_Nil: "pm info other [] s \<longleftrightarrow> s = []" by (simp add: pattern_matches_def)

lemma match_all: "pm info other (matchAll info # p) s \<longleftrightarrow> (\<exists>k. pm info other p (drop k s))"
proof -
  have "list_ex (\<lambda>k. matches info i (drop k s)) [0..<length s + 1] \<longleftrightarrow> (\<exists>k\<le>length s. matches info i (drop k s))" for i
    unfolding list_ex_iff set_upt Bex_def atLeastLessThan_iff by (metis Suc_eq_plus1 less_Suc_eq_le zero_le)
  also have "\<dots> i \<longleftrightarrow> (\<exists>k. matches info i (drop k s))" for i by (metis drop_all drop_eq_Nil le_refl nle_le)
  finally have e: "list_ex (\<lambda>k. matches info i (drop k s)) [0..<length s + 1] \<longleftrightarrow> (\<exists>k. matches info i (drop k s))" for i .
  show ?thesis by (cases "parse_pattern info other p") (simp_all only: pattern_matches_def parse_pattern.simps option.case option.map if_True refl matches.simps e, simp_all)
qed

lemma match_one:
  "matchOne info \<noteq> matchAll info \<Longrightarrow> matchOne info \<noteq> other \<Longrightarrow>
   pm info other (matchOne info # p) s \<longleftrightarrow> s \<noteq> [] \<and> pm info other p (tl s)"
  by (auto simp: pattern_matches_def split: option.split)

lemma match_exact:
  "c \<noteq> matchAll info \<Longrightarrow> c \<noteq> other \<Longrightarrow> c \<noteq> matchOne info \<Longrightarrow>
   pm info other (c # p) s \<longleftrightarrow> s \<noteq> [] \<and> same_char info c (hd s) \<and> pm info other p (tl s)"
  by (auto simp: pattern_matches_def split: option.split)

lemma match_escape:
  "other \<noteq> matchAll info \<Longrightarrow> matchSet info = 0 \<Longrightarrow>
   pm info other (other # d # p) s \<longleftrightarrow> s \<noteq> [] \<and> same_char info d (hd s) \<and> pm info other p (tl s)"
  "other \<noteq> matchAll info \<Longrightarrow> matchSet info = 0 \<Longrightarrow> \<not> pm info other [other] s"
  by (auto simp: pattern_matches_def split: option.split)

definition in_ranges :: "(u32 \<times> u32) list \<Rightarrow> u32 \<Rightarrow> bool" where
  "in_ranges rs c = list_ex (\<lambda>(a, b). a \<le> c \<and> c \<le> b) rs"

lemma in_ranges_simps [simp]: "in_ranges [] c = False" "in_ranges ((a, b) # rs) c = (a \<le> c \<and> c \<le> b \<or> in_ranges rs c)"
  by (simp_all add: in_ranges_def)

lemma match_set_item:
  "other \<noteq> matchAll info \<Longrightarrow> matchSet info \<noteq> 0 \<Longrightarrow>
   pm info other (other # p) s \<longleftrightarrow>
     (case parse_set p of None \<Rightarrow> False
      | Some (neg, rs, q) \<Rightarrow> s \<noteq> [] \<and> in_ranges rs (hd s) \<noteq> neg \<and> pm info other q (tl s))"
  by (auto simp: pattern_matches_def in_ranges_def split: option.split)

lemma match_all_all: "pm info other (matchAll info # matchAll info # p) = pm info other (matchAll info # p)"
  by (rule ext, simp only: match_all) (metis drop_0 drop_drop)

lemma match_all_one:
  assumes "matchOne info \<noteq> matchAll info" "matchOne info \<noteq> other"
  shows "pm info other (matchAll info # matchOne info # p) s \<longleftrightarrow> s \<noteq> [] \<and> pm info other (matchAll info # p) (tl s)"
proof (cases s)
  case (Cons d u)
  have "(\<exists>k. drop k s \<noteq> [] \<and> pm info other p (tl (drop k s))) \<longleftrightarrow> (\<exists>k. pm info other p (drop k u))"
  proof
    assume "\<exists>k. pm info other p (drop k u)"
    then obtain k where "pm info other p (drop k u)" by blast
    then have "pm info other p (drop (min k (length u)) u)" by (cases "k \<le> length u") (simp_all add: min_def)
    moreover have "drop (min k (length u)) s \<noteq> []" by (simp add: Cons)
    moreover have "tl (drop (min k (length u)) s) = drop (min k (length u)) u" by (simp add: Cons tl_drop)
    ultimately show "\<exists>k. drop k s \<noteq> [] \<and> pm info other p (tl (drop k s))" by metis
  qed (auto simp: Cons tl_drop)
  then show ?thesis by (simp only: match_all match_one [OF assms]) (simp add: Cons)
qed (simp add: match_all match_one [OF assms])

section \<open>The searches\<close>

text \<open>What a result says of a string: \<open>M'\<close> holds for it, or not, or not even for a suffix.\<close>

definition outcome :: "nat \<Rightarrow> (u32 list \<Rightarrow> bool) \<Rightarrow> u32 list \<Rightarrow> bool" where
  "outcome r M' s \<longleftrightarrow> r = SQLITE_MATCH \<and> M' s \<or> r = SQLITE_NOMATCH \<and> \<not> M' s \<or> r = SQLITE_NOWILDCARDMATCH \<and> (\<forall>k. \<not> M' (drop k s))"

lemmas codes = SQLITE_MATCH_def SQLITE_NOMATCH_def SQLITE_NOWILDCARDMATCH_def

lemma outcome_step:
  assumes "\<And>s. M' s \<longleftrightarrow> s \<noteq> [] \<and> P (hd s) \<and> M2 (tl s)"
  shows "P d \<Longrightarrow> outcome r M2 s \<Longrightarrow> outcome r M' (d # s)" "s = [] \<or> \<not> P (hd s) \<Longrightarrow> outcome SQLITE_NOMATCH M' s"
  using assms by (auto simp: outcome_def tl_drop)

lemma outcomeD:
  "outcome r M' s \<Longrightarrow> r = 0 \<and> M' s \<or> r = 1 \<and> \<not> M' s \<or> r = 2 \<and> \<not> M' s \<and> (\<forall>k. \<not> M' (drop k s))"
  by (auto simp: outcome_def codes dest: spec [of _ 0])

lemma search_Nil [simp]: "search_char f [] c = SQLITE_NOWILDCARDMATCH" "search_set f [] = SQLITE_NOWILDCARDMATCH" "skip_wild info [] s = Some ([], s)"
  by (simp_all add: search_char.simps search_set.simps skip_wild.simps Utf8Read_def)

text \<open>A character with \<open>P\<close> at which the rest of the pattern matches.\<close>

fun found :: "(u32 \<Rightarrow> bool) \<Rightarrow> (u32 list \<Rightarrow> bool) \<Rightarrow> u32 list \<Rightarrow> bool" where
  "found P M' [] = False"
| "found P M' (d # s) = (P d \<and> M' s \<or> found P M' s)"

lemma found_drop: "found P M' s \<longleftrightarrow> (\<exists>k. drop k s \<noteq> [] \<and> P (hd (drop k s)) \<and> M' (tl (drop k s)))"
proof (induction s)
  case (Cons d s)
  show ?case
  proof
    assume "found P M' (d # s)"
    then show "\<exists>k. drop k (d # s) \<noteq> [] \<and> P (hd (drop k (d # s))) \<and> M' (tl (drop k (d # s)))"
      using Cons by (metis drop_0 drop_Suc_Cons found.simps(2) list.distinct(1) list.sel(1,3))
  next
    assume "\<exists>k. drop k (d # s) \<noteq> [] \<and> P (hd (drop k (d # s))) \<and> M' (tl (drop k (d # s)))"
    then obtain k where "drop k (d # s) \<noteq> []" "P (hd (drop k (d # s)))" "M' (tl (drop k (d # s)))" by blast
    then show "found P M' (d # s)" using Cons by (cases k) auto
  qed
qed simp

lemma found_none: "\<forall>k. \<not> M' (drop k s) \<Longrightarrow> \<not> found P M' s"
  by (auto simp: found_drop tl_drop [symmetric] drop_Suc [symmetric]) (metis drop_Suc tl_drop)

text \<open>Bytes at which a search does not stop.\<close>

lemma found_cont:
  assumes "\<And>d. P d \<Longrightarrow> d < 0x80"
  shows "found P M' (decode (dropWhile cont_byte z)) = found P M' (decode z)"
proof (induction z)
  case (Cons b z)
  show ?case
  proof (cases "cont_byte b")
    case True
    then have "\<not> b < 0x80" "\<not> 0xc0 \<le> b" by (simp_all add: cont_byte_unat word_less_nat_alt word_le_nat_alt)
    then have "fst (READ_UTF8 (b # z)) = ucast b" "snd (READ_UTF8 (b # z)) = z" "\<not> (ucast b :: u32) < 0x80"
      using unat_u8_u32 [of b] by (simp_all add: word_less_nat_alt word_le_nat_alt)
    then show ?thesis using Cons True assms [of "ucast b"] by (auto simp: decode_read [of "b # z"])
  qed simp
qed simp

lemma found_skip:
  assumes "\<And>d. P d \<Longrightarrow> d < 0x80" "\<not> b < 0x80 \<or> \<not> P (ucast b)"
  shows "found P M' (decode (b # z)) = found P M' (decode z)"
proof -
  have d: "\<not> P (fst (READ_UTF8 (b # z)))"
    using assms first_char [of b z] read_small [of b z] by metis
  have "found P M' (decode (snd (READ_UTF8 (b # z)))) = found P M' (decode z)"
    using found_cont [OF assms(1), where z = z] by (auto simp: READ_UTF8_rest simp del: READ_UTF8.simps)
  then show ?thesis using d by (simp add: decode_read del: READ_UTF8.simps)
qed

lemma search_stop_found:
  assumes f: "\<And>z. 0 \<notin> set z \<Longrightarrow> outcome (f z) M' (decode z)"
    and P: "\<And>d. P d \<Longrightarrow> d < 0x80" and stop: "\<And>b. stop b \<longleftrightarrow> b < 0x80 \<and> P (ucast b)"
  shows "0 \<notin> set z \<Longrightarrow> search_stop f stop z = (if found P M' (decode z) then SQLITE_MATCH else SQLITE_NOWILDCARDMATCH)"
proof (induction z)
  case (Cons b z)
  then show ?case
  proof (cases "stop b")
    case True
    then show ?thesis
      using Cons outcomeD [OF f, of z] stop [of b] found_none [of M' "decode z" P]
      by (auto simp: decode_ascii Let_def codes)
  next
    case False
    then show ?thesis using Cons found_skip [of P b M' z, OF P] stop [of b] by (simp, metis)
  qed
qed simp

lemma search_char_found:
  assumes f: "\<And>z. 0 \<notin> set z \<Longrightarrow> outcome (f z) M' (decode z)" and c: "c \<noteq> 0"
  shows "0 \<notin> set z \<Longrightarrow> search_char f z c = (if found ((=) c) M' (decode z) then SQLITE_MATCH else SQLITE_NOWILDCARDMATCH)"
proof (induction z rule: length_induct)
  case (1 z)
  obtain d r where r: "Utf8Read z = (d, r)" by force
  from read_cases [OF r 1(2)] show ?case
  proof (elim disjE)
    assume "z = [] \<and> d = 0 \<and> r = []"
    then show ?thesis by simp
  next
    assume z: "z \<noteq> [] \<and> d \<noteq> 0 \<and> decode z = d # decode r \<and> 0 \<notin> set r \<and> length r < length z"
    then have "search_char f r c = (if found ((=) c) M' (decode r) then SQLITE_MATCH else SQLITE_NOWILDCARDMATCH)" using 1 by blast
    then show ?thesis using z outcomeD [OF f, of r] found_none [of M' "decode r" "(=) c"]
      by (auto simp: search_char.simps [of f z c] r Let_def codes)
  qed
qed

lemma search_set_found:
  assumes f: "\<And>z. 0 \<notin> set z \<Longrightarrow> outcome (f z) M' (decode z)" and e: "\<not> M' []"
  shows "0 \<notin> set z \<Longrightarrow> search_set f z = (if \<exists>k. M' (drop k (decode z)) then SQLITE_MATCH else SQLITE_NOWILDCARDMATCH)"
proof (induction z rule: length_induct)
  case (1 z)
  obtain d r where r: "Utf8Read z = (d, r)" by force
  have s: "SQLITE_SKIP_UTF8 z = r" using r by (simp add: skip_read Utf8Read_eq)
  from read_cases [OF r 1(2)] show ?case
  proof (elim disjE)
    assume "z = [] \<and> d = 0 \<and> r = []"
    then show ?thesis using e by simp
  next
    assume z: "z \<noteq> [] \<and> d \<noteq> 0 \<and> decode z = d # decode r \<and> 0 \<notin> set r \<and> length r < length z"
    then have "search_set f r = (if \<exists>k. M' (drop k (decode r)) then SQLITE_MATCH else SQLITE_NOWILDCARDMATCH)" using 1 by blast
    moreover have "(\<exists>k. M' (drop k (d # decode r))) \<longleftrightarrow> M' (d # decode r) \<or> (\<exists>k. M' (drop k (decode r)))"
      by (metis drop_0 drop_Suc_Cons not0_implies_Suc)
    ultimately show ?thesis using z outcomeD [OF f [OF 1(2)]]
      by (auto simp: search_set.simps [of f z] s Let_def codes)
  qed
qed

lemma skip_wild_correct:
  assumes "matchOne info \<noteq> matchAll info" "matchOne info \<noteq> other \<or> matchOne info = 0"
  shows "0 \<notin> set p \<Longrightarrow> 0 \<notin> set s \<Longrightarrow>
    (case skip_wild info p s of
       None \<Rightarrow> \<not> pm info other (matchAll info # decode p) (decode s)
     | Some (q, t) \<Rightarrow> pm info other (matchAll info # decode p) (decode s) = pm info other (matchAll info # decode q) (decode t) \<and>
         0 \<notin> set q \<and> 0 \<notin> set t \<and> length q \<le> length p \<and>
         (q \<noteq> [] \<longrightarrow> hd (decode q) \<noteq> matchAll info \<and> hd (decode q) \<noteq> matchOne info))"
proof (induction p arbitrary: s rule: length_induct)
  case (1 p)
  obtain c r where r: "Utf8Read p = (c, r)" by force
  obtain d t where t: "Utf8Read s = (d, t)" by force
  have t': "sqlite3Utf8Read s = (d, t)" by (simp add: sqlite3Utf8Read_eq t)
  note s = read_cases [OF t 1(3)]
  from read_cases [OF r 1(2)] show ?case
  proof (elim disjE)
    assume "p = [] \<and> c = 0 \<and> r = []"
    then show ?thesis using 1(3) by simp
  next
    assume p: "p \<noteq> [] \<and> c \<noteq> 0 \<and> decode p = c # decode r \<and> 0 \<notin> set r \<and> length r < length p"
    note IH = 1(1) [rule_format, of r]
    show ?thesis
    proof (cases "c = matchAll info")
      case True
      then show ?thesis
        using IH [of s] p 1(3) assms by (auto simp: skip_wild.simps [of info p s] r match_all_all split: option.split_asm option.split)
    next
      case False
      show ?thesis
      proof (cases "c = matchOne info")
        case True
        then have "matchOne info \<noteq> other" using assms(2) p by auto
        note m = match_all_one [OF assms(1) this, of "decode r" "decode s"]
        show ?thesis
          using IH [of t] p s True False m
          by (auto simp: skip_wild.simps [of info p s] r t' split: option.split_asm option.split)
      next
        case one: False
        then show ?thesis using p False 1 by (simp add: skip_wild.simps [of info p s] r)
      qed
    qed
  qed
qed

section \<open>Sets\<close>

text \<open>What is left of a set when \<open>prior\<close> may still open a range (0: it may not).\<close>

definition set_rest :: "u32 \<Rightarrow> u32 list \<Rightarrow> ((u32 \<times> u32) list \<times> u32 list) option" where
  "set_rest prior p =
    (if prior \<noteq> 0 \<and> opens_range p then map_option (\<lambda>(rs, q). ((prior, hd (tl p)) # rs, q)) (set_members (tl (tl p)))
     else set_members p)"

lemma set_rest_0 [simp]: "set_rest 0 p = set_members p" by (simp add: set_rest_def)

lemma set_members_rest:
  "a \<noteq> 0 \<Longrightarrow> a \<noteq> ascii (CHR '']'') \<Longrightarrow> set_members (a # p) = map_option (\<lambda>(rs, q). ((a, a) # rs, q)) (set_rest a p)"
  by (cases "set_members (tl (tl p))") (auto simp: set_rest_def)

lemma set_rest_plain:
  "c \<noteq> 0 \<Longrightarrow> c \<noteq> ascii (CHR '']'') \<Longrightarrow> prior = 0 \<or> \<not> opens_range (c # p) \<Longrightarrow>
   set_rest prior (c # p) = map_option (\<lambda>(rs, q). ((c, c) # rs, q)) (set_rest c p)"
  using set_members_rest [of c p] by (auto simp: set_rest_def simp del: set_members.simps)

lemma set_rest_close: "set_rest prior (ascii (CHR '']'') # p) = Some ([], p)"
  by (cases p) (auto simp: set_rest_def opens_range_def ascii_def)

lemma set_rest_Nil [simp]: "set_rest prior [] = None" by (simp add: set_rest_def opens_range_def)

lemma first_byte_char:
  assumes "0 \<notin> set p" "p \<noteq> []"
  shows "ucast (first_byte p) = ascii (CHR '']'') \<longleftrightarrow> hd (decode p) = ascii (CHR '']'')"
proof (cases p)
  case (Cons b z)
  have "ascii (CHR '']'') < (0x80 :: u32)" by (simp add: ascii_def)
  moreover have "ucast b = ascii (CHR '']'') \<Longrightarrow> b < 0x80"
    using unat_u8_u32 [of b] by (simp add: ascii_def word_less_nat_alt)
  ultimately show ?thesis
    using first_char [of b z] decode_read [of p] by (auto simp: Cons first_byte_def simp del: READ_UTF8.simps)
qed (use assms in simp)

lemma first_byte_0: "0 \<notin> set p \<Longrightarrow> first_byte p = 0 \<longleftrightarrow> p = []"
  by (cases p) (auto simp: first_byte_def)

lemma opens_range_code:
  "0 \<notin> set p \<Longrightarrow> opens_range (c # decode p) \<longleftrightarrow> c = ascii (CHR ''-'') \<and> ucast (first_byte p) \<noteq> ascii (CHR '']'') \<and> first_byte p \<noteq> 0"
  using first_byte_char [of p] first_byte_0 [of p] by (cases "decode p") (auto simp: opens_range_def)

definition chars :: "u32 \<Rightarrow> u8 list \<Rightarrow> u32 list" where "chars c p = (if c = 0 then [] else c # decode p)"

lemma chars_read: "Utf8Read p = (c, r) \<Longrightarrow> 0 \<notin> set p \<Longrightarrow> chars c r = decode p \<and> 0 \<notin> set r"
  using read_cases [of p c r] by (auto simp: chars_def)

lemma set_loop_correct:
  "0 \<notin> set p \<Longrightarrow> c2 = 0 \<longrightarrow> p = [] \<Longrightarrow>
   (case set_rest prior (chars c2 p) of
      None \<Rightarrow> fst (set_loop c p c2 prior seen) = 0
    | Some (rs, q) \<Rightarrow> \<exists>p'. set_loop c p c2 prior seen = (ascii (CHR '']''), seen \<or> in_ranges rs c, p') \<and> decode p' = q \<and> 0 \<notin> set p')"
proof (induction c p c2 prior seen rule: set_loop.induct)
  case (1 c p c2 prior seen)
  obtain c3 r where r: "Utf8Read p = (c3, r)" by force
  obtain c4 r' where r': "Utf8Read r = (c4, r')" by force
  note [simp] = sqlite3Utf8Read_eq r r'
  have pr: "prior > 0 \<longleftrightarrow> prior \<noteq> 0" by (simp add: word_gt_0)
  have d: "chars c3 r = decode p \<and> 0 \<notin> set r" using chars_read [OF r 1(3)] .
  then have d': "chars c4 r' = decode r \<and> 0 \<notin> set r'" using chars_read [OF r'] by blast
  have nz: "c4 = 0 \<longrightarrow> r' = []" "c3 = 0 \<longrightarrow> r = []" using read_cases [OF r'] read_cases [OF r] d 1(3) by auto
  consider "c2 = 0" | "c2 = ascii (CHR '']'')" "c2 \<noteq> 0"
    | "c2 \<noteq> 0" "c2 \<noteq> ascii (CHR '']'')" "opens_range (c2 # decode p) \<and> prior \<noteq> 0"
    | "c2 \<noteq> 0" "c2 \<noteq> ascii (CHR '']'')" "\<not> (opens_range (c2 # decode p) \<and> prior \<noteq> 0)" by blast
  then show ?case
  proof cases
    case 1
    then show ?thesis by (simp add: set_loop.simps [of c p 0] chars_def)
  next
    case 2
    then show ?thesis using 1(3) by (simp add: set_loop.simps [of c p "ascii (CHR '']'')"] chars_def set_rest_close)
  next
    case 3
    then have p: "p \<noteq> []" using opens_range_code [OF \<open>0 \<notin> set p\<close>, of c2] first_byte_0 [OF \<open>0 \<notin> set p\<close>] by simp
    then have c3: "decode p = c3 # decode r" using read_cases [OF r 1(3)] by simp
    have IH: "case set_members (decode r) of None \<Rightarrow> fst (set_loop c r' c4 0 (seen \<or> prior \<le> c \<and> c \<le> c3)) = 0
      | Some (rs, q) \<Rightarrow> \<exists>p'. set_loop c r' c4 0 (seen \<or> prior \<le> c \<and> c \<le> c3) = (ascii (CHR '']''), (seen \<or> prior \<le> c \<and> c \<le> c3) \<or> in_ranges rs c, p') \<and> decode p' = q \<and> 0 \<notin> set p'"
      using 1(1) [of c3 r c4 r'] 3 d' nz opens_range_code [OF 1(3), of c2] pr by simp
    moreover have "set_loop c p c2 prior seen = set_loop c r' c4 0 (seen \<or> prior \<le> c \<and> c \<le> c3)"
      using 3 opens_range_code [OF 1(3), of c2] pr by (subst set_loop.simps) simp
    ultimately show ?thesis
      using 3 c3 by (auto simp: chars_def set_rest_def split: option.split)
  next
    case 4
    then have IH: "case set_rest c2 (decode p) of None \<Rightarrow> fst (set_loop c r c3 c2 (seen \<or> c = c2)) = 0
      | Some (rs, q) \<Rightarrow> \<exists>p'. set_loop c r c3 c2 (seen \<or> c = c2) = (ascii (CHR '']''), (seen \<or> c = c2) \<or> in_ranges rs c, p') \<and> decode p' = q \<and> 0 \<notin> set p'"
      using 1(2) [of c3 r] d nz opens_range_code [OF 1(3), of c2] pr by auto
    moreover have "set_rest prior (c2 # decode p) = map_option (\<lambda>(rs, q). ((c2, c2) # rs, q)) (set_rest c2 (decode p))"
      using 4 by (intro set_rest_plain) auto
    moreover have "set_loop c p c2 prior seen = set_loop c r c3 c2 (seen \<or> c = c2)"
      using 4 opens_range_code [OF 1(3), of c2] pr by (auto simp: set_loop.simps [of c p c2])
    moreover have "c2 \<le> c \<and> c \<le> c2 \<longleftrightarrow> c = c2" by auto
    ultimately show ?thesis using 4 by (auto simp: chars_def split: option.split_asm option.split)
  qed
qed

text \<open>The set at the head of the pattern, against the first character of the string.\<close>

lemma set_body_loop:
  assumes "Utf8Read p = (c2, r)" "0 \<notin> set p" "c \<noteq> 0"
    "(if c2 = ascii (CHR '']'') then Utf8Read r else (c2, r)) = (c3, r2)"
    "set_loop c r2 c3 0 (c2 = ascii (CHR '']'') \<and> c = ascii (CHR '']'')) = (c4, seen, p')"
  shows "case set_body (decode p) of None \<Rightarrow> c4 = 0
    | Some (rs, q) \<Rightarrow> c4 = ascii (CHR '']'') \<and> seen = in_ranges rs c \<and> decode p' = q \<and> 0 \<notin> set p'"
proof -
  have rb: "ascii (CHR '']'') \<noteq> 0" by (simp add: ascii_def)
  note p = read_cases [OF assms(1,2)]
  show ?thesis
  proof (cases "c2 = ascii (CHR '']'')")
    case True
    then have r: "Utf8Read r = (c3, r2)" "0 \<notin> set r" "decode p = c2 # decode r" using assms p rb by auto
    have ch: "chars c3 r2 = decode r \<and> 0 \<notin> set r2" using chars_read [OF r(1,2)] .
    have "c3 = 0 \<longrightarrow> r2 = []" using read_cases [OF r(1,2)] by auto
    from set_loop_correct [where p = r2 and ?c2.0 = c3 and prior = 0 and c = c and seen = "c2 = ascii (CHR '']'') \<and> c = ascii (CHR '']'')", OF _ this]
    have "case set_members (decode r) of None \<Rightarrow> c4 = 0
      | Some (rs, q) \<Rightarrow> c4 = ascii (CHR '']'') \<and> seen = (c = ascii (CHR '']'') \<or> in_ranges rs c) \<and> decode p' = q \<and> 0 \<notin> set p'"
      using ch assms(5) True by (auto split: option.split_asm option.split)
    moreover have "c = ascii (CHR '']'') \<longleftrightarrow> ascii (CHR '']'') \<le> c \<and> c \<le> ascii (CHR '']'')" by auto
    ultimately show ?thesis using True r(3) by (auto simp: set_body_def split: option.split_asm option.split)
  next
    case False
    then have r: "c3 = c2" "r2 = r" using assms(4) by simp_all
    have ch: "chars c2 r = decode p \<and> 0 \<notin> set r" using chars_read [OF assms(1,2)] .
    have "c2 = 0 \<longrightarrow> r = []" using p by auto
    from set_loop_correct [where p = r and ?c2.0 = c2 and prior = 0 and c = c and seen = False, OF _ this]
    have "case set_members (decode p) of None \<Rightarrow> c4 = 0
      | Some (rs, q) \<Rightarrow> c4 = ascii (CHR '']'') \<and> seen = in_ranges rs c \<and> decode p' = q \<and> 0 \<notin> set p'"
      using ch assms(5) False r by (auto split: option.split_asm option.split)
    moreover have "set_body (decode p) = set_members (decode p)"
      using p False by (cases "decode p") (auto simp: set_body_def simp del: set_members.simps(2))
    ultimately show ?thesis by simp
  qed
qed

lemma match_set_correct:
  assumes "0 \<notin> set p" "0 \<notin> set s"
  shows "case match_set p s of
      None \<Rightarrow> decode s = [] \<or> parse_set (decode p) = None \<or> (\<exists>neg rs q. parse_set (decode p) = Some (neg, rs, q) \<and> in_ranges rs (hd (decode s)) = neg)
    | Some (p', t) \<Rightarrow> decode s = hd (decode s) # decode t \<and> 0 \<notin> set t \<and> 0 \<notin> set p' \<and>
        (\<exists>neg rs. parse_set (decode p) = Some (neg, rs, decode p') \<and> in_ranges rs (hd (decode s)) \<noteq> neg)"
proof -
  obtain c t where t: "Utf8Read s = (c, t)" by force
  obtain c1 r1 where r1: "Utf8Read p = (c1, r1)" by force
  define neg where "neg = (c1 = ascii (CHR ''^''))"
  define p1 where "p1 = (if neg then r1 else p)"
  obtain c2 r2 where r2: "Utf8Read p1 = (c2, r2)" by force
  obtain c3 r3 where r3: "(if c2 = ascii (CHR '']'') then Utf8Read r2 else (c2, r2)) = (c3, r3)" by force
  obtain c4 seen p' where l: "set_loop c r3 c3 0 (c2 = ascii (CHR '']'') \<and> c = ascii (CHR '']'')) = (c4, seen, p')" by (metis prod_cases3)
  have p1: "0 \<notin> set p1" "parse_set (decode p) = map_option (Pair neg) (set_body (decode p1))"
    using read_cases [OF r1 assms(1)] assms(1) by (auto simp: p1_def neg_def parse_set_def ascii_def set_body_def)
  have r2': "(if neg then sqlite3Utf8Read r1 else (c1, r1)) = (c2, r2)"
    using r1 r2 by (auto simp: p1_def sqlite3Utf8Read_eq)
  have m: "match_set p s = (if c = 0 then None else if c4 = 0 \<or> seen = neg then None else Some (p', t))"
    using t r1 r2' r3 l by (cases "c2 = ascii (CHR '']'')") (simp_all add: match_set_def sqlite3Utf8Read_eq neg_def [symmetric])
  show ?thesis
  proof (cases "c = 0")
    case True
    then show ?thesis using m read_cases [OF t assms(2)] by auto
  next
    case False
    then have s: "decode s = c # decode t" "0 \<notin> set t" using read_cases [OF t assms(2)] by auto
    have rb: "ascii (CHR '']'') \<noteq> 0" by (simp add: ascii_def)
    note b = set_body_loop [OF r2 p1(1) False r3 l]
    show ?thesis using m b False s p1(2) rb by (auto split: option.split_asm option.split)
  qed
qed

section \<open>The comparison\<close>

lemma ascii_small: "c < 0x80 \<Longrightarrow> unat (c :: u32) < 128" by (simp add: word_less_nat_alt)

lemma in_zStop_iff:
  assumes "c < 0x80" "c \<noteq> 0"
  shows "in_zStop info c b \<longleftrightarrow> b < 0x80 \<and> same_char info c (ucast b)"
proof -
  have c: "unat c < 128" using assms by (simp add: word_less_nat_alt)
  have code_c: "code (chr8 c) = unat c" using c by (simp add: chr8_def)
  have b: "unat (ucast b :: u32) = unat b" by (rule unat_u8_u32)
  have code_b: "code (chr8 (ucast b)) = unat b" using u8_less [of b] by (simp add: chr8_def b)
  have eq: "c = ucast b \<longleftrightarrow> unat c = unat b" using b by (simp add: word_unat_eq_iff)
  have lt: "b < 0x80 \<longleftrightarrow> unat b < 128" "(ucast b :: u32) < 0x80 \<longleftrightarrow> unat b < 128" using b by (simp_all add: word_less_nat_alt)
  show ?thesis
  proof (cases "noCase info")
    case True
    have up: "code (sqlite3Toupper (chr8 c)) = (if 97 \<le> unat c \<and> unat c \<le> 122 then unat c - 32 else unat c)"
      using c by (simp add: toupper_code code_c)
    have lo: "sqlite3Tolower (chr8 d) = (if 65 \<le> unat d \<and> unat d \<le> 90 then unat d + 32 else unat d)" if "unat d < 128" for d
      using that tolower_code [of "chr8 d"] by (simp add: sqlite3Tolower_def lower_def chr8_def del: tolower_code)
    show ?thesis
    proof (cases "unat b < 128")
      case b128: True
      show ?thesis
        using True c b128 up lo [OF c] lo [of "ucast b"] assms(1)
        by (simp add: in_zStop_def same_char_def same_fold_def eq lt b) (auto split: if_splits)
    next
      case False
      then show ?thesis using True c up lo [OF c] by (auto simp: in_zStop_def lt split: if_splits)
    qed
  next
    case False
    then show ?thesis using c by (auto simp: in_zStop_def same_char_def same_fold_def eq lt)
  qed
qed

lemma same_char_small: "c < 0x80 \<Longrightarrow> same_char info c d \<Longrightarrow> d < 0x80"
  by (auto simp: same_char_def same_fold_def)

lemma same_char_large: "\<not> c < 0x80 \<Longrightarrow> same_char info c = (=) c"
  by (auto simp: same_char_def same_fold_def)

lemma search_found:
  assumes f: "\<And>z. 0 \<notin> set z \<Longrightarrow> outcome (f z) M' (decode z)" and c: "c \<noteq> 0" and z: "0 \<notin> set z"
  shows "(if c < 0x80 then search_stop f (in_zStop info c) z else search_char f z c) =
    (if found (same_char info c) M' (decode z) then SQLITE_MATCH else SQLITE_NOWILDCARDMATCH)"
proof (cases "c < 0x80")
  case True
  then show ?thesis
    using search_stop_found [of f M' "same_char info c" "in_zStop info c", OF f same_char_small [OF True] in_zStop_iff [OF True c] z] by simp
next
  case False
  then show ?thesis using search_char_found [OF f c z] same_char_large [OF False, of info] by simp
qed

text \<open>The search behind a star decides the star.\<close>

lemma star_outcome:
  assumes "pm info other (matchAll info # dp) s \<longleftrightarrow> B"
  shows "outcome (if B then SQLITE_MATCH else SQLITE_NOWILDCARDMATCH) (pm info other (matchAll info # dp)) s"
proof -
  have "pm info other (matchAll info # dp) (drop k s) \<Longrightarrow> pm info other (matchAll info # dp) s" for k
    by (auto simp: match_all)
  then show ?thesis using assms by (auto simp: outcome_def codes)
qed

lemma same_fold_0: "same_fold info c 0 \<Longrightarrow> c = 0"
proof -
  assume "same_fold info c 0"
  then have c: "unat c < 128" "sqlite3Tolower (chr8 c) = sqlite3Tolower (chr8 0)" by (simp_all add: same_fold_def word_less_nat_alt)
  have "sqlite3Tolower (chr8 0) = 0" by (simp add: sqlite3Tolower_def chr8_def)
  moreover have "sqlite3Tolower (chr8 c) = (if 65 \<le> unat c \<and> unat c \<le> 90 then unat c + 32 else unat c)"
    using c(1) tolower_code [of "chr8 c"] by (simp add: sqlite3Tolower_def lower_def chr8_def del: tolower_code)
  ultimately have "unat c = 0" using c(2) by (simp split: if_splits)
  then show ?thesis by (simp add: unat_eq_zero)
qed

text \<open>One character of the pattern against one of the string.\<close>

lemma plain_step:
  assumes m: "\<And>s. M' s \<longleftrightarrow> s \<noteq> [] \<and> Q (hd s) \<and> M2 (tl s)" and f: "\<And>t. 0 \<notin> set t \<Longrightarrow> outcome (f t) M2 (decode t)"
    and s: "Utf8Read S = (c2, s)" "0 \<notin> set S" and r: "r = (if c2 \<noteq> 0 \<and> Q c2 then f s else SQLITE_NOMATCH)"
  shows "outcome r M' (decode S)"
  using read_cases [OF s]
proof (elim disjE)
  assume "S = [] \<and> c2 = 0 \<and> s = []"
  then show ?thesis using outcome_step(2) [where M' = M' and P = Q and ?M2.0 = M2, OF m] r by simp
next
  assume z: "S \<noteq> [] \<and> c2 \<noteq> 0 \<and> decode S = c2 # decode s \<and> 0 \<notin> set s \<and> length s < length S"
  show ?thesis
  proof (cases "Q c2")
    case True
    then show ?thesis using outcome_step(1) [where M' = M' and P = Q and ?M2.0 = M2, OF m True f] z r by simp
  next
    case False
    then show ?thesis using outcome_step(2) [where M' = M' and P = Q and ?M2.0 = M2, OF m] z r by simp
  qed
qed

text \<open>What \<open>patternCompare\<close> does behind a star, over the comparison \<open>f\<close>.\<close>

definition star_search :: "compareInfo \<Rightarrow> u32 \<Rightarrow> (u8 list \<Rightarrow> u8 list \<Rightarrow> nat) \<Rightarrow> u8 list \<Rightarrow> u8 list \<Rightarrow> nat" where
  "star_search info other f q t =
    (case Utf8Read q of (c, p2) \<Rightarrow>
     if c = 0 then SQLITE_MATCH
     else if c = other \<and> matchSet info \<noteq> 0 then search_set (f q) t
     else (case (if c = other then sqlite3Utf8Read p2 else (c, p2)) of (c, p3) \<Rightarrow>
       if c = 0 then SQLITE_NOWILDCARDMATCH
       else if c < 0x80 then search_stop (f p3) (in_zStop info c) t
       else search_char (f p3) t c))"

lemma star_search_correct:
  assumes "matchOne info \<noteq> matchAll info" "matchOne info \<noteq> other \<or> matchOne info = 0" "0 \<notin> set q" "0 \<notin> set t"
    and hd: "q \<noteq> [] \<longrightarrow> hd (decode q) \<noteq> matchAll info \<and> hd (decode q) \<noteq> matchOne info"
    and f: "\<And>u z. 0 \<notin> set z \<Longrightarrow> 0 \<notin> set u \<Longrightarrow> length u \<le> length q \<Longrightarrow> outcome (f u z) (pm info other (decode u)) (decode z)"
  shows "star_search info other f q t =
    (if pm info other (matchAll info # decode q) (decode t) then SQLITE_MATCH else SQLITE_NOWILDCARDMATCH)"
proof -
  obtain c p2 where r: "Utf8Read q = (c, p2)" by force
  have all: "pm info other (matchAll info # decode q) (decode t) \<longleftrightarrow> (\<exists>k. pm info other (decode q) (drop k (decode t)))" by (rule match_all)
  show ?thesis
  proof (cases "q = []")
    case True
    then have "pm info other (decode q) (drop (length (decode t)) (decode t))" by (simp add: match_Nil)
    then have "\<exists>k. pm info other (decode q) (drop k (decode t))" by blast
    then show ?thesis using True all by (simp add: star_search_def Utf8Read_def)
  next
    case False
    then have q: "c \<noteq> 0" "decode q = c # decode p2" "0 \<notin> set p2" "length p2 < length q" "c \<noteq> matchAll info" "c \<noteq> matchOne info"
      using read_cases [OF r assms(3)] hd by auto
    have search: "(if d < 0x80 then search_stop (f p3) (in_zStop info d) t else search_char (f p3) t d) =
        (if \<exists>k. pm info other (decode q) (drop k (decode t)) then SQLITE_MATCH else SQLITE_NOWILDCARDMATCH)"
      if "d \<noteq> 0" "0 \<notin> set p3" "length p3 \<le> length q"
        "\<And>s. pm info other (decode q) s \<longleftrightarrow> s \<noteq> [] \<and> same_char info d (hd s) \<and> pm info other (decode p3) (tl s)" for d p3
      using search_found [where f = "f p3" and M' = "pm info other (decode p3)", OF f that(1) assms(4), where info = info] that(2,3,4)
        found_drop [of "same_char info d" "pm info other (decode p3)" "decode t"] by simp
    consider "c = other" "matchSet info \<noteq> 0" | "c = other" "matchSet info = 0" | "c \<noteq> other" by blast
    then show ?thesis
    proof cases
      case 1
      then have "\<not> pm info other (decode q) []" using q match_set_item [of other info "decode p2" "[]"] by (simp split: option.split)
      then have "search_set (f q) t = (if \<exists>k. pm info other (decode q) (drop k (decode t)) then SQLITE_MATCH else SQLITE_NOWILDCARDMATCH)"
        using search_set_found [where f = "f q" and M' = "pm info other (decode q)", OF f _ assms(4)] assms(3) by simp
      then show ?thesis using 1 q(1) r all by (simp add: star_search_def)
    next
      case 2
      obtain d p3 where d: "Utf8Read p2 = (d, p3)" by force
      have e: "star_search info other f q t = (if d = 0 then SQLITE_NOWILDCARDMATCH
          else if d < 0x80 then search_stop (f p3) (in_zStop info d) t else search_char (f p3) t d)"
        using 2 q(1) r d by (simp add: star_search_def sqlite3Utf8Read_eq)
      show ?thesis
      proof (cases "d = 0")
        case True
        then have "decode q = [other]" using read_cases [OF d q(3)] q(2) 2 by auto
        then show ?thesis using True e all match_escape(2) [of other info] 2 q(5) by simp
      next
        case False
        then have "decode q = other # d # decode p3" "0 \<notin> set p3" "length p3 \<le> length q"
          using read_cases [OF d q(3)] q 2 by auto
        then show ?thesis using e False all search [OF False, of p3] match_escape(1) [of other info] 2 q(5) by simp
      qed
    next
      case 3
      then have "star_search info other f q t = (if c < 0x80 then search_stop (f p2) (in_zStop info c) t else search_char (f p2) t c)"
        using q(1) r by (simp add: star_search_def)
      then show ?thesis using all search [OF q(1,3)] match_exact [of c info other "decode p2"] q 3 by simp
    qed
  qed
qed

lemma pattern_outcome:
  assumes "matchOne info \<noteq> matchAll info" "matchOne info \<noteq> other \<or> matchOne info = 0"
  shows "0 \<notin> set P \<Longrightarrow> 0 \<notin> set S \<Longrightarrow> (\<And>n. esc = Some n \<Longrightarrow> length P \<le> n) \<Longrightarrow>
    outcome (patternCompare info other esc P S) (pm info other (decode P)) (decode S)"
proof (induction P arbitrary: esc S rule: length_induct)
  case (1 P)
  note IH = 1(1) [rule_format]
  obtain c p where r: "Utf8Read P = (c, p)" by force
  obtain c2 s where s: "Utf8Read S = (c2, s)" by force
  note s' = read_cases [OF s 1(3)]
  show ?case
  proof (cases "P = []")
    case True
    then show ?thesis by (simp add: patternCompare.simps [of info other esc "[]"] Utf8Read_def match_Nil outcome_def codes)
  next
    case False
    then have p: "c \<noteq> 0" "decode P = c # decode p" "0 \<notin> set p" "length p < length P" using read_cases [OF r 1(2)] by auto
    consider "c = matchAll info" | "c \<noteq> matchAll info" "c = other" "matchSet info \<noteq> 0"
      | "c \<noteq> matchAll info" "c = other" "matchSet info = 0" | "c \<noteq> matchAll info" "c \<noteq> other" by blast
    then show ?thesis
    proof cases
      case star1: 1
      have star: "pm info other (decode P) = pm info other (matchAll info # decode p)" using p(2) star1 by simp
      note sk = skip_wild_correct [OF assms p(3) 1(3)]
      show ?thesis
      proof (cases "skip_wild info p S")
        case None
        then have "patternCompare info other esc P S = SQLITE_NOWILDCARDMATCH"
          using star1 p(1) r by (subst patternCompare.simps) simp
        then show ?thesis using sk None star_outcome [of info other "decode p" "decode S" False] star by simp
      next
        case (Some x)
        obtain q t where x: "x = (q, t)" by force
        have q: "pm info other (matchAll info # decode p) (decode S) = pm info other (matchAll info # decode q) (decode t)"
          "0 \<notin> set q" "0 \<notin> set t" "length q < length P" "q \<noteq> [] \<longrightarrow> hd (decode q) \<noteq> matchAll info \<and> hd (decode q) \<noteq> matchOne info"
          using sk Some x p(4) by auto
        have IH': "outcome (patternCompare info other None u z) (pm info other (decode u)) (decode z)"
          if "0 \<notin> set z" "0 \<notin> set u" "length u \<le> length q" for u z
          using IH [of u z None] that q(4) by simp
        have "patternCompare info other esc P S = star_search info other (\<lambda>p s. patternCompare info other None p s) q t"
          using star1 p(1) r Some x by (subst patternCompare.simps) (simp add: star_search_def)
        also have "\<dots> = (if pm info other (matchAll info # decode q) (decode t) then SQLITE_MATCH else SQLITE_NOWILDCARDMATCH)"
          using star_search_correct [OF assms q(2,3,5)] IH' by blast
        finally show ?thesis using star star_outcome [OF q(1)] by simp
      qed
    next
      case 2
      have e: "patternCompare info other esc P S = (case match_set p S of None \<Rightarrow> SQLITE_NOMATCH | Some (p, s) \<Rightarrow> patternCompare info other esc p s)"
        using 2 p(1) r by (subst patternCompare.simps) simp
      have mp: "pm info other (decode P) s \<longleftrightarrow>
         (case parse_set (decode p) of None \<Rightarrow> False
          | Some (neg, rs, q) \<Rightarrow> s \<noteq> [] \<and> in_ranges rs (hd s) \<noteq> neg \<and> pm info other q (tl s))" for s
        using match_set_item [of other info "decode p" s] 2 p(2) by simp
      note ms = match_set_correct [OF p(3) 1(3)]
      show ?thesis
      proof (cases "match_set p S")
        case None
        then show ?thesis using ms mp [of "decode S"] e by (auto simp: outcome_def split: option.splits)
      next
        case (Some x)
        obtain p' t where x: "x = (p', t)" by force
        have l: "length p' \<le> length p" using match_set_length [of p S p' t] Some x by simp
        obtain neg rs where q: "decode S = hd (decode S) # decode t" "0 \<notin> set t" "0 \<notin> set p'"
          "parse_set (decode p) = Some (neg, rs, decode p')" "in_ranges rs (hd (decode S)) \<noteq> neg"
          using ms Some x by auto
        have "outcome (patternCompare info other esc p' t) (pm info other (decode p')) (decode t)"
          using IH [of p' t esc] l p(4) q 1(4) by fastforce
        then have "outcome (patternCompare info other esc p' t) (pm info other (decode P)) (hd (decode S) # decode t)"
          using q(4,5) mp by (intro outcome_step(1) [where P = "\<lambda>c. in_ranges rs c \<noteq> neg" and ?M2.0 = "pm info other (decode p')"]) auto
        then show ?thesis using e Some x q(1) by simp
      qed
    next
      case 3
      obtain d p' where d: "Utf8Read p = (d, p')" by force
      have e: "patternCompare info other esc P S =
          (if d = 0 then SQLITE_NOMATCH
           else if d = c2 \<or> same_fold info d c2 then patternCompare info other (Some (length p')) p' s else SQLITE_NOMATCH)"
        using 3 p(1) r d s by (subst patternCompare.simps) (simp add: sqlite3Utf8Read_eq)
      show ?thesis
      proof (cases "d = 0")
        case True
        then have "decode P = [other]" using read_cases [OF d p(3)] p(2) 3 by auto
        then show ?thesis using True e match_escape(2) [of other info] 3 by (auto simp: outcome_def)
      next
        case False
        then have d': "decode P = other # d # decode p'" "0 \<notin> set p'" "length p' < length P"
          using read_cases [OF d p(3)] p 3 by auto
        have e1: "patternCompare info other esc P S =
            (if c2 \<noteq> 0 \<and> same_char info d c2 then patternCompare info other (Some (length p')) p' s else SQLITE_NOMATCH)"
          using e False same_fold_0 [of info d] by (auto simp: same_char_def)
        have IH': "outcome (patternCompare info other (Some (length p')) p' t) (pm info other (decode p')) (decode t)" if "0 \<notin> set t" for t
          using IH [of p' t "Some (length p')"] d' that by simp
        have "pm info other (decode P) s \<longleftrightarrow> s \<noteq> [] \<and> same_char info d (hd s) \<and> pm info other (decode p') (tl s)" for s
          using match_escape(1) [of other info d "decode p'" s] 3 d'(1) by simp
        from this IH' show ?thesis by (rule plain_step [where Q = "same_char info d" and f = "patternCompare info other (Some (length p')) p'", OF _ _ s 1(3) e1])
      qed
    next
      case 4
      have ne: "esc \<noteq> Some (length p)" using 1(4) [of "length p"] p(4) by auto
      have IH': "outcome (patternCompare info other esc p t) (pm info other (decode p)) (decode t)" if "0 \<notin> set t" for t
        using IH [of p t esc] p(3,4) that 1(4) by fastforce
      show ?thesis
      proof (cases "c = matchOne info")
        case True
        have e1: "patternCompare info other esc P S = (if c2 \<noteq> 0 \<and> True then patternCompare info other esc p s else SQLITE_NOMATCH)"
          using 4 p(1) r s ne True same_fold_0 [of info c] by (subst patternCompare.simps) auto
        have "pm info other (decode P) s \<longleftrightarrow> s \<noteq> [] \<and> True \<and> pm info other (decode p) (tl s)" for s
          using match_one [OF assms(1), of other "decode p" s] p(1,2) 4 True assms(2) by simp
        from this IH' show ?thesis by (rule plain_step [where Q = "\<lambda>_. True" and f = "patternCompare info other esc p", OF _ _ s 1(3) e1])
      next
        case False
        have e1: "patternCompare info other esc P S = (if c2 \<noteq> 0 \<and> same_char info c c2 then patternCompare info other esc p s else SQLITE_NOMATCH)"
          using 4 p(1) r s False same_fold_0 [of info c] by (subst patternCompare.simps) (auto simp: same_char_def)
        have "pm info other (decode P) s \<longleftrightarrow> s \<noteq> [] \<and> same_char info c (hd s) \<and> pm info other (decode p) (tl s)" for s
          using match_exact [of c info other "decode p" s] p(2) 4 False by simp
        from this IH' show ?thesis by (rule plain_step [where Q = "same_char info c" and f = "patternCompare info other esc p", OF _ _ s 1(3) e1])
      qed
    qed
  qed
qed

lemma charlen_decode: "0 \<notin> set z \<Longrightarrow> charlen_loop z None r = r + length (decode z)"
proof (induction z arbitrary: r rule: length_induct)
  case (1 z)
  obtain c u where u: "Utf8Read z = (c, u)" by force
  from read_cases [OF u 1(2)] show ?case
  proof (elim disjE)
    assume z: "z \<noteq> [] \<and> c \<noteq> 0 \<and> decode z = c # decode u \<and> 0 \<notin> set u \<and> length u < length z"
    then have "hd z \<noteq> 0" using 1(2) by (metis list.set_sel(1))
    moreover have "SQLITE_SKIP_UTF8 z = u" using u by (simp add: skip_read Utf8Read_eq)
    moreover have "charlen_loop u None (r + 1) = (r + 1) + length (decode u)" using 1(1) z by blast
    ultimately show ?thesis using z by (simp add: charlen_loop.simps [of z])
  qed (simp add: charlen_loop.simps)
qed

lemma charlen_text: "0 \<notin> set z \<Longrightarrow> sqlite3Utf8CharLen z (- 1) = length (decode z)"
  by (simp add: sqlite3Utf8CharLen_def charlen_decode del: charlen_loop.simps)

definition escaped_info :: "u32 \<Rightarrow> compareInfo \<Rightarrow> compareInfo" where
  "escaped_info e info =
    info\<lparr>matchAll := (if e = matchAll info then 0 else matchAll info), matchOne := (if e = matchOne info then 0 else matchOne info)\<rparr>"

lemma pattern_match:
  assumes "matchOne info \<noteq> matchAll info" "matchOne info \<noteq> other \<or> matchOne info = 0" "0 \<notin> set P" "0 \<notin> set S"
  shows "patternCompare info other None P S = SQLITE_MATCH \<longleftrightarrow> pattern_matches info other (decode P) (decode S)"
  using outcomeD [OF pattern_outcome [OF assms(1,2,3,4)], of None] by (auto simp: SQLITE_MATCH_def)

lemma info_distinct:
  "info \<in> {globInfo, likeInfoNorm, likeInfoAlt} \<Longrightarrow>
   matchAll info \<noteq> 0 \<and> matchOne info \<noteq> 0 \<and> matchOne info \<noteq> matchAll info \<and> matchOne info \<noteq> matchSet info"
  by (auto simp: globInfo_def likeInfoNorm_def likeInfoAlt_def ascii_def)

text \<open>
  \<open>sqlite3_strlike\<close> with a wildcard as the escape character is not LIKE with this ESCAPE clause, which takes
  the wildcard away.
\<close>

lemma strlike_percent:
  "sqlite3_strlike (Some [0x25, 0x25]) (Some [0x61]) (ascii (CHR ''%'')) = 0"
  "likeFunc 10 likeInfoNorm (Some [0x25, 0x25]) (Some [0x61]) (Some (Some [0x25])) = Like_result False"
proof -
  have n: "sqlite3UpperToLower ! 37 = 37" "sqlite3UpperToLower ! 97 = 97"
    using tolower_code [of "CHR ''%''"] tolower_code [of "CHR ''a''"] by (simp_all add: lower_def del: tolower_code)
  show "sqlite3_strlike (Some [0x25, 0x25]) (Some [0x61]) (ascii (CHR ''%'')) = 0"
    by (simp add: sqlite3_strlike_def patternCompare.simps [of _ _ _ "[0x25, 0x25]"] skip_wild.simps [of _ "[0x25]"]
        likeInfoNorm_def ascii_def Utf8Read_def SQLITE_MATCH_def)
  show "likeFunc 10 likeInfoNorm (Some [0x25, 0x25]) (Some [0x61]) (Some (Some [0x25])) = Like_result False"
    by (simp add: likeFunc_def sqlite3Utf8CharLen_def charlen_loop.simps sqlite3Utf8Read_def patternCompare.simps
        likeInfoNorm_def ascii_def Utf8Read_def codes same_fold_def sqlite3Tolower_def chr8_def n)
qed

section \<open>Properties\<close>

text \<open>
  C9. LIKE and GLOB give exactly what the meaning of the pattern says, on texts without NUL: with an
  ESCAPE clause of one character this character is not a wildcard; a pattern that is too long and an
  ESCAPE text that is not one character are errors.
\<close>

theorem like_correct:
  assumes "pInfo \<in> {globInfo, likeInfoNorm, likeInfoAlt}" "0 \<notin> set a" "0 \<notin> set b" "\<forall>e. zEsc = Some (Some e) \<longrightarrow> 0 \<notin> set e"
  shows "likeFunc limit pInfo (Some b) (Some a) zEsc =
    (if limit < length b then Like_error ''LIKE or GLOB pattern too complex''
     else case zEsc of
       None \<Rightarrow> Like_result (pattern_matches pInfo (matchSet pInfo) (decode b) (decode a))
     | Some None \<Rightarrow> Like_null
     | Some (Some e) \<Rightarrow>
         (case decode e of
            [c] \<Rightarrow> Like_result (pattern_matches (escaped_info c pInfo) c (decode b) (decode a))
          | _ \<Rightarrow> Like_error ''ESCAPE expression must be a single character''))"
proof -
  note i = info_distinct [OF assms(1)]
  show ?thesis
  proof (cases zEsc)
    case None
    then show ?thesis using pattern_match [of pInfo "matchSet pInfo" b a] i assms(2,3) by (simp add: likeFunc_def)
  next
    case (Some z)
    show ?thesis
    proof (cases z)
      case None
      then show ?thesis using Some by (simp add: likeFunc_def)
    next
      case e: (Some e)
      then have e0: "0 \<notin> set e" using assms(4) Some by simp
      show ?thesis
      proof (cases "length (decode e) = 1")
        case True
        then obtain c where c: "decode e = [c]" by (auto simp: length_Suc_conv)
        then have r: "fst (sqlite3Utf8Read e) = c" using decode_read [of e] by (cases "e = []") (simp_all add: sqlite3Utf8Read_def)
        have "patternCompare (escaped_info c pInfo) c None b a = SQLITE_MATCH \<longleftrightarrow> pattern_matches (escaped_info c pInfo) c (decode b) (decode a)"
          using i assms(2,3) by (intro pattern_match) (auto simp: escaped_info_def)
        then show ?thesis using Some e True c r charlen_text [OF e0] by (simp add: likeFunc_def escaped_info_def)
      next
        case False
        then show ?thesis using Some e charlen_text [OF e0] by (auto simp: likeFunc_def split: list.split)
      qed
    qed
  qed
qed

theorem like_correct_witness:
  "likeFunc 10 likeInfoNorm (Some [0x25, 0x62]) (Some [0x61, 0x42]) None = Like_result True"
proof -
  have "same_char likeInfoNorm 0x62 0x42"
    using tolower_code [of "CHR ''B''"] tolower_code [of "CHR ''b''"]
    by (simp add: same_char_def same_fold_def likeInfoNorm_def sqlite3Tolower_def chr8_def lower_def del: tolower_code)
  then have "pattern_matches likeInfoNorm (matchSet likeInfoNorm) [0x25, 0x62] [0x61, 0x42]"
    by (simp add: pattern_matches_def likeInfoNorm_def ascii_def)
  then show ?thesis using like_correct [of likeInfoNorm "[0x61, 0x42]" "[0x25, 0x62]" None 10] by (simp add: decode_ascii)
qed



end
