(* ===== verification/WalFrame.thy ===== *)
theory WalFrame
  imports Varint
begin

text \<open>
  The write-ahead log (\<open>wal.c\<close>), first part: its state, the checksums, the frames of the log file and the
  header of the index.  The bytes of a frame, a page and the file are lists.
\<close>

section \<open>State\<close>

text \<open>
  \<open>WalIndexHdr\<close>; the salts are kept as the bytes they have in the file.  A page of the index has the page
  numbers of a run of frames and the slots of a hash table over them.
\<close>

record WalIndexHdr =
  iVersion :: u32
  iChange :: u32
  isInit :: u8
  bigEndCksum :: u8
  hszPage :: u16
  mxFrame :: u32
  nPage :: u32
  aFrameCksum :: "u32 \<times> u32"
  aSalt :: "u8 list"
  aCksum :: "u32 \<times> u32"

record index_page =
  aPgno :: "u32 list"
  aHash :: "nat list"

text \<open>
  \<open>struct Wal\<close>: the fields that the operations below use.  The two copies of the header and the checkpoint
  fields at the start of page 0 of the index are \<open>aHdr\<close>, \<open>nBackfill\<close>, \<open>nBackfillAttempted\<close> and \<open>aReadMark\<close>.
\<close>

record Wal =
  szPage :: u32
  readLock :: int
  exclusiveMode :: nat
  bShmUnreliable :: bool
  hdr :: WalIndexHdr
  minFrame :: u32
  iReCksum :: u32
  nCkpt :: u32
  apWiData :: "index_page option list"
  aHdr :: "WalIndexHdr \<times> WalIndexHdr"
  nBackfill :: u32
  nBackfillAttempted :: u32
  aReadMark :: "u32 list"
  writeLock :: bool
  ckptLock :: nat
  truncateOnCommit :: bool
  mxWalSize :: int
  syncHeader :: bool
  padToSectorBoundary :: bool
  iCallback :: u32

definition WAL_MAX_VERSION :: u32 where "WAL_MAX_VERSION = 3007000"
definition WALINDEX_MAX_VERSION :: u32 where "WALINDEX_MAX_VERSION = 3007000"
definition WAL_MAGIC :: u32 where "WAL_MAGIC = 0x377f0682"
definition WAL_FRAME_HDRSIZE :: nat where "WAL_FRAME_HDRSIZE = 24"
definition WAL_HDRSIZE :: nat where "WAL_HDRSIZE = 32"
definition READMARK_NOT_USED :: u32 where "READMARK_NOT_USED = 0xffffffff"
definition WAL_NREADER :: nat where "WAL_NREADER = 5"

text \<open>Big-endian words in lists of bytes.\<close>

definition get4 :: "u8 list \<Rightarrow> nat \<Rightarrow> u32" where "get4 z k = sqlite3Get4byte (\<lambda>i. z ! (k + i))"
definition put4 :: "u32 \<Rightarrow> u8 list" where "put4 v = map (sqlite3Put4byte (\<lambda>i. 0) v) [0..<4]"

section \<open>Checksums\<close>

definition BYTESWAP32 :: "u32 \<Rightarrow> u32" where
  "BYTESWAP32 x =
    push_bit 24 (x AND 0x000000FF) + push_bit 8 (x AND 0x0000FF00) + drop_bit 8 (x AND 0x00FF0000) + drop_bit 24 (x AND 0xFF000000)"

text \<open>The array of 32-bit words at \<open>a\<close>, loaded in the byte order of the machine.\<close>

definition word_at :: "u8 \<Rightarrow> u8 \<Rightarrow> u8 \<Rightarrow> u8 \<Rightarrow> u32" where
  "word_at a b c d = ((ucast a OR push_bit 8 (ucast b)) OR push_bit 16 (ucast c)) OR push_bit 24 (ucast d)"

fun words_of :: "u8 list \<Rightarrow> u32 list" where
  "words_of (a # b # c # d # z) = word_at a b c d # words_of z"
| "words_of _ = []"

text \<open>The three loops of \<open>walChecksumBytes\<close>.\<close>

fun cksum_swapped :: "u32 list \<Rightarrow> u32 \<times> u32 \<Rightarrow> u32 \<times> u32" where
  "cksum_swapped (x # y # aData) (s1, s2) =
    (let s1 = s1 + (BYTESWAP32 x + s2); s2 = s2 + (BYTESWAP32 y + s1) in cksum_swapped aData (s1, s2))"
| "cksum_swapped _ s = s"

function cksum_unrolled :: "u32 list \<Rightarrow> u32 \<Rightarrow> u32 \<Rightarrow> u32 \<times> u32" where
  "cksum_unrolled aData s1 s2 =
    (if length aData < 16 then (s1, s2)
     else
       let s1 = s1 + (aData ! 0 + s2); s2 = s2 + (aData ! 1 + s1);
           s1 = s1 + (aData ! 2 + s2); s2 = s2 + (aData ! 3 + s1);
           s1 = s1 + (aData ! 4 + s2); s2 = s2 + (aData ! 5 + s1);
           s1 = s1 + (aData ! 6 + s2); s2 = s2 + (aData ! 7 + s1);
           s1 = s1 + (aData ! 8 + s2); s2 = s2 + (aData ! 9 + s1);
           s1 = s1 + (aData ! 10 + s2); s2 = s2 + (aData ! 11 + s1);
           s1 = s1 + (aData ! 12 + s2); s2 = s2 + (aData ! 13 + s1);
           s1 = s1 + (aData ! 14 + s2); s2 = s2 + (aData ! 15 + s1)
       in cksum_unrolled (drop 16 aData) s1 s2)"
  by auto
termination by (relation "measure (\<lambda>(a, s1, s2). length a)") auto

declare cksum_unrolled.simps [simp del]

fun cksum_plain :: "u32 list \<Rightarrow> u32 \<times> u32 \<Rightarrow> u32 \<times> u32" where
  "cksum_plain (x # y # aData) (s1, s2) = (let s1 = s1 + (x + s2); s2 = s2 + (y + s1) in cksum_plain aData (s1, s2))"
| "cksum_plain _ s = s"

definition walChecksumBytes :: "bool \<Rightarrow> u8 list \<Rightarrow> (u32 \<times> u32) option \<Rightarrow> u32 \<times> u32" where
  "walChecksumBytes nativeCksum a aIn =
    (let s = (case aIn of None \<Rightarrow> (0, 0) | Some s \<Rightarrow> s)
     in if \<not> nativeCksum then cksum_swapped (words_of a) s
        else if length a mod 64 = 0 then cksum_unrolled (words_of a) (fst s) (snd s)
        else cksum_plain (words_of a) s)"

section \<open>The header of the index\<close>

text \<open>The bytes of the structure before its checksum: words of the machine.\<close>

definition le4 :: "u32 \<Rightarrow> u8 list" where
  "le4 v = [ucast v, ucast (drop_bit 8 v), ucast (drop_bit 16 v), ucast (drop_bit 24 v)]"

definition hdr_bytes :: "WalIndexHdr \<Rightarrow> u8 list" where
  "hdr_bytes h =
    le4 (iVersion h) @ le4 0 @ le4 (iChange h) @ [isInit h, bigEndCksum h, ucast (hszPage h), ucast (drop_bit 8 (hszPage h))] @
    le4 (mxFrame h) @ le4 (nPage h) @ le4 (fst (aFrameCksum h)) @ le4 (snd (aFrameCksum h)) @ aSalt h"

definition walIndexWriteHdr :: "Wal \<Rightarrow> Wal" where
  "walIndexWriteHdr pWal =
    (let h = (hdr pWal)\<lparr>isInit := 1, iVersion := WALINDEX_MAX_VERSION\<rparr>;
         h = h\<lparr>aCksum := walChecksumBytes True (hdr_bytes h) None\<rparr>
     in pWal\<lparr>hdr := h, aHdr := (h, h)\<rparr>)"

text \<open>The result is the return value, \<open>*pChanged\<close> and the new state.\<close>

definition walIndexTryHdr :: "Wal \<Rightarrow> bool \<Rightarrow> nat \<times> bool \<times> Wal" where
  "walIndexTryHdr pWal pChanged =
    (let h1 = fst (aHdr pWal); h2 = snd (aHdr pWal)
     in if h1 \<noteq> h2 then (1, pChanged, pWal)
        else if isInit h1 = 0 then (1, pChanged, pWal)
        else if walChecksumBytes True (hdr_bytes h1) None \<noteq> aCksum h1 then (1, pChanged, pWal)
        else if hdr pWal \<noteq> h1 then
          (0, True, pWal\<lparr>hdr := h1, szPage := ucast (hszPage h1 AND 0xfe00) + push_bit 16 (ucast (hszPage h1 AND 0x0001))\<rparr>)
        else (0, pChanged, pWal))"

section \<open>Frames\<close>

text \<open>The 24 bytes of a frame header; the checksum of the log continues in \<open>hdr\<close>.\<close>

definition walEncodeFrame :: "Wal \<Rightarrow> u32 \<Rightarrow> u32 \<Rightarrow> u8 list \<Rightarrow> u8 list \<times> Wal" where
  "walEncodeFrame pWal iPage nTruncate aData =
    (let aFrame = put4 iPage @ put4 nTruncate
     in if iReCksum pWal = 0 then
          let nativeCksum = (bigEndCksum (hdr pWal) = 0);
              aCk = walChecksumBytes nativeCksum aFrame (Some (aFrameCksum (hdr pWal)));
              aCk = walChecksumBytes nativeCksum aData (Some aCk)
          in (aFrame @ aSalt (hdr pWal) @ put4 (fst aCk) @ put4 (snd aCk), pWal\<lparr>hdr := (hdr pWal)\<lparr>aFrameCksum := aCk\<rparr>\<rparr>)
        else (aFrame @ replicate 16 0, pWal))"

definition walDecodeFrame :: "Wal \<Rightarrow> u8 list \<Rightarrow> u8 list \<Rightarrow> (u32 \<times> u32) option \<times> Wal" where
  "walDecodeFrame pWal aData aFrame =
    (if aSalt (hdr pWal) \<noteq> take 8 (drop 8 aFrame) then (None, pWal)
     else
       let pgno = get4 aFrame 0
       in if pgno = 0 then (None, pWal)
          else
            let nativeCksum = (bigEndCksum (hdr pWal) = 0);
                aCk = walChecksumBytes nativeCksum (take 8 aFrame) (Some (aFrameCksum (hdr pWal)));
                aCk = walChecksumBytes nativeCksum aData (Some aCk);
                pWal = pWal\<lparr>hdr := (hdr pWal)\<lparr>aFrameCksum := aCk\<rparr>\<rparr>
            in if fst aCk \<noteq> get4 aFrame 16 \<or> snd aCk \<noteq> get4 aFrame 20 then (None, pWal)
               else (Some (pgno, get4 aFrame 4), pWal))"

section \<open>Facts\<close>

lemma words_of_length: "length (words_of z) = length z div 4"
  by (induction z rule: words_of.induct) auto

lemma cksum_plain_drop: "2 \<le> length ws \<Longrightarrow> cksum_plain ws (s1, s2) =
    (let s1 = s1 + (ws ! 0 + s2); s2 = s2 + (ws ! 1 + s1) in cksum_plain (drop 2 ws) (s1, s2))"
  by (cases ws; cases "tl ws") (simp_all add: Let_def)

lemma cksum_unrolled_plain: "length ws = 16 * n \<Longrightarrow> cksum_unrolled ws s1 s2 = cksum_plain ws (s1, s2)"
proof (induction n arbitrary: ws s1 s2)
  case (Suc n)
  have "length (drop 16 ws) = 16 * n" using Suc.prems by simp
  note IH = Suc.IH [OF this]
  have l: "16 \<le> length ws" using Suc.prems by simp
  then show ?case
    by (simp add: cksum_unrolled.simps [of ws] IH Let_def cksum_plain_drop)
qed (simp add: cksum_unrolled.simps)

lemma words_of_append: "length a mod 4 = 0 \<Longrightarrow> words_of (a @ b) = words_of a @ words_of b"
  by (induction a rule: words_of.induct) auto

text \<open>The loops agree: the checksum depends on the words only.\<close>

lemma checksum_native: "walChecksumBytes True a aIn = cksum_plain (words_of a) (case aIn of None \<Rightarrow> (0, 0) | Some s \<Rightarrow> s)"
proof -
  have "length a mod 64 = 0 \<Longrightarrow> length (words_of a) = 16 * (length a div 64)" by (auto simp: words_of_length mod_eq_0_iff_dvd elim!: dvdE)
  then show ?thesis by (cases aIn) (auto simp: walChecksumBytes_def Let_def cksum_unrolled_plain [of _ "length a div 64"])
qed

lemma get4_put4: "k = length xs \<Longrightarrow> get4 (xs @ put4 v @ ys) k = v"
proof -
  assume k: "k = length xs"
  have "sqlite3Get4byte (\<lambda>i. (xs @ put4 v @ ys) ! (k + i)) = sqlite3Get4byte (sqlite3Put4byte (\<lambda>i. 0) v)"
    by (simp add: sqlite3Get4byte_def put4_def k nth_append numeral_2_eq_2)
  then show ?thesis using get4byte_put4byte [of "\<lambda>i. 0" v 0] by (simp add: get4_def)
qed

lemma put4_length [simp]: "length (put4 v) = 4" by (simp add: put4_def)

lemma frame_length: "length (aSalt (hdr pWal)) = 8 \<Longrightarrow> length (fst (walEncodeFrame pWal iPage nTruncate aData)) = WAL_FRAME_HDRSIZE"
  by (simp add: walEncodeFrame_def WAL_FRAME_HDRSIZE_def Let_def)

lemma decode_encode:
  assumes "iReCksum pWal = 0" "length (aSalt (hdr pWal)) = 8" "iPage \<noteq> 0"
  shows "walDecodeFrame pWal aData (fst (walEncodeFrame pWal iPage nTruncate aData)) =
    (Some (iPage, nTruncate), snd (walEncodeFrame pWal iPage nTruncate aData))"
proof -
  define ck where "ck = walChecksumBytes (bigEndCksum (hdr pWal) = 0) aData
    (Some (walChecksumBytes (bigEndCksum (hdr pWal) = 0) (put4 iPage @ put4 nTruncate) (Some (aFrameCksum (hdr pWal)))))"
  define f where "f = put4 iPage @ put4 nTruncate @ aSalt (hdr pWal) @ put4 (fst ck) @ put4 (snd ck)"
  have e: "walEncodeFrame pWal iPage nTruncate aData = (f, pWal\<lparr>hdr := (hdr pWal)\<lparr>aFrameCksum := ck\<rparr>\<rparr>)"
    using assms(1) by (simp add: walEncodeFrame_def ck_def f_def Let_def)
  have "take 8 (drop 8 f) = aSalt (hdr pWal)" "take 8 f = put4 iPage @ put4 nTruncate" using assms(2) by (simp_all add: f_def)
  moreover have "get4 f 0 = iPage" "get4 f 4 = nTruncate" "get4 f 16 = fst ck" "get4 f 20 = snd ck"
    using get4_put4 [of 0 "[]" iPage] get4_put4 [of 4 "put4 iPage" nTruncate]
      get4_put4 [of 16 "put4 iPage @ put4 nTruncate @ aSalt (hdr pWal)" "fst ck"]
      get4_put4 [of 20 "put4 iPage @ put4 nTruncate @ aSalt (hdr pWal) @ put4 (fst ck)" "snd ck" "[]"] assms(2)
    by (simp_all add: f_def)
  ultimately show ?thesis using assms(3) by (simp add: e walDecodeFrame_def ck_def [symmetric] Let_def)
qed

text \<open>Another connection reads the header that was written.\<close>

lemma try_after_write:
  assumes "w = walIndexWriteHdr v"
  shows "fst (walIndexTryHdr (w\<lparr>hdr := h\<rparr>) c) = 0" "hdr (snd (snd (walIndexTryHdr (w\<lparr>hdr := h\<rparr>) c))) = hdr w"
proof -
  have b: "hdr_bytes (x\<lparr>aCksum := y\<rparr>) = hdr_bytes x" for x y by (simp add: hdr_bytes_def)
  show "fst (walIndexTryHdr (w\<lparr>hdr := h\<rparr>) c) = 0" "hdr (snd (snd (walIndexTryHdr (w\<lparr>hdr := h\<rparr>) c))) = hdr w"
    by (simp_all add: assms walIndexTryHdr_def walIndexWriteHdr_def Let_def b)
qed

end
