(* ===== verification/WalIndex.thy ===== *)
theory WalIndex
  imports WalFrame
begin

text \<open>
  The write-ahead log, second part: the index, which finds the last frame of a page.  Each of its pages has a
  hash table over a run of frames with open addressing.  The state may be left with entries behind the
  last valid frame; they are removed when they are in the way.
\<close>

section \<open>The model\<close>

definition HASHTABLE_NPAGE :: nat where "HASHTABLE_NPAGE = 4096"
definition HASHTABLE_HASH_1 :: u32 where "HASHTABLE_HASH_1 = 383"
definition HASHTABLE_NSLOT :: nat where "HASHTABLE_NSLOT = 8192"
definition WALINDEX_HDR_SIZE :: nat where "WALINDEX_HDR_SIZE = 2 * 48 + 40"
definition HASHTABLE_NPAGE_ONE :: nat where "HASHTABLE_NPAGE_ONE = HASHTABLE_NPAGE - WALINDEX_HDR_SIZE div 4"
definition WAL_HEAPMEMORY_MODE :: nat where "WAL_HEAPMEMORY_MODE = 2"
definition SQLITE_ERROR :: nat where "SQLITE_ERROR = 1"
definition SQLITE_READONLY :: nat where "SQLITE_READONLY = 8"
definition SQLITE_CORRUPT :: nat where "SQLITE_CORRUPT = 11"

text \<open>
  What the allocator and the VFS answer while an operation runs: whether the array of pages can grow, and the
  result of mapping (or allocating) a page of the index.
\<close>

record wal_env =
  grow_ok :: bool
  shm_map :: "nat \<Rightarrow> nat \<times> index_page option"

definition walIndexPage :: "wal_env \<Rightarrow> Wal \<Rightarrow> nat \<Rightarrow> nat \<times> Wal" where
  "walIndexPage env pWal iPage =
    (if length (apWiData pWal) \<le> iPage \<or> apWiData pWal ! iPage = None then
       (if length (apWiData pWal) \<le> iPage \<and> \<not> grow_ok env then (SQLITE_NOMEM, pWal)
        else
          let apNew = apWiData pWal @ replicate (iPage + 1 - length (apWiData pWal)) None;
              (rc, pg) = shm_map env iPage;
              rc = (if exclusiveMode pWal = WAL_HEAPMEMORY_MODE then (if pg = None then SQLITE_NOMEM else SQLITE_OK)
                    else if rc = SQLITE_READONLY then SQLITE_OK else rc)
          in (rc, pWal\<lparr>apWiData := apNew[iPage := pg]\<rparr>))
     else (SQLITE_OK, pWal))"

definition mapped :: "Wal \<Rightarrow> nat \<Rightarrow> bool" where
  "mapped pWal i \<longleftrightarrow> i < length (apWiData pWal) \<and> apWiData pWal ! i \<noteq> None"

definition page_at :: "Wal \<Rightarrow> nat \<Rightarrow> index_page" where "page_at pWal i = the (apWiData pWal ! i)"

definition set_page :: "Wal \<Rightarrow> nat \<Rightarrow> index_page \<Rightarrow> Wal" where
  "set_page pWal i pg = pWal\<lparr>apWiData := (apWiData pWal)[i := Some pg]\<rparr>"

text \<open>\<open>iZero\<close>: one less than the number of the first frame of the table.\<close>

definition iZero :: "nat \<Rightarrow> nat" where
  "iZero iHash = (if iHash = 0 then 0 else HASHTABLE_NPAGE_ONE + (iHash - 1) * HASHTABLE_NPAGE)"

text \<open>The result code; with 0 the table is the page \<open>iHash\<close> of the new state.\<close>

definition walHashGet :: "wal_env \<Rightarrow> Wal \<Rightarrow> nat \<Rightarrow> nat \<times> Wal" where
  "walHashGet env pWal iHash =
    (case walIndexPage env pWal iHash of (rc, pWal) \<Rightarrow>
      (if \<not> mapped pWal iHash \<and> rc = SQLITE_OK then SQLITE_ERROR else rc, pWal))"

definition walHash :: "u32 \<Rightarrow> nat" where
  "walHash iPage = unat ((iPage * HASHTABLE_HASH_1) AND of_nat (HASHTABLE_NSLOT - 1))"

definition walNextHash :: "nat \<Rightarrow> nat" where
  "walNextHash iPriorHash = (iPriorHash + 1) mod HASHTABLE_NSLOT"

definition walFramePage :: "u32 \<Rightarrow> nat" where
  "walFramePage iFrame =
    unat ((iFrame + of_nat HASHTABLE_NPAGE - of_nat HASHTABLE_NPAGE_ONE - 1) div of_nat HASHTABLE_NPAGE)"

definition walFramePgno :: "Wal \<Rightarrow> u32 \<Rightarrow> u32" where
  "walFramePgno pWal iFrame =
    (let iHash = walFramePage iFrame
     in if iHash = 0 then aPgno (page_at pWal 0) ! unat (iFrame - 1)
        else aPgno (page_at pWal iHash) ! unat ((iFrame - 1 - of_nat HASHTABLE_NPAGE_ONE) mod of_nat HASHTABLE_NPAGE))"

definition walCleanupHash :: "wal_env \<Rightarrow> Wal \<Rightarrow> Wal" where
  "walCleanupHash env pWal =
    (if mxFrame (hdr pWal) = 0 then pWal
     else
       let iHash = walFramePage (mxFrame (hdr pWal))
       in case walHashGet env pWal iHash of (rc, pWal) \<Rightarrow>
          if rc \<noteq> SQLITE_OK then pWal
          else
            let iLimit = unat (mxFrame (hdr pWal) - of_nat (iZero iHash)); pg = page_at pWal iHash
            in set_page pWal iHash
                 \<lparr>aPgno = take iLimit (aPgno pg) @ replicate (length (aPgno pg) - iLimit) 0,
                  aHash = map (\<lambda>v. if iLimit < v then 0 else v) (aHash pg)\<rparr>)"

text \<open>The search for a free slot; \<open>None\<close> is \<open>nCollide\<close> running out.\<close>

fun append_probe :: "nat list \<Rightarrow> nat \<Rightarrow> nat \<Rightarrow> nat option" where
  "append_probe h iKey nCollide =
    (if h ! iKey = 0 then Some iKey
     else (case nCollide of 0 \<Rightarrow> None | Suc n \<Rightarrow> append_probe h (walNextHash iKey) n))"

definition walIndexAppend :: "wal_env \<Rightarrow> Wal \<Rightarrow> u32 \<Rightarrow> u32 \<Rightarrow> nat \<times> Wal" where
  "walIndexAppend env pWal iFrame iPage =
    (let iHash = walFramePage iFrame
     in case walHashGet env pWal iHash of (rc, pWal) \<Rightarrow>
        if rc \<noteq> SQLITE_OK then (rc, pWal)
        else
          let idx = unat (iFrame - of_nat (iZero iHash)); pg = page_at pWal iHash;
              pWal = (if idx = 1
                      then set_page pWal iHash \<lparr>aPgno = replicate (length (aPgno pg)) 0, aHash = replicate (length (aHash pg)) 0\<rparr>
                      else pWal);
              pWal = (if aPgno (page_at pWal iHash) ! (idx - 1) \<noteq> 0 then walCleanupHash env pWal else pWal);
              pg = page_at pWal iHash
          in case append_probe (aHash pg) (walHash iPage) idx of
               None \<Rightarrow> (SQLITE_CORRUPT, pWal)
             | Some iKey \<Rightarrow>
                 (SQLITE_OK, set_page pWal iHash
                    \<lparr>aPgno = (aPgno pg)[idx - 1 := iPage], aHash = (aHash pg)[iKey := idx mod 2 ^ 16]\<rparr>))"

text \<open>One table of the search: the loop over the slots from \<open>iKey\<close> on; \<open>None\<close> is \<open>nCollide\<close> running out.\<close>

fun find_probe :: "index_page \<Rightarrow> u32 \<Rightarrow> u32 \<Rightarrow> nat \<Rightarrow> u32 \<Rightarrow> nat \<Rightarrow> nat \<Rightarrow> u32 \<Rightarrow> u32 option" where
  "find_probe pg iLast minF zero pgno iKey nCollide iRead =
    (let iH = aHash pg ! iKey
     in if iH = 0 then Some iRead
        else
          let iFrame = of_nat iH + of_nat zero;
              iRead = (if iFrame \<le> iLast \<and> minF \<le> iFrame \<and> aPgno pg ! (iH - 1) = pgno then iFrame else iRead)
          in case nCollide of 0 \<Rightarrow> None
             | Suc n \<Rightarrow> find_probe pg iLast minF zero pgno (walNextHash iKey) n iRead)"

text \<open>The loop over the tables, from \<open>iHash\<close> down to \<open>iMinHash\<close>: the result code, \<open>*piRead\<close> and the state.\<close>

fun find_tables :: "wal_env \<Rightarrow> Wal \<Rightarrow> u32 \<Rightarrow> nat \<Rightarrow> nat \<Rightarrow> nat \<times> u32 \<times> Wal" where
  "find_tables env pWal pgno iHash iMinHash =
    (if iHash < iMinHash then (SQLITE_OK, 0, pWal)
     else
       case walHashGet env pWal iHash of (rc, pWal) \<Rightarrow>
         if rc \<noteq> SQLITE_OK then (rc, 0, pWal)
         else
           (case find_probe (page_at pWal iHash) (mxFrame (hdr pWal)) (minFrame pWal) (iZero iHash) pgno (walHash pgno) HASHTABLE_NSLOT 0 of
              None \<Rightarrow> (SQLITE_CORRUPT, 0, pWal)
            | Some iRead \<Rightarrow>
                if iRead \<noteq> 0 then (SQLITE_OK, iRead, pWal)
                else (case iHash of 0 \<Rightarrow> (SQLITE_OK, 0, pWal) | Suc i \<Rightarrow> find_tables env pWal pgno i iMinHash)))"

definition walFindFrame :: "wal_env \<Rightarrow> Wal \<Rightarrow> u32 \<Rightarrow> nat \<times> u32 \<times> Wal" where
  "walFindFrame env pWal pgno =
    (let iLast = mxFrame (hdr pWal)
     in if iLast = 0 \<or> readLock pWal = 0 \<and> \<not> bShmUnreliable pWal then (SQLITE_OK, 0, pWal)
        else find_tables env pWal pgno (walFramePage iLast) (walFramePage (minFrame pWal)))"

declare append_probe.simps [simp del] find_probe.simps [simp del] find_tables.simps [simp del]

section \<open>Writers\<close>

text \<open>
  The end of \<open>walFrames\<close>: the frames of the pages are entered into the index, \<open>mxFrame\<close> moves behind them
  and a commit publishes the header.
\<close>

fun append_frames :: "wal_env \<Rightarrow> Wal \<Rightarrow> u32 \<Rightarrow> u32 list \<Rightarrow> nat \<times> u32 \<times> Wal" where
  "append_frames env pWal iFrame [] = (SQLITE_OK, iFrame, pWal)"
| "append_frames env pWal iFrame (p # ps) =
    (case walIndexAppend env pWal (iFrame + 1) p of (rc, pWal) \<Rightarrow>
      if rc \<noteq> SQLITE_OK then (rc, iFrame + 1, pWal) else append_frames env pWal (iFrame + 1) ps)"

definition walFrames_index :: "wal_env \<Rightarrow> Wal \<Rightarrow> u32 list \<Rightarrow> u32 \<Rightarrow> bool \<Rightarrow> nat \<times> Wal" where
  "walFrames_index env pWal pages nTruncate isCommit =
    (case append_frames env pWal (mxFrame (hdr pWal)) pages of (rc, iFrame, pWal) \<Rightarrow>
      if rc \<noteq> SQLITE_OK then (rc, pWal)
      else
        let h = (hdr pWal)\<lparr>hszPage := ucast ((szPage pWal AND 0xff00) OR drop_bit 16 (szPage pWal)), mxFrame := iFrame\<rparr>;
            h = (if isCommit then h\<lparr>iChange := iChange h + 1, nPage := nTruncate\<rparr> else h);
            pWal = pWal\<lparr>hdr := h\<rparr>
        in (SQLITE_OK, if isCommit then walIndexWriteHdr pWal else pWal))"

text \<open>
  \<open>sqlite3WalUndo\<close> with the callback \<open>xUndo\<close> as its result code for a page number; the pages it was
  called for are part of the result.
\<close>

fun undo_loop :: "(u32 \<Rightarrow> nat) \<Rightarrow> Wal \<Rightarrow> u32 list \<Rightarrow> nat \<times> u32 list" where
  "undo_loop xUndo pWal [] = (SQLITE_OK, [])"
| "undo_loop xUndo pWal (f # fs) =
    (let p = walFramePgno pWal f; rc = xUndo p
     in if rc \<noteq> SQLITE_OK then (rc, [p]) else (case undo_loop xUndo pWal fs of (rc, ps) \<Rightarrow> (rc, p # ps)))"

definition sqlite3WalUndo :: "wal_env \<Rightarrow> Wal \<Rightarrow> (u32 \<Rightarrow> nat) \<Rightarrow> nat \<times> u32 list \<times> Wal" where
  "sqlite3WalUndo env pWal xUndo =
    (if \<not> writeLock pWal then (SQLITE_OK, [], pWal)
     else
       let iMax = mxFrame (hdr pWal); pWal = pWal\<lparr>hdr := fst (aHdr pWal)\<rparr>;
           (rc, ps) = undo_loop xUndo pWal (map of_nat [unat (mxFrame (hdr pWal)) + 1..<unat iMax + 1]);
           pWal = (if iMax \<noteq> mxFrame (hdr pWal) then walCleanupHash env pWal else pWal)
       in (rc, ps, pWal\<lparr>iReCksum := 0\<rparr>))"

text \<open>The savepoint data: the last frame, its checksum and the checkpoint counter.\<close>

record wal_savepoint =
  sv_mxFrame :: u32
  sv_cksum :: "u32 \<times> u32"
  sv_nCkpt :: u32

definition sqlite3WalSavepoint :: "Wal \<Rightarrow> wal_savepoint" where
  "sqlite3WalSavepoint pWal = \<lparr>sv_mxFrame = mxFrame (hdr pWal), sv_cksum = aFrameCksum (hdr pWal), sv_nCkpt = nCkpt pWal\<rparr>"

definition sqlite3WalSavepointUndo :: "wal_env \<Rightarrow> Wal \<Rightarrow> wal_savepoint \<Rightarrow> wal_savepoint \<times> Wal" where
  "sqlite3WalSavepointUndo env pWal aWalData =
    (let aWalData = (if sv_nCkpt aWalData \<noteq> nCkpt pWal then aWalData\<lparr>sv_mxFrame := 0, sv_nCkpt := nCkpt pWal\<rparr> else aWalData)
     in if sv_mxFrame aWalData < mxFrame (hdr pWal) then
          let pWal = pWal\<lparr>hdr := (hdr pWal)\<lparr>mxFrame := sv_mxFrame aWalData, aFrameCksum := sv_cksum aWalData\<rparr>\<rparr>;
              pWal = walCleanupHash env pWal
          in (aWalData, if mxFrame (hdr pWal) < iReCksum pWal then pWal\<lparr>iReCksum := 0\<rparr> else pWal)
        else (aWalData, pWal))"

definition walRestartHdr :: "Wal \<Rightarrow> u32 \<Rightarrow> Wal" where
  "walRestartHdr pWal salt1 =
    (let h = (hdr pWal)\<lparr>mxFrame := 0, aSalt := put4 (1 + get4 (aSalt (hdr pWal)) 0) @ le4 salt1\<rparr>;
         pWal = walIndexWriteHdr (pWal\<lparr>nCkpt := nCkpt pWal + 1, hdr := h\<rparr>)
     in pWal\<lparr>nBackfill := 0, nBackfillAttempted := 0,
             aReadMark := (aReadMark pWal ! 0) # 0 # replicate (WAL_NREADER - 2) READMARK_NOT_USED\<rparr>)"

end
