(* ===== verification/WalTable.thy ===== *)
theory WalTable
  imports WalIndex
begin

text \<open>
  The index of the write-ahead log, proofs: the hash table of one page, the invariant of all pages for a list of
  frames, and what rolling back (\<open>walCleanupHash\<close>) and entering a frame (\<open>walIndexAppend\<close>) do to it.
\<close>

section \<open>The hash table\<close>

definition probe_pos :: "nat \<Rightarrow> nat \<Rightarrow> nat" where "probe_pos h d = (h + d) mod HASHTABLE_NSLOT"

lemma NSLOT: "HASHTABLE_NSLOT = 8192" by (simp add: HASHTABLE_NSLOT_def)

lemma walHash_less: "walHash p < HASHTABLE_NSLOT"
proof -
  have "walHash p = unat (p * HASHTABLE_HASH_1) mod 8192"
  proof -
    have "(p * HASHTABLE_HASH_1) AND of_nat (HASHTABLE_NSLOT - 1) = take_bit 13 (p * HASHTABLE_HASH_1)"
      by (simp add: HASHTABLE_NSLOT_def take_bit_eq_mask mask_eq_exp_minus_1)
    then have "walHash p = unat (take_bit 13 (p * HASHTABLE_HASH_1))" by (simp only: walHash_def)
    also have "\<dots> = take_bit 13 (unat (p * HASHTABLE_HASH_1))" by (rule unsigned_take_bit_eq)
    finally show ?thesis by (simp add: take_bit_eq_mod)
  qed
  then show ?thesis by (simp add: NSLOT)
qed

lemma next_pos [simp]: "walNextHash (probe_pos h d) = probe_pos h (Suc d)"
  by (simp add: walNextHash_def probe_pos_def mod_simps)

lemma pos_0 [simp]: "probe_pos (walHash p) 0 = walHash p"
  using walHash_less [of p] by (simp add: probe_pos_def)

lemma pos_less [simp]: "probe_pos h d < HASHTABLE_NSLOT" by (simp add: probe_pos_def NSLOT)

lemma pos_inj: "d < HASHTABLE_NSLOT \<Longrightarrow> e < HASHTABLE_NSLOT \<Longrightarrow> probe_pos h d = probe_pos h e \<longleftrightarrow> d = e"
proof -
  assume "d < HASHTABLE_NSLOT" "e < HASHTABLE_NSLOT"
  moreover have "(h + d) mod 8192 = (h + e) mod 8192 \<Longrightarrow> d mod 8192 = e mod (8192 :: nat)"
    by (simp add: nat_mod_eq_iff)
  ultimately show ?thesis by (auto simp: probe_pos_def NSLOT)
qed

lemma pos_onto: "s < HASHTABLE_NSLOT \<Longrightarrow> \<exists>d < HASHTABLE_NSLOT. probe_pos h d = s"
proof -
  assume s: "s < HASHTABLE_NSLOT"
  have "inj_on (probe_pos h) {..<HASHTABLE_NSLOT}" by (rule inj_onI) (simp add: pos_inj)
  then have "probe_pos h ` {..<HASHTABLE_NSLOT} = {..<HASHTABLE_NSLOT}"
    by (intro endo_inj_surj) auto
  then have "s \<in> probe_pos h ` {..<HASHTABLE_NSLOT}" using s by simp
  then show ?thesis by auto
qed

lemma unat_u32: "n < 2 ^ 32 \<Longrightarrow> unat (of_nat n :: u32) = n"
  by (simp add: unsigned_of_nat take_bit_nat_eq_self)

text \<open>
  The table \<open>h\<close> over the pages \<open>ps\<close>: entry \<open>i + 1\<close> stands for \<open>ps ! i\<close>; it is found by probing, and
  behind smaller entries only.
\<close>

definition reached :: "nat list \<Rightarrow> u32 \<Rightarrow> nat \<Rightarrow> nat \<Rightarrow> bool" where
  "reached h p i d \<longleftrightarrow> d < HASHTABLE_NSLOT \<and> h ! probe_pos (walHash p) d = i + 1 \<and>
    (\<forall>e<d. h ! probe_pos (walHash p) e \<noteq> 0 \<and> h ! probe_pos (walHash p) e \<le> i)"

definition slots_ok :: "nat list \<Rightarrow> u32 list \<Rightarrow> bool" where
  "slots_ok h ps \<longleftrightarrow> length h = HASHTABLE_NSLOT \<and> (\<forall>s < HASHTABLE_NSLOT. h ! s \<le> length ps) \<and>
    (\<forall>s < HASHTABLE_NSLOT. \<forall>t < HASHTABLE_NSLOT. h ! s = h ! t \<longrightarrow> h ! s \<noteq> 0 \<longrightarrow> s = t) \<and>
    (\<forall>i < length ps. \<exists>d. reached h (ps ! i) i d)"

lemma slots_empty: "slots_ok (replicate HASHTABLE_NSLOT 0) []"
  by (simp add: slots_ok_def)

lemma slots_take:
  assumes "slots_ok h ps" "m \<le> length ps"
  shows "slots_ok (map (\<lambda>v. if m < v then 0 else v) h) (take m ps)"
proof -
  have l: "length h = HASHTABLE_NSLOT" using assms by (simp add: slots_ok_def)
  have "\<exists>d. reached (map (\<lambda>v. if m < v then 0 else v) h) (ps ! i) i d" if i: "i < m" for i
  proof -
    have "\<exists>d. reached h (ps ! i) i d" using assms i by (simp add: slots_ok_def)
    then obtain d where "reached h (ps ! i) i d" ..
    then have "reached (map (\<lambda>v. if m < v then 0 else v) h) (ps ! i) i d"
      using i l by (fastforce simp: reached_def)
    then show ?thesis by blast
  qed
  then show ?thesis using assms l by (auto simp: slots_ok_def)
qed

text \<open>A run of occupied slots is not longer than the list.\<close>

lemma run_length:
  assumes "slots_ok h ps" "d \<le> HASHTABLE_NSLOT" "\<forall>e<d. h ! probe_pos k e \<noteq> 0"
  shows "d \<le> length ps"
proof -
  have "inj_on (\<lambda>e. h ! probe_pos k e) {..<d}"
  proof (rule inj_onI)
    fix e e' assume "e \<in> {..<d}" "e' \<in> {..<d}" "h ! probe_pos k e = h ! probe_pos k e'"
    then show "e = e'" using assms pos_less pos_inj by (metis lessThan_iff order_less_le_trans slots_ok_def)
  qed
  moreover have "(\<lambda>e. h ! probe_pos k e) ` {..<d} \<subseteq> {1..length ps}"
    using assms by (auto simp: slots_ok_def)
  ultimately have "card {..<d} \<le> card {1..length ps}" by (metis card_image card_mono finite_atLeastAtMost)
  then show ?thesis by simp
qed

lemma first_free:
  assumes "slots_ok h ps" "length ps < HASHTABLE_NSLOT"
  shows "\<exists>d. d \<le> length ps \<and> h ! probe_pos k d = 0 \<and> (\<forall>e<d. h ! probe_pos k e \<noteq> 0)"
proof -
  have "\<exists>d \<le> length ps. h ! probe_pos k d = 0"
  proof (rule ccontr)
    assume "\<not> ?thesis"
    then have "\<forall>e < length ps + 1. h ! probe_pos k e \<noteq> 0" by (simp add: less_Suc_eq_le)
    with run_length [OF assms(1), of "length ps + 1" k] assms(2) show False by simp
  qed
  then obtain d where d: "d \<le> length ps" "h ! probe_pos k d = 0" by blast
  define m where "m = (LEAST d. h ! probe_pos k d = 0)"
  have "h ! probe_pos k m = 0" unfolding m_def by (rule LeastI, rule d(2))
  moreover have "m \<le> d" unfolding m_def by (rule Least_le, rule d(2))
  moreover have "\<forall>e<m. h ! probe_pos k e \<noteq> 0" unfolding m_def using not_less_Least by blast
  ultimately show ?thesis using d(1) by (metis le_trans)
qed

lemma append_probe_free:
  "h ! probe_pos k d = 0 \<Longrightarrow> \<forall>e. j \<le> e \<and> e < d \<longrightarrow> h ! probe_pos k e \<noteq> 0 \<Longrightarrow> j \<le> d \<Longrightarrow> d - j \<le> n \<Longrightarrow>
   append_probe h (probe_pos k j) n = Some (probe_pos k d)"
proof (induction n arbitrary: j)
  case 0
  then show ?case by (simp add: append_probe.simps)
next
  case (Suc n)
  show ?case
  proof (cases "j = d")
    case False
    then have "append_probe h (probe_pos k (Suc j)) n = Some (probe_pos k d)" using Suc.prems by (intro Suc.IH) auto
    moreover have "h ! probe_pos k j \<noteq> 0" using Suc.prems False by simp
    ultimately show ?thesis by (simp add: append_probe.simps [of h "probe_pos k j"])
  qed (use Suc.prems in \<open>simp add: append_probe.simps\<close>)
qed

lemma slots_insert:
  assumes ok: "slots_ok h ps" and n: "length ps < HASHTABLE_NSLOT" "length ps \<le> n"
  shows "\<exists>k. append_probe h (walHash p) n = Some k \<and> slots_ok (h[k := length ps + 1]) (ps @ [p])"
proof -
  obtain d where d: "d \<le> length ps" "h ! probe_pos (walHash p) d = 0" "\<forall>e<d. h ! probe_pos (walHash p) e \<noteq> 0"
    using first_free [OF ok n(1)] by blast
  define k where "k = probe_pos (walHash p) d"
  have a: "append_probe h (walHash p) n = Some k"
    using append_probe_free [of h "walHash p" d 0 n] d n(2) by (simp add: k_def)
  have l: "length h = HASHTABLE_NSLOT" "k < HASHTABLE_NSLOT" "h ! k = 0" using ok d by (simp_all add: slots_ok_def k_def)
  have le: "s < HASHTABLE_NSLOT \<Longrightarrow> h ! s \<le> length ps" for s using ok by (simp add: slots_ok_def)
  have "\<exists>e. reached (h[k := length ps + 1]) ((ps @ [p]) ! i) i e" if i: "i < length ps + 1" for i
  proof (cases "i = length ps")
    case True
    have "reached (h[k := length ps + 1]) p (length ps) d"
      using d n(1) l le unfolding reached_def by (auto simp: k_def pos_inj nth_list_update)
    then show ?thesis using True by auto
  next
    case False
    then have i': "i < length ps" using i by simp
    then have "\<exists>e. reached h (ps ! i) i e" using ok by (simp add: slots_ok_def)
    then obtain e where e: "reached h (ps ! i) i e" ..
    have "h ! probe_pos (walHash (ps ! i)) j \<noteq> 0" if "j \<le> e" for j
      using e that unfolding reached_def by (cases "j = e") auto
    then have "probe_pos (walHash (ps ! i)) j \<noteq> k" if "j \<le> e" for j using that l(3) by metis
    then have "(h[k := length ps + 1]) ! probe_pos (walHash (ps ! i)) j = h ! probe_pos (walHash (ps ! i)) j" if "j \<le> e" for j
      using that by (metis nth_list_update_neq)
    then have "reached (h[k := length ps + 1]) (ps ! i) i e" using e unfolding reached_def by simp
    then show ?thesis using i' by (auto simp: nth_append)
  qed
  moreover have "(h[k := length ps + 1]) ! s = (h[k := length ps + 1]) ! t \<Longrightarrow> (h[k := length ps + 1]) ! s \<noteq> 0 \<Longrightarrow> s = t"
    if "s < HASHTABLE_NSLOT" "t < HASHTABLE_NSLOT" for s t
    using that ok le [of s] le [of t] l by (auto simp: nth_list_update slots_ok_def split: if_splits)
  moreover have "(h[k := length ps + 1]) ! s \<le> length (ps @ [p])" if "s < HASHTABLE_NSLOT" for s
    using le [OF that] l that by (cases "s = k") (simp_all add: le_SucI)
  ultimately have "slots_ok (h[k := length ps + 1]) (ps @ [p])"
    unfolding slots_ok_def using l(1) by (intro conjI) (simp, blast, blast, simp)
  then show ?thesis using a by blast
qed

text \<open>The slots that a lookup visits.\<close>

definition visited :: "nat list \<Rightarrow> u32 \<Rightarrow> nat \<Rightarrow> nat list" where
  "visited h pgno d = map (\<lambda>e. h ! probe_pos (walHash pgno) e) [0..<d]"

definition hit :: "index_page \<Rightarrow> u32 \<Rightarrow> u32 \<Rightarrow> nat \<Rightarrow> u32 \<Rightarrow> nat \<Rightarrow> bool" where
  "hit pg iLast minF zero pgno v \<longleftrightarrow>
    of_nat v + of_nat zero \<le> iLast \<and> minF \<le> of_nat v + of_nat zero \<and> aPgno pg ! (v - 1) = pgno"

lemma find_probe_fold:
  assumes "aHash pg ! probe_pos (walHash pgno) d = 0" "\<forall>e<d. aHash pg ! probe_pos (walHash pgno) e \<noteq> 0"
  shows "j \<le> d \<Longrightarrow> d - j \<le> n \<Longrightarrow>
    find_probe pg iLast minF zero pgno (probe_pos (walHash pgno) j) n r =
    Some (fold (\<lambda>v r. if hit pg iLast minF zero pgno v then of_nat v + of_nat zero else r)
      (map (\<lambda>e. aHash pg ! probe_pos (walHash pgno) e) [j..<d]) r)"
proof (induction n arbitrary: j r)
  case 0
  then show ?case using assms by (simp add: find_probe.simps)
next
  case (Suc n)
  show ?case
  proof (cases "j = d")
    case False
    have u: "[j..<d] = j # [Suc j..<d]" using False Suc.prems by (simp add: upt_rec)
    have nz: "aHash pg ! probe_pos (walHash pgno) j \<noteq> 0" using False Suc.prems assms(2) by simp
    show ?thesis
      using Suc.IH [of "Suc j"] Suc.prems False nz u by (simp add: find_probe.simps [of pg _ _ _ _ "probe_pos (walHash pgno) j"] hit_def Let_def)
  qed (use assms in \<open>simp add: find_probe.simps\<close>)
qed

lemma fold_last:
  "fold (\<lambda>v r. if Q v then f v else r) vs r = (if filter Q vs = [] then r else f (last (filter Q vs)))"
  by (induction vs arbitrary: r) auto

lemma hits_sorted:
  assumes "slots_ok h ps" "d \<le> HASHTABLE_NSLOT" "\<forall>e<d. h ! probe_pos (walHash pgno) e \<noteq> 0"
  shows "sorted_wrt (<) (filter (\<lambda>v. ps ! (v - 1) = pgno) (visited h pgno d))"
proof -
  have "h ! probe_pos (walHash pgno) e1 < h ! probe_pos (walHash pgno) e2"
    if e: "e1 < e2" "e2 < d" and pg: "ps ! (h ! probe_pos (walHash pgno) e2 - 1) = pgno" for e1 e2
  proof -
    define v where "v = h ! probe_pos (walHash pgno) e2"
    have v: "0 < v" "v \<le> length ps" using assms e by (auto simp: v_def slots_ok_def)
    then have "\<exists>d. reached h (ps ! (v - 1)) (v - 1) d" using assms(1) by (simp add: slots_ok_def)
    then obtain d' where r: "reached h pgno (v - 1) d'" using pg by (auto simp: v_def)
    then have "h ! probe_pos (walHash pgno) d' = h ! probe_pos (walHash pgno) e2" "d' < HASHTABLE_NSLOT"
      using v by (auto simp: reached_def v_def)
    then have "d' = e2"
      using assms e v by (metis order_less_le_trans pos_inj pos_less slots_ok_def v_def less_numeral_extra(3))
    then have "h ! probe_pos (walHash pgno) e1 \<le> v - 1" using r e(1) by (auto simp: reached_def)
    then show ?thesis using v by (simp add: v_def)
  qed
  then have "sorted_wrt (\<lambda>x y. ps ! (y - 1) = pgno \<longrightarrow> x < y) (visited h pgno d)"
    by (auto simp: visited_def sorted_wrt_iff_nth_less)
  then have "sorted_wrt (\<lambda>x y. ps ! (y - 1) = pgno \<longrightarrow> x < y) (filter (\<lambda>v. ps ! (v - 1) = pgno) (visited h pgno d))"
    by (rule sorted_wrt_filter)
  then show ?thesis by (rule sorted_wrt_mono_rel [rotated]) auto
qed

lemma visited_all:
  assumes "slots_ok h ps" "h ! probe_pos (walHash pgno) d = 0" "i < length ps" "ps ! i = pgno"
  shows "i + 1 \<in> set (visited h pgno d)"
proof -
  have "\<exists>e. reached h (ps ! i) i e" using assms(1,3) by (simp add: slots_ok_def)
  then obtain e where e: "reached h (ps ! i) i e" ..
  have "e < d"
  proof (rule ccontr)
    assume "\<not> e < d"
    then have "h ! probe_pos (walHash pgno) d \<noteq> 0" using e assms(4) by (cases "d = e") (auto simp: reached_def)
    then show False using assms(2) by simp
  qed
  moreover have "h ! probe_pos (walHash pgno) e = i + 1" using e assms(4) by (simp add: reached_def)
  ultimately show ?thesis by (auto simp: visited_def image_iff intro!: bexI [of _ e])
qed

text \<open>The search of one table: the last entry for the page within the bounds.\<close>

lemma find_table:
  assumes ok: "slots_ok (aHash pg) (take hw (aPgno pg))" and hw: "hw \<le> length (aPgno pg)" "hw < HASHTABLE_NSLOT"
    and z: "zero + hw < 2 ^ 32" and z0: "zero < 2 ^ 32"
  shows "\<exists>r. find_probe pg (of_nat hi) minF zero pgno (walHash pgno) HASHTABLE_NSLOT 0 = Some r \<and> 
    (hi < 2 ^ 32 \<longrightarrow> minF = of_nat lo \<longrightarrow> lo < 2 ^ 32 \<longrightarrow>
     (r = 0 \<and> (\<forall>i<hw. lo \<le> zero + i + 1 \<longrightarrow> zero + i + 1 \<le> hi \<longrightarrow> aPgno pg ! i \<noteq> pgno) \<or>
      (\<exists>i<hw. r = of_nat (zero + i + 1) \<and> lo \<le> zero + i + 1 \<and> zero + i + 1 \<le> hi \<and> aPgno pg ! i = pgno \<and>
        (\<forall>j<hw. i < j \<longrightarrow> zero + j + 1 \<le> hi \<longrightarrow> aPgno pg ! j \<noteq> pgno))))"
proof -
  define h where "h = aHash pg"
  define ps where "ps = take hw (aPgno pg)"
  have lp: "length ps = hw" using hw(1) by (simp add: ps_def)
  have ok': "slots_ok h ps" using ok by (simp add: h_def ps_def)
  obtain d where d: "d \<le> hw" "h ! probe_pos (walHash pgno) d = 0" "\<forall>e<d. h ! probe_pos (walHash pgno) e \<noteq> 0"
    using first_free [OF ok'] hw(2) lp by metis
  define vs where "vs = visited h pgno d"
  define Q where "Q = hit pg (of_nat hi) minF zero pgno"
  define r where "r = (if filter Q vs = [] then 0 else of_nat (last (filter Q vs)) + of_nat zero :: u32)"
  have p: "find_probe pg (of_nat hi) minF zero pgno (walHash pgno) HASHTABLE_NSLOT 0 = Some r"
    using find_probe_fold [of pg pgno d 0 HASHTABLE_NSLOT "of_nat hi" minF zero 0] d hw(2)
    by (simp add: h_def [symmetric] fold_last Q_def [symmetric] vs_def visited_def r_def)
  have vs: "v \<in> set vs \<Longrightarrow> 1 \<le> v \<and> v \<le> hw" for v
    using ok' d lp by (auto simp: vs_def visited_def slots_ok_def Suc_le_eq)
  have P: "aPgno pg ! (v - 1) = ps ! (v - 1)" if "v \<in> set vs" for v
  proof -
    have "v - 1 < hw" using vs [OF that] by linarith
    then show ?thesis by (simp add: ps_def)
  qed
  have main: "r = 0 \<and> (\<forall>i<hw. lo \<le> zero + i + 1 \<longrightarrow> zero + i + 1 \<le> hi \<longrightarrow> aPgno pg ! i \<noteq> pgno) \<or>
      (\<exists>i<hw. r = of_nat (zero + i + 1) \<and> lo \<le> zero + i + 1 \<and> zero + i + 1 \<le> hi \<and> aPgno pg ! i = pgno \<and>
        (\<forall>j<hw. i < j \<longrightarrow> zero + j + 1 \<le> hi \<longrightarrow> aPgno pg ! j \<noteq> pgno))"
    if b: "hi < 2 ^ 32" "minF = of_nat lo" "lo < 2 ^ 32"
  proof -
    have Q: "Q v \<longleftrightarrow> zero + v \<le> hi \<and> lo \<le> zero + v \<and> ps ! (v - 1) = pgno" if "v \<in> set vs" for v
    proof -
      have "of_nat v + of_nat zero = (of_nat (zero + v) :: u32)" by simp
      moreover have "zero + v < 2 ^ 32" using vs [OF that] z by linarith
      ultimately show ?thesis using b P [OF that] by (simp add: Q_def hit_def word_le_nat_alt unat_u32 del: of_nat_add)
    qed
    have "\<exists>i<hw. i + 1 = v" if "v \<in> set vs" for v using vs [OF that] by (intro exI [of _ "v - 1"]) auto
    have all: "i + 1 \<in> set (filter Q vs)" if "i < hw" "lo \<le> zero + i + 1" "zero + i + 1 \<le> hi" "aPgno pg ! i = pgno" for i
    proof -
      have "i + 1 \<in> set vs" using visited_all [OF ok' d(2), of i] that lp by (simp add: vs_def ps_def)
      then show ?thesis using Q that by (simp add: ps_def)
    qed
    show ?thesis
    proof (cases "filter Q vs = []")
      case True
      then show ?thesis using all by (auto simp: r_def)
    next
      case False
      define v where "v = last (filter Q vs)"
      have v: "v \<in> set vs" "Q v" using last_in_set [OF False] by (auto simp: v_def)
      have "sorted_wrt (<) (filter (\<lambda>v. ps ! (v - 1) = pgno) vs)"
        unfolding vs_def using hits_sorted [OF ok' _ d(3)] d(1) hw(2) by simp
      then have "sorted_wrt (<) (filter Q (filter (\<lambda>v. ps ! (v - 1) = pgno) vs))" by (rule sorted_wrt_filter)
      moreover have "filter Q (filter (\<lambda>v. ps ! (v - 1) = pgno) vs) = filter Q vs"
        unfolding filter_filter using Q by (intro filter_cong) auto
      ultimately have s: "sorted_wrt (<) (filter Q vs)" by simp
      have top: "u \<le> v" if "u \<in> set (filter Q vs)" for u
      proof -
        obtain as where as: "filter Q vs = as @ [v]" using False by (metis append_butlast_last_id v_def)
        then show ?thesis using s that by (auto simp: sorted_wrt_append)
      qed
      define i where "i = v - 1"
      have i: "v = i + 1" "i < hw" using vs [OF v(1)] by (auto simp: i_def)
      have Qv: "zero + i + 1 \<le> hi" "lo \<le> zero + i + 1" "aPgno pg ! i = pgno"
        using Q [OF v(1)] v P [OF v(1)] by (simp_all add: i)
      have "aPgno pg ! j \<noteq> pgno" if "j < hw" "i < j" "zero + j + 1 \<le> hi" for j
        using all [of j] top [of "j + 1"] that Qv(2) by (auto simp: i)
      moreover have "r = of_nat (zero + i + 1)" using False by (simp add: r_def v_def [symmetric] i)
      ultimately show ?thesis using i(2) Qv by blast
    qed
  qed
  then show ?thesis using p by blast
qed

section \<open>The pages of the index\<close>

definition cap :: "nat \<Rightarrow> nat" where "cap t = (if t = 0 then HASHTABLE_NPAGE_ONE else HASHTABLE_NPAGE)"

text \<open>The part of the log in table \<open>t\<close>, and the table of a frame.\<close>

definition ents :: "u32 list \<Rightarrow> nat \<Rightarrow> u32 list" where "ents log t = take (cap t) (drop (iZero t) log)"

definition table_of :: "nat \<Rightarrow> nat" where "table_of f = (f + 33) div 4096"

lemmas sizes = HASHTABLE_NPAGE_def HASHTABLE_NPAGE_ONE_def WALINDEX_HDR_SIZE_def HASHTABLE_NSLOT_def

lemma iZero_eq: "iZero t = 4096 * t - 34 * of_bool (0 < t)"
  by (cases t) (simp_all add: iZero_def sizes)

lemma cap_eq: "cap t = 4096 - 34 * of_bool (t = 0)" by (simp add: cap_def sizes)

lemma iZero_Suc: "iZero (Suc t) = iZero t + cap t" by (simp add: iZero_eq cap_eq)

lemma table_of_bounds: "1 \<le> f \<Longrightarrow> iZero (table_of f) < f \<and> f \<le> iZero (table_of f) + cap (table_of f)"
proof -
  assume f: "1 \<le> f"
  define t where "t = table_of f"
  have t: "4096 * t \<le> f + 33" "f + 33 < 4096 * (t + 1)"
    using dividend_less_times_div [of 4096 "f + 33"] by (simp_all add: t_def table_of_def)
  show ?thesis
  proof (cases t)
    case 0
    then show ?thesis using f t by (simp add: t_def [symmetric] iZero_eq cap_eq)
  next
    case (Suc s)
    then show ?thesis using f t by (simp add: t_def [symmetric] iZero_eq cap_eq)
  qed
qed

lemma table_of_unique: "iZero t < f \<Longrightarrow> f \<le> iZero t + cap t \<Longrightarrow> table_of f = t"
proof -
  assume "iZero t < f" "f \<le> iZero t + cap t"
  then have "4096 * t \<le> f + 33" "f + 33 < 4096 * (t + 1)" by (cases t; simp add: iZero_eq cap_eq)+
  then have "(f + 33) div 4096 = t" by (intro div_nat_eqI) simp_all
  then show ?thesis by (simp add: table_of_def)
qed

lemma walFramePage_of_nat: "f < 2 ^ 31 \<Longrightarrow> walFramePage (of_nat f) = table_of f"
proof -
  assume f: "f < 2 ^ 31"
  have "(of_nat f + of_nat HASHTABLE_NPAGE - of_nat HASHTABLE_NPAGE_ONE - 1 :: u32) = of_nat (f + 33)"
    by (simp add: sizes)
  then have "walFramePage (of_nat f) = unat (of_nat (f + 33) div 4096 :: u32)"
    unfolding walFramePage_def by (simp only: sizes of_nat_numeral)
  also have "\<dots> = (f + 33) div 4096" using f by (simp add: unat_div_distrib unat_u32 del: of_nat_add)
  finally show ?thesis by (simp add: table_of_def)
qed

definition page_sizes :: "nat \<Rightarrow> index_page \<Rightarrow> bool" where
  "page_sizes t pg \<longleftrightarrow> length (aPgno pg) = cap t \<and> length (aHash pg) = HASHTABLE_NSLOT"

text \<open>
  A table that holds the entries \<open>es\<close>, and behind them those of frames that are not valid any more; \<open>hw\<close> counts
  them all.
\<close>

definition wal_table_ok :: "nat \<Rightarrow> index_page \<Rightarrow> u32 list \<Rightarrow> nat \<Rightarrow> bool" where
  "wal_table_ok t pg es hw \<longleftrightarrow> page_sizes t pg \<and> length es \<le> hw \<and> hw \<le> cap t \<and> take (length es) (aPgno pg) = es \<and>
    (\<forall>i<cap t. aPgno pg ! i \<noteq> 0 \<longleftrightarrow> i < hw) \<and> slots_ok (aHash pg) (take hw (aPgno pg))"

definition wal_inv :: "Wal \<Rightarrow> u32 list \<Rightarrow> bool" where
  "wal_inv w log \<longleftrightarrow> (\<forall>t. mapped w t \<longrightarrow> page_sizes t (page_at w t)) \<and>
    (\<forall>t. ents log t \<noteq> [] \<longrightarrow> mapped w t \<and> (\<exists>hw. wal_table_ok t (page_at w t) (ents log t) hw)) \<and>
    0 \<notin> set log \<and> length log < 2 ^ 31"

text \<open>The table of the last frame has no entries behind it.\<close>

definition exact :: "Wal \<Rightarrow> u32 list \<Rightarrow> bool" where
  "exact w log \<longleftrightarrow> log = [] \<or> wal_table_ok (table_of (length log)) (page_at w (table_of (length log)))
    (ents log (table_of (length log))) (length (ents log (table_of (length log))))"

lemma ents_length: "length (ents log t) = min (cap t) (length log - iZero t)" by (simp add: ents_def)

lemma ents_Nil: "ents log t = [] \<longleftrightarrow> length log \<le> iZero t"
proof -
  have "cap t \<noteq> 0" by (simp add: cap_eq)
  then show ?thesis by (auto simp: ents_def)
qed

lemma ents_append:
  "ents (log @ [p]) t = (if t = table_of (length log + 1) then ents log t @ [p] else ents log t)"
proof (cases "t = table_of (length log + 1)")
  case True
  then have "iZero t \<le> length log" "length log + 1 \<le> iZero t + cap t" using table_of_bounds [of "length log + 1"] by simp_all
  then show ?thesis using True by (simp add: ents_def)
next
  case False
  then have "\<not> (iZero t < length log + 1 \<and> length log + 1 \<le> iZero t + cap t)" using table_of_unique by metis
  then show ?thesis using False by (auto simp: ents_def)
qed

lemma ents_take: "ents (take m log) t = take (min m (length log) - iZero t) (ents log t)"
proof (rule nth_equalityI)
  show "length (ents (take m log) t) = length (take (min m (length log) - iZero t) (ents log t))" by (simp add: ents_def)
  fix i assume i: "i < length (ents (take m log) t)"
  then have "iZero t \<le> length log" "iZero t \<le> m" "iZero t + i < m" "iZero t + i < length log" "i < cap t" by (auto simp: ents_def)
  then show "ents (take m log) t ! i = take (min m (length log) - iZero t) (ents log t) ! i" by (simp add: ents_def)
qed

lemma table_ok_take:
  assumes "wal_table_ok t pg es hw" shows "wal_table_ok t pg (take m es) hw"
proof -
  have e: "take (length es) (aPgno pg) = es" using assms by (simp add: wal_table_ok_def)
  have "take (length (take m es)) (aPgno pg) = take m (take (length es) (aPgno pg))" by (simp add: min.commute)
  also have "\<dots> = take m es" by (simp only: e)
  finally have "take (length (take m es)) (aPgno pg) = take m es" .
  then show ?thesis using assms by (auto simp: wal_table_ok_def)
qed

text \<open>Taking frames back leaves entries behind the last one.\<close>

lemma inv_take:
  assumes "wal_inv w log" shows "wal_inv w (take m log)"
proof -
  have "mapped w t \<and> (\<exists>hw. wal_table_ok t (page_at w t) (ents (take m log) t) hw)" if "ents (take m log) t \<noteq> []" for t
  proof -
    have "ents log t \<noteq> []" using that by (auto simp: ents_take)
    then obtain hw where "mapped w t" "wal_table_ok t (page_at w t) (ents log t) hw" using assms by (auto simp: wal_inv_def)
    then show ?thesis unfolding ents_take using table_ok_take by blast
  qed
  then show ?thesis using assms by (auto simp: wal_inv_def dest: in_set_takeD)
qed

section \<open>The operations keep the invariant\<close>

definition env_ok :: "wal_env \<Rightarrow> bool" where
  "env_ok env \<longleftrightarrow> (\<forall>t pg. snd (shm_map env t) = Some pg \<longrightarrow> page_sizes t pg)"

lemma hashget_mapped: "mapped w t \<Longrightarrow> walHashGet env w t = (SQLITE_OK, w)"
  by (auto simp: walHashGet_def walIndexPage_def mapped_def)

lemma hashget:
  assumes "walHashGet env w t = (rc, w')"
  shows "w' = w\<lparr>apWiData := apWiData w'\<rparr>" "mapped w i \<Longrightarrow> mapped w' i \<and> page_at w' i = page_at w i"
    "mapped w' i \<Longrightarrow> \<not> mapped w i \<Longrightarrow> i = t \<and> snd (shm_map env t) = Some (page_at w' i)" "rc = SQLITE_OK \<Longrightarrow> mapped w' t"
proof -
  have "w' = w\<lparr>apWiData := apWiData w'\<rparr> \<and> (mapped w i \<longrightarrow> mapped w' i \<and> page_at w' i = page_at w i) \<and>
    (mapped w' i \<longrightarrow> \<not> mapped w i \<longrightarrow> i = t \<and> snd (shm_map env t) = Some (page_at w' i)) \<and> (rc = SQLITE_OK \<longrightarrow> mapped w' t)"
  proof (cases "mapped w t")
    case True
    then show ?thesis using assms hashget_mapped [OF True, of env] by auto
  next
    case False
    obtain rc1 w1 where w1: "walIndexPage env w t = (rc1, w1)" by force
    then have w': "w' = w1" "rc = (if \<not> mapped w1 t \<and> rc1 = SQLITE_OK then SQLITE_ERROR else rc1)"
      using assms by (auto simp: walHashGet_def)
    show ?thesis
    proof (cases "length (apWiData w) \<le> t \<and> \<not> grow_ok env")
      case True
      then show ?thesis using w1 w' False
        by (auto simp: walIndexPage_def SQLITE_OK_def SQLITE_NOMEM_def SQLITE_ERROR_def split: if_splits)
    next
      case f: False
      define d where "d = (apWiData w @ replicate (t + 1 - length (apWiData w)) None)[t := snd (shm_map env t)]"
      have "w1 = w\<lparr>apWiData := d\<rparr>"
        using w1 False f by (auto simp: walIndexPage_def mapped_def d_def split_beta Let_def split: if_splits)
      then show ?thesis using w' False
        by (auto simp: d_def mapped_def page_at_def nth_append nth_list_update SQLITE_ERROR_def SQLITE_OK_def split: if_splits)
    qed
  qed
  then show "w' = w\<lparr>apWiData := apWiData w'\<rparr>" "mapped w i \<Longrightarrow> mapped w' i \<and> page_at w' i = page_at w i"
    "mapped w' i \<Longrightarrow> \<not> mapped w i \<Longrightarrow> i = t \<and> snd (shm_map env t) = Some (page_at w' i)" "rc = SQLITE_OK \<Longrightarrow> mapped w' t" by auto
qed

lemma hashget_inv:
  assumes "walHashGet env w t = (rc, w')" "env_ok env" "wal_inv w log"
  shows "wal_inv w' log"
proof -
  note h = hashget [OF assms(1)]
  have "mapped w' i \<Longrightarrow> page_sizes i (page_at w' i)" for i
    using h(2,3) [of i] assms(2,3) by (cases "mapped w i") (auto simp: wal_inv_def env_ok_def)
  moreover have "mapped w' i \<and> (\<exists>hw. wal_table_ok i (page_at w' i) (ents log i) hw)" if "ents log i \<noteq> []" for i
    using that h(2) [of i] assms(3) by (auto simp: wal_inv_def)
  ultimately show ?thesis using assms(3) by (auto simp: wal_inv_def)
qed

lemma set_page_simps [simp]:
  "mapped w t \<Longrightarrow> mapped (set_page w t pg) i \<longleftrightarrow> mapped w i"
  "mapped w t \<Longrightarrow> page_at (set_page w t pg) i = (if i = t then pg else page_at w i)"
  "hdr (set_page w t pg) = hdr w" "aHdr (set_page w t pg) = aHdr w" "minFrame (set_page w t pg) = minFrame w"
  by (auto simp: set_page_def mapped_def page_at_def nth_list_update)

lemma set_page_frame: "set_page w t pg = w\<lparr>apWiData := apWiData (set_page w t pg)\<rparr>" by (simp add: set_page_def)

lemma table_nonzero: "wal_table_ok t pg es hw \<Longrightarrow> 0 \<notin> set es"
proof
  assume ok: "wal_table_ok t pg es hw" and "0 \<in> set es"
  then obtain i where i: "i < length es" "es ! i = 0" by (auto simp: in_set_conv_nth)
  have e: "take (length es) (aPgno pg) = es" using ok by (simp add: wal_table_ok_def)
  have "aPgno pg ! i = 0" using arg_cong [OF e, of "\<lambda>x. x ! i"] i by simp
  moreover have "aPgno pg ! i \<noteq> 0 \<longleftrightarrow> i < hw" "i < hw" using ok i by (auto simp: wal_table_ok_def)
  ultimately show False by simp
qed

text \<open>A table without entries behind its last valid one.\<close>

lemma table_exact:
  "wal_table_ok t pg es (length es) \<longleftrightarrow> page_sizes t pg \<and> length es \<le> cap t \<and> 0 \<notin> set es \<and>
    aPgno pg = es @ replicate (cap t - length es) 0 \<and> slots_ok (aHash pg) es"
proof
  assume ok: "wal_table_ok t pg es (length es)"
  then have l: "length (aPgno pg) = cap t" "length es \<le> cap t" "take (length es) (aPgno pg) = es" by (simp_all add: wal_table_ok_def page_sizes_def)
  have nth: "i < length es \<Longrightarrow> aPgno pg ! i = es ! i" for i using arg_cong [OF l(3), of "\<lambda>x. x ! i"] by simp
  have "aPgno pg = es @ replicate (cap t - length es) 0"
  proof (rule nth_equalityI)
    fix i assume "i < length (aPgno pg)"
    then show "aPgno pg ! i = (es @ replicate (cap t - length es) 0) ! i"
      using ok l(1) nth [of i] by (cases "i < length es") (auto simp: nth_append wal_table_ok_def)
  qed (use l in simp)
  moreover have "0 \<notin> set es" using table_nonzero [OF ok] .
  ultimately show "page_sizes t pg \<and> length es \<le> cap t \<and> 0 \<notin> set es \<and> aPgno pg = es @ replicate (cap t - length es) 0 \<and> slots_ok (aHash pg) es"
    using ok l by (auto simp: wal_table_ok_def)
next
  assume a: "page_sizes t pg \<and> length es \<le> cap t \<and> 0 \<notin> set es \<and> aPgno pg = es @ replicate (cap t - length es) 0 \<and> slots_ok (aHash pg) es"
  then have "i < length es \<Longrightarrow> es ! i \<noteq> 0" for i using nth_mem by metis
  with a have "aPgno pg ! i \<noteq> 0 \<longleftrightarrow> i < length es" if "i < cap t" for i using that by (auto simp: nth_append)
  then show "wal_table_ok t pg es (length es)" using a by (simp add: wal_table_ok_def)
qed

text \<open>Entries behind \<open>m\<close> are removed from the table.\<close>

lemma table_cleaned:
  assumes ok: "wal_table_ok t pg es hw" and m: "m \<le> length es"
  shows "wal_table_ok t \<lparr>aPgno = take m (aPgno pg) @ replicate (length (aPgno pg) - m) 0, aHash = map (\<lambda>v. if m < v then 0 else v) (aHash pg)\<rparr>
    (take m es) (length (take m es))"
proof -
  have l: "length (aPgno pg) = cap t" "length (aHash pg) = HASHTABLE_NSLOT" "length es \<le> hw" "hw \<le> cap t" "take (length es) (aPgno pg) = es"
    using ok by (simp_all add: wal_table_ok_def page_sizes_def)
  have mm: "take m (aPgno pg) = take m es" using l(5) m by (metis min.absorb1 take_take)
  have "slots_ok (map (\<lambda>v. if m < v then 0 else v) (aHash pg)) (take m (take hw (aPgno pg)))"
    using ok l m by (intro slots_take) (auto simp: wal_table_ok_def)
  then have s: "slots_ok (map (\<lambda>v. if m < v then 0 else v) (aHash pg)) (take m es)" using m l mm by (simp add: min.absorb1)
  have "0 \<notin> set (take m es)" using table_nonzero [OF ok] by (auto dest: in_set_takeD)
  then show ?thesis unfolding table_exact using s l m mm by (simp add: page_sizes_def min.absorb1 min.absorb2)
qed

definition clean_table :: "index_page \<Rightarrow> nat \<Rightarrow> index_page" where
  "clean_table pg m =
    \<lparr>aPgno = take m (aPgno pg) @ replicate (length (aPgno pg) - m) 0, aHash = map (\<lambda>v. if m < v then 0 else v) (aHash pg)\<rparr>"

lemma iZero_diff: "iZero t < f \<Longrightarrow> f < 2 ^ 31 \<Longrightarrow> unat (of_nat f - of_nat (iZero t) :: u32) = f - iZero t"
proof -
  assume "iZero t < f" "f < 2 ^ 31"
  moreover from this have "(of_nat f - of_nat (iZero t) :: u32) = of_nat (f - iZero t)" by (simp add: of_nat_diff)
  ultimately show ?thesis by (simp add: unat_u32 del: of_nat_diff)
qed

lemma cleanup_step:
  assumes "mxFrame (hdr w) = of_nat m" "1 \<le> m" "m < 2 ^ 31" "mapped w (table_of m)"
  shows "walCleanupHash env w = set_page w (table_of m) (clean_table (page_at w (table_of m)) (m - iZero (table_of m)))"
proof -
  have "mxFrame (hdr w) \<noteq> 0" using assms(1-3) unat_u32 [of m] by auto
  moreover have "iZero (table_of m) < m" using table_of_bounds [OF assms(2)] by simp
  ultimately show ?thesis
    using assms hashget_mapped [OF assms(4), of env] walFramePage_of_nat [OF assms(3)] iZero_diff [of "table_of m" m]
    by (simp add: walCleanupHash_def clean_table_def Let_def)
qed

lemma inv_set_page:
  assumes inv: "wal_inv w log" "mapped w t" and t: "wal_table_ok t pg (ents log' t) hw" and e: "\<And>s. s \<noteq> t \<Longrightarrow> ents log' s = ents log s \<or> ents log' s = []"
    and l: "0 \<notin> set log'" "length log' < 2 ^ 31"
  shows "wal_inv (set_page w t pg) log'"
proof -
  have "mapped w s \<and> (\<exists>hw. wal_table_ok s (if s = t then pg else page_at w s) (ents log' s) hw)" if "ents log' s \<noteq> []" for s
    using that inv t e [of s] by (cases "s = t") (auto simp: wal_inv_def)
  then show ?thesis using inv t l by (auto simp: wal_inv_def wal_table_ok_def)
qed

lemma inv_table: "wal_inv w log \<Longrightarrow> iZero t < length log \<Longrightarrow> mapped w t \<and> (\<exists>hw. wal_table_ok t (page_at w t) (ents log t) hw)"
  by (auto simp: wal_inv_def ents_Nil)

text \<open>Rolling back to frame \<open>m\<close>.\<close>

lemma cleanup_inv:
  assumes inv: "wal_inv w log" and m: "mxFrame (hdr w) = of_nat m" "m \<le> length log" and env: "env_ok env"
  shows "wal_inv (walCleanupHash env w) (take m log)" "exact (walCleanupHash env w) (take m log)"
    "walCleanupHash env w = w\<lparr>apWiData := apWiData (walCleanupHash env w)\<rparr>"
proof -
  have l: "length log < 2 ^ 31" using inv by (simp add: wal_inv_def)
  have "wal_inv (walCleanupHash env w) (take m log) \<and> exact (walCleanupHash env w) (take m log) \<and>
    walCleanupHash env w = w\<lparr>apWiData := apWiData (walCleanupHash env w)\<rparr>"
  proof (cases "m = 0")
    case True
    then show ?thesis using inv_take [OF inv, of 0] m by (simp add: walCleanupHash_def exact_def)
  next
    case False
    define t where "t = table_of m"
    have t: "iZero t < m" "m \<le> iZero t + cap t" using table_of_bounds [of m] False by (simp_all add: t_def)
    obtain hw where map: "mapped w t" and ok: "wal_table_ok t (page_at w t) (ents log t) hw" using inv_table [OF inv, of t] t m by auto
    have c: "walCleanupHash env w = set_page w t (clean_table (page_at w t) (m - iZero t))"
      using cleanup_step [OF m(1), of env] False m l map by (simp add: t_def)
    have e: "ents (take m log) t = take (m - iZero t) (ents log t)" using m by (simp add: ents_take min.absorb1)
    have "m - iZero t \<le> length (ents log t)" using t m by (simp add: ents_length le_diff_conv diff_le_mono)
    note tab = table_cleaned [OF ok this, folded clean_table_def e]
    have "ents (take m log) s = ents log s \<or> ents (take m log) s = []" if "s \<noteq> t" for s
    proof (cases "m \<le> iZero s")
      case False
      then have "iZero s + cap s < m" using that table_of_unique [of s m] by (force simp: t_def)
      then show ?thesis using m by (simp add: ents_take ents_length min.absorb1)
    qed (auto simp: ents_Nil min_le_iff_disj)
    then have "wal_inv (walCleanupHash env w) (take m log)"
      unfolding c using inv l m by (intro inv_set_page [OF inv map tab]) (auto simp: wal_inv_def dest: in_set_takeD)
    moreover have "exact (walCleanupHash env w) (take m log)"
      using tab m map by (simp add: exact_def c min.absorb1 t_def [symmetric])
    ultimately show ?thesis by (simp add: c set_page_def)
  qed
  then show "wal_inv (walCleanupHash env w) (take m log)" "exact (walCleanupHash env w) (take m log)"
    "walCleanupHash env w = w\<lparr>apWiData := apWiData (walCleanupHash env w)\<rparr>" by auto
qed

lemma table_zeroed: "wal_table_ok t \<lparr>aPgno = replicate (cap t) 0, aHash = replicate HASHTABLE_NSLOT 0\<rparr> [] 0"
  using table_exact [of t _ "[]"] slots_empty by (simp add: page_sizes_def)

lemma table_insert:
  assumes ok: "wal_table_ok t pg es (length es)" and c: "length es < cap t" and p: "p \<noteq> 0" and n: "length es \<le> n"
  shows "\<exists>k. append_probe (aHash pg) (walHash p) n = Some k \<and>
    wal_table_ok t \<lparr>aPgno = (aPgno pg)[length es := p], aHash = (aHash pg)[k := length es + 1]\<rparr> (es @ [p]) (length (es @ [p]))"
proof -
  note e = ok [unfolded table_exact]
  have "cap t \<le> 4096" by (simp add: cap_eq)
  then obtain k where k: "append_probe (aHash pg) (walHash p) n = Some k" "slots_ok ((aHash pg)[k := length es + 1]) (es @ [p])"
    using slots_insert [of "aHash pg" es n p] e c n by (auto simp: NSLOT)
  have "cap t - length es = Suc (cap t - length es - 1)" using c by simp
  then have "(aPgno pg)[length es := p] = (es @ [p]) @ replicate (cap t - length (es @ [p])) 0"
    using e c by (simp add: list_update_append)
  then have "wal_table_ok t \<lparr>aPgno = (aPgno pg)[length es := p], aHash = (aHash pg)[k := length es + 1]\<rparr> (es @ [p]) (length (es @ [p]))"
    unfolding table_exact using e c p k(2) by (simp add: page_sizes_def)
  then show ?thesis using k(1) by blast
qed

text \<open>The state in which the new entry is stored.\<close>

definition made_room :: "wal_env \<Rightarrow> Wal \<Rightarrow> nat \<Rightarrow> nat \<Rightarrow> Wal" where
  "made_room env w t idx =
    (let pg = page_at w t;
         w = (if idx = 1 then set_page w t \<lparr>aPgno = replicate (length (aPgno pg)) 0, aHash = replicate (length (aHash pg)) 0\<rparr> else w)
     in if aPgno (page_at w t) ! (idx - 1) \<noteq> 0 then walCleanupHash env w else w)"

lemma made_room_ok:
  assumes inv: "wal_inv w log" and map: "mapped w t" and env: "env_ok env" and t: "t = table_of (length log + 1)" and l: "length log + 1 < 2 ^ 31"
    and m: "mxFrame (hdr w) = of_nat m" "m \<le> length log" "m = length log \<or> exact w log"
  defines "w' \<equiv> made_room env w t (length log + 1 - iZero t)"
  shows "wal_inv w' log" "wal_table_ok t (page_at w' t) (ents log t) (length (ents log t))" "mapped w' t" "w' = w\<lparr>apWiData := apWiData w'\<rparr>"
proof -
  define es where "es = ents log t"
  have b: "iZero t \<le> length log" "length log + 1 \<le> iZero t + cap t" using table_of_bounds [of "length log + 1"] t by simp_all
  have idx: "length log + 1 - iZero t = length es + 1" using b by (simp add: es_def ents_length)
  have c: "0 < cap t" by (simp add: cap_eq)
  have sz: "length (aPgno (page_at w t)) = cap t" "length (aHash (page_at w t)) = HASHTABLE_NSLOT"
    using inv map by (simp_all add: wal_inv_def page_sizes_def)
  have "wal_inv w' log \<and> wal_table_ok t (page_at w' t) es (length es) \<and> mapped w' t \<and> w' = w\<lparr>apWiData := apWiData w'\<rparr>"
  proof (cases "es = []")
    case True
    define w2 where "w2 = set_page w t \<lparr>aPgno = replicate (cap t) 0, aHash = replicate HASHTABLE_NSLOT 0\<rparr>"
    have w': "w' = w2" unfolding w'_def made_room_def idx using True map c by (simp add: Let_def sz w2_def)
    have tab: "wal_table_ok t \<lparr>aPgno = replicate (cap t) 0, aHash = replicate HASHTABLE_NSLOT 0\<rparr> (ents log t) 0"
      using table_zeroed [of t] True by (simp add: es_def)
    have "wal_inv w2 log" unfolding w2_def
      using inv by (intro inv_set_page [OF inv map tab]) (auto simp: wal_inv_def)
    then show ?thesis using table_zeroed [of t] map True by (simp add: w' w2_def set_page_def mapped_def page_at_def)
  next
    case False
    then have le: "iZero t < length log" by (simp add: es_def ents_Nil)
    have tl: "table_of (length log) = t" using table_of_unique [of t "length log"] le b by simp
    obtain hw where ok: "wal_table_ok t (page_at w t) es hw" using inv_table [OF inv le] by (auto simp: es_def)
    have w': "w' = (if aPgno (page_at w t) ! length es \<noteq> 0 then walCleanupHash env w else w)"
      unfolding w'_def made_room_def idx using False by (simp add: Let_def)
    have lc: "length es < cap t" using b le by (simp add: es_def ents_length)
    show ?thesis
    proof (cases "aPgno (page_at w t) ! length es = 0")
      case True
      then have "hw = length es" using ok lc by (auto simp: wal_table_ok_def intro: antisym)
      then show ?thesis using ok True inv map w' by simp
    next
      case nz: False
      have "\<not> exact w log"
      proof
        assume "exact w log"
        then have "wal_table_ok t (page_at w t) es (length es)" using le by (auto simp: exact_def tl es_def)
        then show False using nz lc by (simp add: wal_table_ok_def)
      qed
      then have "m = length log" using m(3) by simp
      note cl = cleanup_inv [OF inv m(1,2) env, unfolded this take_all [OF order_refl]]
      have "wal_table_ok t (page_at (walCleanupHash env w) t) es (length es)" using cl(2) le by (auto simp: exact_def tl es_def)
      moreover have "mapped (walCleanupHash env w) t" using inv_table [OF cl(1) le] by simp
      ultimately show ?thesis using cl(1,3) w' nz by simp
    qed
  qed
  then show "wal_inv w' log" "wal_table_ok t (page_at w' t) (ents log t) (length (ents log t))" "mapped w' t" "w' = w\<lparr>apWiData := apWiData w'\<rparr>"
    by (auto simp: es_def)
qed

lemma append_inv:
  assumes inv: "wal_inv w log" and env: "env_ok env" and l: "length log + 1 < 2 ^ 31" and p: "p \<noteq> 0"
    and m: "mxFrame (hdr w) = of_nat m" "m \<le> length log" "m = length log \<or> exact w log"
    and a: "walIndexAppend env w (of_nat (length log + 1)) p = (rc, w')"
  shows "w' = w\<lparr>apWiData := apWiData w'\<rparr>" "rc = SQLITE_OK \<Longrightarrow> wal_inv w' (log @ [p]) \<and> exact w' (log @ [p])"
    "rc \<noteq> SQLITE_OK \<Longrightarrow> wal_inv w' log \<and> rc = fst (walHashGet env w (table_of (length log + 1)))"
proof -
  define t where "t = table_of (length log + 1)"
  define es where "es = ents log t"
  obtain rc1 w1 where w1: "walHashGet env w t = (rc1, w1)" by force
  have fp: "walFramePage (of_nat (length log + 1)) = t" using walFramePage_of_nat [OF l] by (simp add: t_def)
  have b: "iZero t \<le> length log" "length log + 1 \<le> iZero t + cap t" using table_of_bounds [of "length log + 1"] by (simp_all add: t_def)
  have idx: "unat (of_nat (length log + 1) - of_nat (iZero t) :: u32) = length log + 1 - iZero t" using iZero_diff [of t "length log + 1"] b l by simp
  have ie: "length log + 1 - iZero t = length es + 1" using b by (simp add: es_def ents_length)
  note h = hashget [OF w1]
  have inv1: "wal_inv w1 log" by (rule hashget_inv [OF w1 env inv])
  have "w' = w\<lparr>apWiData := apWiData w'\<rparr> \<and> (rc = SQLITE_OK \<longrightarrow> wal_inv w' (log @ [p]) \<and> exact w' (log @ [p])) \<and>
    (rc \<noteq> SQLITE_OK \<longrightarrow> wal_inv w' log \<and> rc = rc1)"
  proof (cases "rc1 = SQLITE_OK")
    case False
    then have "rc = rc1" "w' = w1" using a w1 fp by (simp_all add: walIndexAppend_def Let_def del: of_nat_add of_nat_Suc)
    then show ?thesis using False h(1) inv1 by blast
  next
    case True
    then have map1: "mapped w1 t" using h(4) by simp
    have m1: "mxFrame (hdr w1) = of_nat m" using m(1) h(1) by (metis Wal.select_convs(5) Wal.surjective Wal.update_convs(9))
    have ex1: "m = length log \<or> exact w1 log"
    proof (cases "log = [] \<or> exact w log \<and> log \<noteq> []")
      case True
      then show ?thesis
      proof
        assume e: "exact w log \<and> log \<noteq> []"
        then have "iZero (table_of (length log)) < length log" using table_of_bounds [of "length log"] by (simp add: Suc_le_eq)
        then have "mapped w (table_of (length log))" using inv_table [OF inv] by simp
        then show ?thesis using e h(2) by (auto simp: exact_def)
      qed (simp add: exact_def)
    qed (use m(3) in auto)
    define w3 where "w3 = made_room env w1 t (length es + 1)"
    note r = made_room_ok [OF inv1 map1 env t_def l m1 m(2) ex1, unfolded ie, folded w3_def es_def]
    have c: "length es < cap t" using b by (simp add: es_def ents_length)
    obtain k where k: "append_probe (aHash (page_at w3 t)) (walHash p) (length es + 1) = Some k"
      "wal_table_ok t \<lparr>aPgno = (aPgno (page_at w3 t))[length es := p], aHash = (aHash (page_at w3 t))[k := length es + 1]\<rparr> (es @ [p]) (length (es @ [p]))"
      using table_insert [OF r(2) c p, of "length es + 1"] by auto
    define pg where "pg = \<lparr>aPgno = (aPgno (page_at w3 t))[length es := p], aHash = (aHash (page_at w3 t))[k := length es + 1]\<rparr>"
    have "cap t \<le> 4096" by (simp add: cap_eq)
    then have e16: "(length es + 1) mod 2 ^ 16 = length es + 1" using c by simp
    have "walIndexAppend env w (of_nat (length log + 1)) p =
      (case append_probe (aHash (page_at w3 t)) (walHash p) (length es + 1) of None \<Rightarrow> (SQLITE_CORRUPT, w3)
       | Some iKey \<Rightarrow> (SQLITE_OK, set_page w3 t \<lparr>aPgno = (aPgno (page_at w3 t))[length es + 1 - 1 := p],
           aHash = (aHash (page_at w3 t))[iKey := (length es + 1) mod 2 ^ 16]\<rparr>))"
      unfolding walIndexAppend_def fp Let_def w1 prod.case idx ie w3_def made_room_def using True by simp
    then have w': "rc = SQLITE_OK" "w' = set_page w3 t pg" using a k(1) e16 by (simp_all add: pg_def)
    have ea: "ents (log @ [p]) t = es @ [p]" by (simp add: ents_append t_def es_def)
    have tab: "wal_table_ok t pg (ents (log @ [p]) t) (length (es @ [p]))" using k(2) by (simp add: pg_def ea)
    have tS: "table_of (Suc (length log)) = t" by (simp add: t_def)
    have "wal_inv w' (log @ [p])"
      unfolding w' using inv l p by (intro inv_set_page [OF r(1,3) tab]) (auto simp: ents_append t_def wal_inv_def)
    moreover have "exact w' (log @ [p])"
      using tab r(3) tS by (simp add: exact_def w' ea)
    moreover have "w' = w\<lparr>apWiData := apWiData w'\<rparr>"
      using w'(2) r(4) h(1) set_page_frame [of w3 t pg] by (metis Wal.update_convs(9) Wal.surjective)
    ultimately show ?thesis using w'(1) by simp
  qed
  then show "w' = w\<lparr>apWiData := apWiData w'\<rparr>" "rc = SQLITE_OK \<Longrightarrow> wal_inv w' (log @ [p]) \<and> exact w' (log @ [p])"
    "rc \<noteq> SQLITE_OK \<Longrightarrow> wal_inv w' log \<and> rc = fst (walHashGet env w (table_of (length log + 1)))"
    using w1 by (auto simp: t_def)
qed

end
