(* ===== verification/WalLog.thy ===== *)
theory WalLog
  imports WalTable Interfaces
begin

text \<open>
  The index of the write-ahead log as the implementation of an abstract log: the search for the last frame of a
  page, histories of writes, rollbacks and restarts, and the properties that follow.
\<close>

section \<open>Finding the last frame of a page\<close>

text \<open>\<open>r\<close> is the last frame up to \<open>hi\<close> and not before \<open>lo\<close> that holds page \<open>pg\<close>, or 0.\<close>

definition last_frame :: "u32 list \<Rightarrow> nat \<Rightarrow> nat \<Rightarrow> u32 \<Rightarrow> nat \<Rightarrow> bool" where
  "last_frame log lo hi pg r \<longleftrightarrow>
    (if r = 0 then \<forall>f. 1 \<le> f \<and> lo \<le> f \<and> f \<le> hi \<longrightarrow> log ! (f - 1) \<noteq> pg
     else lo \<le> r \<and> r \<le> hi \<and> log ! (r - 1) = pg \<and> (\<forall>f. r < f \<and> f \<le> hi \<longrightarrow> log ! (f - 1) \<noteq> pg))"

lemma iZero_mono: "s \<le> t \<Longrightarrow> iZero s \<le> iZero t"
  by (cases s; cases t) (simp_all add: iZero_eq)

text \<open>The search of one table in terms of the log.\<close>

lemma find_table_log:
  assumes inv: "wal_inv w log" and m: "m \<le> length log" and t: "iZero t < m" and lo: "lo < 2 ^ 31"
  shows "\<exists>r. find_probe (page_at w t) (of_nat m) (of_nat lo) (iZero t) pg (walHash pg) HASHTABLE_NSLOT 0 = Some (of_nat r) \<and>
    r < 2 ^ 31 \<and> (r = 0 \<and> (\<forall>f. iZero t < f \<and> lo \<le> f \<and> f \<le> min m (iZero t + cap t) \<longrightarrow> log ! (f - 1) \<noteq> pg) \<or>
      iZero t < r \<and> lo \<le> r \<and> r \<le> min m (iZero t + cap t) \<and> log ! (r - 1) = pg \<and>
      (\<forall>f. r < f \<and> f \<le> min m (iZero t + cap t) \<longrightarrow> log ! (f - 1) \<noteq> pg))"
proof -
  have l: "length log < 2 ^ 31" using inv by (simp add: wal_inv_def)
  have c: "cap t \<le> 4096" by (simp add: cap_eq)
  obtain hw where map: "mapped w t" and ok: "wal_table_ok t (page_at w t) (ents log t) hw" using inv_table [OF inv, of t] t m by auto
  have hw: "hw \<le> cap t" "length (aPgno (page_at w t)) = cap t" "length (ents log t) \<le> hw" "take (length (ents log t)) (aPgno (page_at w t)) = ents log t"
    "slots_ok (aHash (page_at w t)) (take hw (aPgno (page_at w t)))" using ok by (simp_all add: wal_table_ok_def page_sizes_def)
  have ent: "i < hw \<and> aPgno (page_at w t) ! i = log ! (iZero t + i)" if "i < cap t" "iZero t + i < m" for i
  proof -
    have "i < length (ents log t)" using that m by (simp add: ents_length)
    then have "i < hw" "aPgno (page_at w t) ! i = ents log t ! i" using hw(3) arg_cong [OF hw(4), of "\<lambda>x. x ! i"] by simp_all
    moreover have "ents log t ! i = log ! (iZero t + i)" using that m by (simp add: ents_def)
    ultimately show ?thesis by simp
  qed
  obtain r where r: "find_probe (page_at w t) (of_nat m) (of_nat lo) (iZero t) pg (walHash pg) HASHTABLE_NSLOT 0 = Some r"
    and cases: "r = 0 \<and> (\<forall>i<hw. lo \<le> iZero t + i + 1 \<longrightarrow> iZero t + i + 1 \<le> m \<longrightarrow> aPgno (page_at w t) ! i \<noteq> pg) \<or>
      (\<exists>i<hw. r = of_nat (iZero t + i + 1) \<and> lo \<le> iZero t + i + 1 \<and> iZero t + i + 1 \<le> m \<and> aPgno (page_at w t) ! i = pg \<and>
        (\<forall>j<hw. i < j \<longrightarrow> iZero t + j + 1 \<le> m \<longrightarrow> aPgno (page_at w t) ! j \<noteq> pg))"
    using find_table [OF hw(5), of "iZero t" m "of_nat lo" pg lo] hw(1,2) c t m l lo by (auto simp: NSLOT)
  from cases show ?thesis
  proof
    assume n: "r = 0 \<and> (\<forall>i<hw. lo \<le> iZero t + i + 1 \<longrightarrow> iZero t + i + 1 \<le> m \<longrightarrow> aPgno (page_at w t) ! i \<noteq> pg)"
    have "log ! (f - 1) \<noteq> pg" if "iZero t < f" "lo \<le> f" "f \<le> m" "f \<le> iZero t + cap t" for f
    proof -
      obtain i where f: "f = iZero t + i + 1" using \<open>iZero t < f\<close> less_imp_Suc_add by auto
      then show ?thesis using n ent [of i] that by auto
    qed
    then show ?thesis using r n by (intro exI [of _ 0]) simp
  next
    assume "\<exists>i<hw. r = of_nat (iZero t + i + 1) \<and> lo \<le> iZero t + i + 1 \<and> iZero t + i + 1 \<le> m \<and> aPgno (page_at w t) ! i = pg \<and>
        (\<forall>j<hw. i < j \<longrightarrow> iZero t + j + 1 \<le> m \<longrightarrow> aPgno (page_at w t) ! j \<noteq> pg)"
    then obtain i where i: "i < hw" "r = of_nat (iZero t + i + 1)" "lo \<le> iZero t + i + 1" "iZero t + i + 1 \<le> m" "aPgno (page_at w t) ! i = pg"
        "\<forall>j<hw. i < j \<longrightarrow> iZero t + j + 1 \<le> m \<longrightarrow> aPgno (page_at w t) ! j \<noteq> pg" by blast
    have "log ! (f - 1) \<noteq> pg" if "iZero t + i + 1 < f" "f \<le> m" "f \<le> iZero t + cap t" for f
    proof -
      obtain j where f: "f = iZero t + j + 1" using \<open>iZero t + i + 1 < f\<close> less_imp_Suc_add [of "iZero t" f] by auto
      then show ?thesis using i(6) ent [of j] that by auto
    qed
    moreover have "log ! (iZero t + i) = pg" using ent [of i] i hw(1) by simp
    ultimately show ?thesis using r i hw(1) m l by (intro exI [of _ "iZero t + i + 1"]) auto
  qed
qed

lemma find_tables_correct:
  assumes inv: "wal_inv w log" and m: "mxFrame (hdr w) = of_nat m" "m \<le> length log" and lo: "minFrame w = of_nat lo" "lo < 2 ^ 31"
  shows "iZero t < m \<Longrightarrow> \<exists>r. find_tables env w pg t (table_of lo) = (SQLITE_OK, of_nat r, w) \<and> last_frame log lo (min m (iZero t + cap t)) pg r"
proof (induction t)
  case 0
  have map: "mapped w 0" using inv_table [OF inv, of 0] 0 m by simp
  obtain r where r: "find_probe (page_at w 0) (of_nat m) (of_nat lo) (iZero 0) pg (walHash pg) HASHTABLE_NSLOT 0 = Some (of_nat r)" "r < 2 ^ 31"
    "r = 0 \<and> (\<forall>f. iZero 0 < f \<and> lo \<le> f \<and> f \<le> min m (iZero 0 + cap 0) \<longrightarrow> log ! (f - 1) \<noteq> pg) \<or>
      iZero 0 < r \<and> lo \<le> r \<and> r \<le> min m (iZero 0 + cap 0) \<and> log ! (r - 1) = pg \<and>
      (\<forall>f. r < f \<and> f \<le> min m (iZero 0 + cap 0) \<longrightarrow> log ! (f - 1) \<noteq> pg)"
    using find_table_log [OF inv m(2) 0 lo(2)] by blast
  show ?case
  proof (cases "0 < table_of lo")
    case True
    then have "1 \<le> lo" by (cases lo) (simp_all add: table_of_def)
    then have "iZero 0 + cap 0 < lo" using table_of_bounds [of lo] iZero_mono [of 1 "table_of lo"] True iZero_Suc [of 0] by simp
    then show ?thesis using True by (intro exI [of _ 0]) (auto simp: find_tables.simps last_frame_def)
  next
    case False
    have "find_tables env w pg 0 (table_of lo) = (SQLITE_OK, of_nat r, w)"
      using r(1) False m(1) lo(1) hashget_mapped [OF map, of env] by (simp add: find_tables.simps)
    moreover have "last_frame log lo (min m (iZero 0 + cap 0)) pg r"
      using r(3) by (auto simp: last_frame_def iZero_def Suc_le_eq)
    ultimately show ?thesis by blast
  qed
next
  case (Suc t)
  have map: "mapped w (Suc t)" using inv_table [OF inv, of "Suc t"] Suc.prems m by simp
  obtain r where r: "find_probe (page_at w (Suc t)) (of_nat m) (of_nat lo) (iZero (Suc t)) pg (walHash pg) HASHTABLE_NSLOT 0 = Some (of_nat r)" "r < 2 ^ 31"
    "r = 0 \<and> (\<forall>f. iZero (Suc t) < f \<and> lo \<le> f \<and> f \<le> min m (iZero (Suc t) + cap (Suc t)) \<longrightarrow> log ! (f - 1) \<noteq> pg) \<or>
      iZero (Suc t) < r \<and> lo \<le> r \<and> r \<le> min m (iZero (Suc t) + cap (Suc t)) \<and> log ! (r - 1) = pg \<and>
      (\<forall>f. r < f \<and> f \<le> min m (iZero (Suc t) + cap (Suc t)) \<longrightarrow> log ! (f - 1) \<noteq> pg)"
    using find_table_log [OF inv m(2) Suc.prems lo(2)] by blast
  have t: "iZero t < m" "min m (iZero t + cap t) = iZero (Suc t)" using Suc.prems by (simp_all add: iZero_Suc)
  obtain q where q: "find_tables env w pg t (table_of lo) = (SQLITE_OK, of_nat q, w)" "last_frame log lo (iZero (Suc t)) pg q"
    using Suc.IH [OF t(1)] t(2) by auto
  show ?case
  proof (cases "Suc t < table_of lo")
    case True
    then have "1 \<le> lo" by (cases lo) (simp_all add: table_of_def)
    then have "iZero (Suc t) + cap (Suc t) < lo"
      using table_of_bounds [of lo] iZero_mono [of "Suc (Suc t)" "table_of lo"] True iZero_Suc [of "Suc t"] by simp
    then show ?thesis using True by (intro exI [of _ 0]) (auto simp: find_tables.simps last_frame_def)
  next
    case False
    have f: "find_tables env w pg (Suc t) (table_of lo) = (if of_nat r \<noteq> (0 :: u32) then (SQLITE_OK, of_nat r, w) else find_tables env w pg t (table_of lo))"
      using r(1) False m(1) lo(1) hashget_mapped [OF map, of env] by (simp add: find_tables.simps [of env w pg "Suc t"])
    show ?thesis
    proof (cases "r = 0")
      case True
      have "last_frame log lo (min m (iZero (Suc t) + cap (Suc t))) pg q"
      proof (cases "q = 0")
        case q0: True
        then have "log ! (f - 1) \<noteq> pg" if "1 \<le> f" "lo \<le> f" "f \<le> min m (iZero (Suc t) + cap (Suc t))" for f
          using q(2) r(3) True that by (cases "f \<le> iZero (Suc t)") (auto simp: last_frame_def)
        then show ?thesis using q0 by (simp add: last_frame_def)
      next
        case False
        then have "log ! (f - 1) \<noteq> pg" if "q < f" "f \<le> min m (iZero (Suc t) + cap (Suc t))" for f
          using q(2) r(3) True that by (cases "f \<le> iZero (Suc t)") (auto simp: last_frame_def)
        then show ?thesis using q(2) False Suc.prems by (auto simp: last_frame_def)
      qed
      then show ?thesis using f q(1) True by auto
    next
      case False
      then have "of_nat r \<noteq> (0 :: u32)" using unat_u32 [of r] r(2) by auto
      moreover have "last_frame log lo (min m (iZero (Suc t) + cap (Suc t))) pg r" using r(3) False by (auto simp: last_frame_def)
      ultimately show ?thesis using f by auto
    qed
  qed
qed

lemma inv_cong: "apWiData w' = apWiData w \<Longrightarrow> wal_inv w' log = wal_inv w log"
  by (simp add: wal_inv_def mapped_def page_at_def)

lemma exact_cong: "apWiData w' = apWiData w \<Longrightarrow> exact w' log = exact w log"
  by (simp add: exact_def page_at_def)

text \<open>A reader sees the log up to its own last frame, whatever has been appended behind it.\<close>

lemma find_frame:
  assumes inv: "wal_inv w log" and m: "mxFrame (hdr w) = of_nat m" "m \<le> length log" and lo: "minFrame w = of_nat lo" "lo < 2 ^ 31"
    and r: "readLock w \<noteq> 0 \<or> bShmUnreliable w"
  shows "\<exists>r. walFindFrame env w pg = (SQLITE_OK, of_nat r, w) \<and> last_frame log lo m pg r"
proof (cases "m = 0")
  case True
  then show ?thesis using m by (intro exI [of _ 0]) (auto simp: walFindFrame_def last_frame_def)
next
  case False
  have l: "m < 2 ^ 31" using inv m(2) by (auto simp: wal_inv_def)
  then have m0: "mxFrame (hdr w) \<noteq> 0" using m(1) False unat_u32 [of m] by auto
  have t: "iZero (table_of m) < m" "min m (iZero (table_of m) + cap (table_of m)) = m" using table_of_bounds [of m] False by auto
  have "walFindFrame env w pg = find_tables env w pg (walFramePage (mxFrame (hdr w))) (walFramePage (minFrame w))"
    using m0 r by (auto simp: walFindFrame_def)
  also have "\<dots> = find_tables env w pg (table_of m) (table_of lo)"
    by (simp only: m(1) lo(1) walFramePage_of_nat [OF l] walFramePage_of_nat [OF lo(2)])
  finally show ?thesis using find_tables_correct [OF inv m lo t(1), of env pg] t(2) by simp
qed

section \<open>Histories\<close>

lemma frame_fields:
  assumes "w' = w\<lparr>apWiData := x\<rparr>"
  shows "hdr w' = hdr w" "aHdr w' = aHdr w" "nCkpt w' = nCkpt w" "writeLock w' = writeLock w" "exclusiveMode w' = exclusiveMode w"
  by (simp_all add: assms)

lemma append_frames_inv:
  assumes "env_ok env"
  shows "wal_inv w log \<Longrightarrow> mxFrame (hdr w) = of_nat m \<Longrightarrow> m \<le> length log \<Longrightarrow> m = length log \<or> exact w log \<Longrightarrow>
    0 \<notin> set ps \<Longrightarrow> length log + length ps < 2 ^ 31 \<Longrightarrow> append_frames env w (of_nat (length log)) ps = (rc, f, w') \<Longrightarrow>
    w' = w\<lparr>apWiData := apWiData w'\<rparr> \<and> (rc = SQLITE_OK \<longrightarrow> f = of_nat (length log + length ps) \<and> wal_inv w' (log @ ps)) \<and>
    (rc \<noteq> SQLITE_OK \<longrightarrow> wal_inv w' log \<and> (\<exists>v t. rc = fst (walHashGet env v t) \<and> exclusiveMode v = exclusiveMode w))"
proof (induction ps arbitrary: w log)
  case (Cons p ps)
  obtain rc1 w1 where a: "walIndexAppend env w (of_nat (length log + 1)) p = (rc1, w1)" by force
  have p: "length log + 1 < 2 ^ 31" "p \<noteq> 0" using Cons.prems by auto
  note ap = append_inv [OF Cons.prems(1) assms p Cons.prems(2-4) a]
  have a1: "walIndexAppend env w (of_nat (length log) + 1) p = (rc1, w1)" using a by (simp add: add.commute)
  have m1: "mxFrame (hdr w1) = of_nat m" "exclusiveMode w1 = exclusiveMode w" using Cons.prems(2) frame_fields [OF ap(1)] by simp_all
  show ?case
  proof (cases "rc1 = SQLITE_OK")
    case True
    have "append_frames env w1 (of_nat (length (log @ [p]))) ps = (rc, f, w')"
      using Cons.prems(7) a1 True by (simp add: add.commute)
    then have "w' = w1\<lparr>apWiData := apWiData w'\<rparr> \<and> (rc = SQLITE_OK \<longrightarrow> f = of_nat (length (log @ [p]) + length ps) \<and> wal_inv w' ((log @ [p]) @ ps)) \<and>
      (rc \<noteq> SQLITE_OK \<longrightarrow> wal_inv w' (log @ [p]) \<and> (\<exists>v t. rc = fst (walHashGet env v t) \<and> exclusiveMode v = exclusiveMode w1))"
      using ap(2) [OF True] m1 Cons.prems by (intro Cons.IH) auto
    moreover have "wal_inv w' (log @ [p]) \<Longrightarrow> wal_inv w' log" using inv_take [of w' "log @ [p]" "length log"] by simp
    ultimately show ?thesis using ap(1) m1(2) by (metis Wal.surjective Wal.update_convs(9) append.assoc append_Cons append_Nil length_append_singleton add_Suc add_Suc_right length_Cons)
  next
    case False
    then show ?thesis using ap(1,3) Cons.prems(7) a1 by auto
  qed
qed simp

text \<open>
  The abstract machine: the pages of the valid frames, how many of them are published in the shared header, and
  the checkpoint counter.
\<close>

record wal_log =
  frames :: "u32 list"
  published :: nat
  generation :: u32

datatype wal_op =
  Frames "u32 list" u32 bool
| Undo "u32 \<Rightarrow> nat"
| Savepoint_undo wal_savepoint
| Restart u32

fun wal_do :: "wal_env \<Rightarrow> wal_op \<Rightarrow> Wal \<Rightarrow> nat \<times> Wal" where
  "wal_do env (Frames ps n c) w = walFrames_index env w ps n c"
| "wal_do env (Undo xUndo) w = (case sqlite3WalUndo env w xUndo of (rc, ps, w) \<Rightarrow> (rc, w))"
| "wal_do env (Savepoint_undo sv) w = (SQLITE_OK, snd (sqlite3WalSavepointUndo env w sv))"
| "wal_do env (Restart salt) w = (SQLITE_OK, walRestartHdr w salt)"

text \<open>The effect of an operation that returned \<open>rc\<close>.\<close>

fun log_do :: "nat \<Rightarrow> wal_op \<Rightarrow> wal_log \<Rightarrow> wal_log" where
  "log_do rc (Frames ps n c) a =
    (if rc \<noteq> SQLITE_OK then a
     else a\<lparr>frames := frames a @ ps, published := (if c then length (frames a @ ps) else published a)\<rparr>)"
| "log_do rc (Undo xUndo) a = a\<lparr>frames := take (published a) (frames a)\<rparr>"
| "log_do rc (Savepoint_undo sv) a =
    a\<lparr>frames := take (if sv_nCkpt sv \<noteq> generation a then 0 else unat (sv_mxFrame sv)) (frames a)\<rparr>"
| "log_do rc (Restart salt) a = \<lparr>frames = [], published = 0, generation = generation a + 1\<rparr>"

text \<open>What the callers guarantee: page numbers are not 0, the log has less than 2^31 frames, and a savepoint is not older than the transaction.\<close>

fun op_ok :: "wal_log \<Rightarrow> wal_op \<Rightarrow> bool" where
  "op_ok a (Frames ps n c) = (0 \<notin> set ps \<and> length (frames a) + length ps < 2 ^ 31)"
| "op_ok a (Savepoint_undo sv) = (published a \<le> (if sv_nCkpt sv \<noteq> generation a then 0 else unat (sv_mxFrame sv)))"
| "op_ok a _ = True"

definition wal_rel :: "Wal \<Rightarrow> wal_log \<Rightarrow> bool" where
  "wal_rel w a \<longleftrightarrow> wal_inv w (frames a) \<and> mxFrame (hdr w) = of_nat (length (frames a)) \<and>
    mxFrame (fst (aHdr w)) = of_nat (published a) \<and> published a \<le> length (frames a) \<and> nCkpt w = generation a \<and> writeLock w"

lemma frames_rel:
  assumes rel: "wal_rel w a" and env: "env_ok env" and ok: "op_ok a (Frames ps n c)" and run: "walFrames_index env w ps n c = (rc, w')"
  shows "wal_rel w' (log_do rc (Frames ps n c) a)"
    "rc \<noteq> SQLITE_OK \<Longrightarrow> \<exists>v t. rc = fst (walHashGet env v t) \<and> exclusiveMode v = exclusiveMode w"
proof -
  obtain rc1 f w1 where a: "append_frames env w (mxFrame (hdr w)) ps = (rc1, f, w1)" by (metis prod_cases3)
  have r: "wal_inv w (frames a)" "mxFrame (hdr w) = of_nat (length (frames a))" "mxFrame (fst (aHdr w)) = of_nat (published a)"
    "published a \<le> length (frames a)" "nCkpt w = generation a" "writeLock w" using rel by (simp_all add: wal_rel_def)
  have ap: "w1 = w\<lparr>apWiData := apWiData w1\<rparr>" "rc1 = SQLITE_OK \<Longrightarrow> f = of_nat (length (frames a) + length ps) \<and> wal_inv w1 (frames a @ ps)"
    "rc1 \<noteq> SQLITE_OK \<Longrightarrow> wal_inv w1 (frames a) \<and> (\<exists>v t. rc1 = fst (walHashGet env v t) \<and> exclusiveMode v = exclusiveMode w)"
    using append_frames_inv [OF env r(1,2) le_refl _ _ _ a [unfolded r(2)]] ok by auto
  note w1 = frame_fields [OF ap(1)]
  have rc: "rc = rc1" using run a by (auto simp: walFrames_index_def Let_def split: if_splits)
  show "rc \<noteq> SQLITE_OK \<Longrightarrow> \<exists>v t. rc = fst (walHashGet env v t) \<and> exclusiveMode v = exclusiveMode w" using ap(3) rc by blast
  show "wal_rel w' (log_do rc (Frames ps n c) a)"
  proof (cases "rc1 = SQLITE_OK")
    case False
    then have "w' = w1" using run a by (simp add: walFrames_index_def)
    then show ?thesis using False rc ap(3) r w1 by (simp add: wal_rel_def)
  next
    case True
    then have w': "apWiData w' = apWiData w1" "mxFrame (hdr w') = f" "nCkpt w' = nCkpt w1" "writeLock w' = writeLock w1"
      "mxFrame (fst (aHdr w')) = (if c then f else mxFrame (fst (aHdr w1)))"
      using run a by (cases c; auto simp: walFrames_index_def walIndexWriteHdr_def Let_def)+
    have "wal_inv w' (frames a @ ps)" using ap(2) [OF True] inv_cong [OF w'(1)] by simp
    then show ?thesis using True rc ap(2) [OF True] r w1 w' by (simp add: wal_rel_def)
  qed
qed

lemma pgno_of_frame:
  assumes inv: "wal_inv w log" and f: "1 \<le> f" "f \<le> length log"
  shows "walFramePgno w (of_nat f) = log ! (f - 1)"
proof -
  define t where "t = table_of f"
  have l: "f < 2 ^ 31" using inv f by (auto simp: wal_inv_def)
  have t: "iZero t < f" "f \<le> iZero t + cap t" using table_of_bounds [OF f(1)] by (simp_all add: t_def)
  have fp: "walFramePage (of_nat f) = t" using walFramePage_of_nat [OF l] by (simp add: t_def)
  obtain hw where "wal_table_ok t (page_at w t) (ents log t) hw" using inv_table [OF inv, of t] t f by auto
  then have e: "take (length (ents log t)) (aPgno (page_at w t)) = ents log t" by (simp add: wal_table_ok_def)
  define i where "i = f - iZero t - 1"
  have i: "i < length (ents log t)" "f - 1 = iZero t + i" "f = iZero t + i + 1" using t f by (auto simp: i_def ents_length)
  have main: "aPgno (page_at w t) ! i = log ! (f - 1)"
    using arg_cong [OF e, of "\<lambda>x. x ! i"] i t f by (simp add: ents_def)
  show ?thesis
  proof (cases "t = 0")
    case True
    have "(of_nat f - 1 :: u32) = of_nat (f - 1)" using f by (simp add: of_nat_diff)
    then have "unat (of_nat f - 1 :: u32) = f - 1" using l by (simp add: unat_u32 del: of_nat_diff)
    moreover have "i = f - 1" using True by (simp add: i_def iZero_def)
    ultimately have "aPgno (page_at w 0) ! unat (of_nat f - 1 :: u32) = log ! (f - 1)" using main True by (simp only:)
    moreover have "walFramePgno w (of_nat f) = aPgno (page_at w 0) ! unat (of_nat f - 1 :: u32)"
      unfolding walFramePgno_def fp using True by simp
    ultimately show ?thesis by simp
  next
    case False
    have "(of_nat f - 1 - of_nat HASHTABLE_NPAGE_ONE :: u32) = of_nat (f - 1 - 4062)"
      using t iZero_mono [of 1 t] False by (simp add: of_nat_diff sizes iZero_def)
    then have "unat ((of_nat f - 1 - of_nat HASHTABLE_NPAGE_ONE) mod of_nat HASHTABLE_NPAGE :: u32) = (f - 1 - 4062) mod 4096"
      using l by (simp add: unat_mod_distrib unat_u32 sizes del: of_nat_diff)
    also have "f - 1 - 4062 = (t - 1) * 4096 + i" using i False by (simp add: iZero_def sizes)
    also have "((t - 1) * 4096 + i) mod 4096 = i" using i(1) False by (simp add: ents_length cap_eq)
    finally show ?thesis using main False by (simp add: walFramePgno_def fp)
  qed
qed

lemma undo_pages:
  assumes "wal_inv w log" "hi \<le> length log" "1 \<le> lo"
  shows "undo_loop (\<lambda>p. SQLITE_OK) w (map of_nat [lo..<hi + 1]) = (SQLITE_OK, drop (lo - 1) (take hi log))"
  using assms(2,3)
proof (induction "hi + 1 - lo" arbitrary: lo)
  case 0
  then show ?case by simp
next
  case (Suc k)
  then have u: "[lo..<hi + 1] = lo # [lo + 1..<hi + 1]" by (simp add: upt_rec)
  have "undo_loop (\<lambda>p. SQLITE_OK) w (map of_nat [lo + 1..<hi + 1]) = (SQLITE_OK, drop (lo + 1 - 1) (take hi log))"
    using Suc by (intro Suc.hyps(1)) auto
  moreover have "drop (lo - 1) (take hi log) = log ! (lo - 1) # drop lo (take hi log)"
    using Suc.hyps(2) Suc.prems Cons_nth_drop_Suc [of "lo - 1" "take hi log"] by simp
  moreover have "walFramePgno w (of_nat lo) = log ! (lo - 1)" using pgno_of_frame [OF assms(1), of lo] Suc by simp
  ultimately show ?case unfolding u by (simp del: upt_Suc)
qed

lemma undo_rel:
  assumes rel: "wal_rel w a" and env: "env_ok env" and run: "sqlite3WalUndo env w xUndo = (rc, ps, w')"
  shows "wal_rel w' (log_do rc (Undo xUndo) a)"
    "xUndo = (\<lambda>p. SQLITE_OK) \<Longrightarrow> rc = SQLITE_OK \<and> ps = drop (published a) (frames a)"
proof -
  have r: "wal_inv w (frames a)" "mxFrame (hdr w) = of_nat (length (frames a))" "mxFrame (fst (aHdr w)) = of_nat (published a)"
    "published a \<le> length (frames a)" "nCkpt w = generation a" "writeLock w" using rel by (simp_all add: wal_rel_def)
  have l: "length (frames a) < 2 ^ 31" using r(1) by (simp add: wal_inv_def)
  define w1 where "w1 = w\<lparr>hdr := fst (aHdr w)\<rparr>"
  have inv1: "wal_inv w1 (frames a)" using r(1) inv_cong [of w1 w] by (simp add: w1_def)
  have m1: "mxFrame (hdr w1) = of_nat (published a)" by (simp add: w1_def r(3))
  note cl = cleanup_inv [OF inv1 m1 r(4) env]
  define w2 where "w2 = (if mxFrame (hdr w) \<noteq> mxFrame (hdr w1) then walCleanupHash env w1 else w1)"
  have u: "w' = w2\<lparr>iReCksum := 0\<rparr>"
    "(rc, ps) = undo_loop xUndo w1 (map of_nat [published a + 1..<length (frames a) + 1])"
    using run r l by (auto simp: sqlite3WalUndo_def w1_def [symmetric] w2_def Let_def split_beta unat_u32 m1)
  have w2: "wal_inv w2 (take (published a) (frames a))" "hdr w2 = hdr w1" "aHdr w2 = aHdr w1" "nCkpt w2 = nCkpt w1" "writeLock w2 = writeLock w1"
  proof -
    show "wal_inv w2 (take (published a) (frames a))" using cl(1) inv_take [OF inv1] by (simp add: w2_def)
    show "hdr w2 = hdr w1" "aHdr w2 = aHdr w1" "nCkpt w2 = nCkpt w1" "writeLock w2 = writeLock w1"
      using frame_fields [OF cl(3)] by (simp_all add: w2_def)
  qed
  have "wal_inv w' (take (published a) (frames a))" using w2(1) inv_cong [of w' w2] u(1) by simp
  then show "wal_rel w' (log_do rc (Undo xUndo) a)"
    using w2 u(1) r m1 by (simp add: wal_rel_def w1_def min.absorb2)
  show "rc = SQLITE_OK \<and> ps = drop (published a) (frames a)" if "xUndo = (\<lambda>p. SQLITE_OK)"
    using u(2) undo_pages [OF inv1 le_refl, of "published a + 1"] that by simp
qed

lemma savepoint_rel:
  assumes rel: "wal_rel w a" and env: "env_ok env" and ok: "op_ok a (Savepoint_undo sv)" and run: "sqlite3WalSavepointUndo env w sv = (sv', w')"
  shows "wal_rel w' (log_do rc (Savepoint_undo sv) a)"
proof -
  have r: "wal_inv w (frames a)" "mxFrame (hdr w) = of_nat (length (frames a))" "mxFrame (fst (aHdr w)) = of_nat (published a)"
    "published a \<le> length (frames a)" "nCkpt w = generation a" "writeLock w" using rel by (simp_all add: wal_rel_def)
  have l: "length (frames a) < 2 ^ 31" using r(1) by (simp add: wal_inv_def)
  define sv1 where "sv1 = (if sv_nCkpt sv \<noteq> nCkpt w then sv\<lparr>sv_mxFrame := 0, sv_nCkpt := nCkpt w\<rparr> else sv)"
  define k where "k = unat (sv_mxFrame sv1)"
  have k: "k = (if sv_nCkpt sv \<noteq> generation a then 0 else unat (sv_mxFrame sv))" "sv_mxFrame sv1 = of_nat k"
    by (simp_all add: k_def sv1_def r(5))
  have pk: "published a \<le> k" using ok k(1) by simp
  have log: "log_do rc (Savepoint_undo sv) a = a\<lparr>frames := take k (frames a)\<rparr>" by (simp add: k(1))
  show ?thesis
  proof (cases "k < length (frames a)")
    case False
    then have "\<not> sv_mxFrame sv1 < mxFrame (hdr w)" using r(2) l by (simp add: word_less_nat_alt unat_u32 k_def)
    then have "w' = w" using run by (simp add: sqlite3WalSavepointUndo_def Let_def sv1_def [symmetric])
    moreover have "log_do rc (Savepoint_undo sv) a = a" using False by (simp only: log) simp
    ultimately show ?thesis using rel by (simp only:)
  next
    case True
    then have lt: "sv_mxFrame sv1 < mxFrame (hdr w)" using r(2) l by (simp add: word_less_nat_alt unat_u32 k_def)
    define w1 where "w1 = w\<lparr>hdr := (hdr w)\<lparr>mxFrame := sv_mxFrame sv1, aFrameCksum := sv_cksum sv1\<rparr>\<rparr>"
    have inv1: "wal_inv w1 (frames a)" using r(1) inv_cong [of w1 w] by (simp add: w1_def)
    have m1: "mxFrame (hdr w1) = of_nat k" by (simp add: w1_def k(2))
    have kl: "k \<le> length (frames a)" using True by simp
    note cl = cleanup_inv [OF inv1 m1 kl env]
    define w2 where "w2 = walCleanupHash env w1"
    note f = frame_fields [OF cl(3), folded w2_def]
    have "w' = (if mxFrame (hdr w2) < iReCksum w2 then w2\<lparr>iReCksum := 0\<rparr> else w2)"
      using run lt by (simp add: sqlite3WalSavepointUndo_def Let_def sv1_def [symmetric] w1_def [symmetric] w2_def del: if_split_asm) metis
    then have w': "apWiData w' = apWiData w2" "hdr w' = hdr w2" "aHdr w' = aHdr w2" "nCkpt w' = nCkpt w2" "writeLock w' = writeLock w2" by auto
    have "wal_inv w' (take k (frames a))" using cl(1) inv_cong [OF w'(1)] by (simp add: w2_def)
    then show ?thesis unfolding log using w' f r m1 pk kl by (simp add: wal_rel_def w1_def min.absorb2)
  qed
qed

lemma restart_rel:
  assumes rel: "wal_rel w a" shows "wal_rel (walRestartHdr w salt) (log_do rc (Restart salt) a)"
proof -
  have w: "apWiData (walRestartHdr w salt) = apWiData w" "mxFrame (hdr (walRestartHdr w salt)) = 0" "mxFrame (fst (aHdr (walRestartHdr w salt))) = 0"
    "nCkpt (walRestartHdr w salt) = nCkpt w + 1" "writeLock (walRestartHdr w salt) = writeLock w" by (simp_all add: walRestartHdr_def walIndexWriteHdr_def Let_def)
  have "wal_inv w (take 0 (frames a))" using rel by (intro inv_take) (simp add: wal_rel_def)
  then have "wal_inv (walRestartHdr w salt) []" using inv_cong [OF w(1)] by simp
  then show ?thesis using w rel by (simp add: wal_rel_def)
qed

section \<open>Histories\<close>

text \<open>One operation, whatever the allocator answers; a failed one reports what the allocator or the VFS did.\<close>

lemma wal_do_rel:
  assumes "wal_rel w a" "env_ok env" "op_ok a p" "wal_do env p w = (rc, w')"
  shows "wal_rel w' (log_do rc p a)"
proof (cases p)
  case (Frames ps n c)
  then show ?thesis using frames_rel(1) [of w a env ps n c rc w'] assms by simp
next
  case (Undo xUndo)
  obtain rc1 ps w1 where u: "sqlite3WalUndo env w xUndo = (rc1, ps, w1)" by (metis prod_cases3)
  then have "rc1 = rc" "w1 = w'" using assms(4) Undo by simp_all
  then show ?thesis using undo_rel(1) [OF assms(1,2) u] Undo by simp
next
  case (Savepoint_undo sv)
  obtain sv1 w1 where u: "sqlite3WalSavepointUndo env w sv = (sv1, w1)" by force
  then have "w1 = w'" using assms(4) Savepoint_undo by simp
  then show ?thesis using savepoint_rel [OF assms(1,2) _ u, of rc] assms(3) Savepoint_undo by simp
next
  case (Restart salt)
  then show ?thesis using restart_rel [OF assms(1), of salt rc] assms(4) by simp
qed

interpretation wal_machine: implementation wal_do log_do op_ok env_ok wal_rel
  by unfold_locales (rule wal_do_rel)

text \<open>A connection that holds the write lock on an empty log; no page of the index is mapped.\<close>

definition wal_start :: "Wal \<Rightarrow> bool" where
  "wal_start w \<longleftrightarrow> apWiData w = [] \<and> mxFrame (hdr w) = 0 \<and> mxFrame (fst (aHdr w)) = 0 \<and> nCkpt w = 0 \<and> writeLock w"

definition empty_log :: wal_log where "empty_log = \<lparr>frames = [], published = 0, generation = 0\<rparr>"

lemma start_rel: "wal_start w \<Longrightarrow> wal_rel w empty_log"
  by (simp add: wal_start_def wal_rel_def empty_log_def wal_inv_def ents_def mapped_def)

lemmas run_rel = wal_machine.history [OF start_rel]

lemma hashget_rc:
  "grow_ok env \<Longrightarrow> (\<And>i. \<exists>pg. shm_map env i = (SQLITE_OK, Some pg)) \<Longrightarrow> fst (walHashGet env w t) = SQLITE_OK"
proof -
  assume g: "grow_ok env" "\<And>i. \<exists>pg. shm_map env i = (SQLITE_OK, Some pg)"
  obtain pg where "shm_map env t = (SQLITE_OK, Some pg)" using g(2) by blast
  then show ?thesis using g(1)
    by (auto simp: walHashGet_def walIndexPage_def mapped_def Let_def SQLITE_OK_def SQLITE_READONLY_def split: if_splits)
qed

section \<open>Properties\<close>

text \<open>
  C7. After any history of frame writes, rollbacks, savepoint rollbacks and restarts on an empty log, whatever the
  allocator and the VFS answered, the index stands for the abstract log: each valid frame has the page it was
  written for, \<open>mxFrame\<close> counts them and the shared header has the published ones.
\<close>

theorem wal_history:
  assumes "wal_start w" "\<forall>(env, p) \<in> set ps. env_ok env" "run_ops wal_do ps w = (rcs, w')" "ops_ok log_do op_ok rcs ps empty_log"
  defines "a \<equiv> spec_run log_do rcs ps empty_log"
  shows "mxFrame (hdr w') = of_nat (length (frames a)) \<and> mxFrame (fst (aHdr w')) = of_nat (published a) \<and>
    published a \<le> length (frames a) \<and> length (frames a) < 2 ^ 31 \<and> nCkpt w' = generation a \<and>
    (\<forall>f. 1 \<le> f \<and> f \<le> length (frames a) \<longrightarrow> walFramePgno w' (of_nat f) = frames a ! (f - 1))"
proof -
  have "wal_rel w' a" unfolding a_def using run_rel [OF assms(1-4)] .
  then show ?thesis using pgno_of_frame by (auto simp: wal_rel_def wal_inv_def)
qed

definition fresh_env :: wal_env where
  "fresh_env = \<lparr>grow_ok = True, shm_map = \<lambda>i. (0, Some \<lparr>aPgno = replicate (cap i) 0, aHash = replicate HASHTABLE_NSLOT 0\<rparr>)\<rparr>"

definition new_hdr :: WalIndexHdr where
  "new_hdr = \<lparr>iVersion = 0, iChange = 0, isInit = 0, bigEndCksum = 0, hszPage = 0, mxFrame = 0, nPage = 0, aFrameCksum = (0, 0),
    aSalt = [1, 2, 3, 4, 5, 6, 7, 8], aCksum = (0, 0)\<rparr>"

definition new_wal :: Wal where
  "new_wal = \<lparr>szPage = 4096, readLock = 1, exclusiveMode = 0, bShmUnreliable = False, hdr = new_hdr, minFrame = 1, iReCksum = 0,
    nCkpt = 0, apWiData = [], aHdr = (new_hdr, new_hdr), nBackfill = 0, nBackfillAttempted = 0, aReadMark = [0, 0, 0, 0, 0],
    writeLock = True, ckptLock = 0, truncateOnCommit = True, mxWalSize = -1, syncHeader = False,
    padToSectorBoundary = False, iCallback = 0\<rparr>"

lemma new_wal_start: "wal_start new_wal"
  by (simp add: wal_start_def new_wal_def new_hdr_def)

lemma fresh_env_ok: "env_ok fresh_env" "grow_ok fresh_env" "\<exists>pg. shm_map fresh_env i = (SQLITE_OK, Some pg)"
  by (auto simp: env_ok_def fresh_env_def page_sizes_def SQLITE_OK_def)

text \<open>A commit of two pages, a write of one of them again and a rollback.\<close>

definition sample_ops :: "(wal_env \<times> wal_op) list" where
  "sample_ops = [(fresh_env, Frames [5, 7] 9 True), (fresh_env, Frames [5] 0 False)]"

lemma sample_run: "run_ops wal_do sample_ops new_wal = ([0, 0], snd (run_ops wal_do sample_ops new_wal))"
proof -
  obtain rc1 w1 where a: "wal_do fresh_env (Frames [5, 7] 9 True) new_wal = (rc1, w1)" by force
  obtain rc2 w2 where b: "wal_do fresh_env (Frames [5] 0 False) w1 = (rc2, w2)" by force
  have ok: "op_ok empty_log (Frames [5, 7] 9 True)" by (simp add: empty_log_def)
  have rc1: "rc1 = 0"
    using frames_rel(2) [OF start_rel [OF new_wal_start] fresh_env_ok(1) ok] a hashget_rc [OF fresh_env_ok(2,3)]
    by (fastforce simp: SQLITE_OK_def)
  have rel: "wal_rel w1 (log_do rc1 (Frames [5, 7] 9 True) empty_log)"
    using wal_do_rel [OF start_rel [OF new_wal_start] fresh_env_ok(1) ok a] .
  have ok2: "op_ok (log_do rc1 (Frames [5, 7] 9 True) empty_log) (Frames [5] 0 False)" by (simp add: empty_log_def)
  have "rc2 = 0"
    using frames_rel(2) [OF rel fresh_env_ok(1) ok2] b hashget_rc [OF fresh_env_ok(2,3)] by (fastforce simp: SQLITE_OK_def)
  then show ?thesis using a b rc1 by (simp add: sample_ops_def)
qed

lemma sample_ok: "\<forall>(env, p) \<in> set sample_ops. env_ok env" "ops_ok log_do op_ok [0, 0] sample_ops empty_log"
  "spec_run log_do [0, 0] sample_ops empty_log = \<lparr>frames = [5, 7, 5], published = 2, generation = 0\<rparr>"
  by (simp_all add: sample_ops_def empty_log_def fresh_env_ok SQLITE_OK_def)

lemma wal_history_witness:
  "walFramePgno (snd (run_ops wal_do sample_ops new_wal)) 2 = 7 \<and> walFramePgno (snd (run_ops wal_do sample_ops new_wal)) 3 = 5"
  using wal_history [OF new_wal_start sample_ok(1) sample_run sample_ok(2)] unfolding sample_ok(3)
  by (auto dest: spec [of _ 2] spec [of _ 3])

text \<open>
  C3. A reader whose snapshot is the first \<open>m\<close> frames of the log finds for every page the last of these frames, not
  before its \<open>minFrame\<close>, that holds the page, and 0 when there is none; frames appended later do not change that.
\<close>

theorem wal_find_latest:
  assumes "wal_start w" "\<forall>(env, p) \<in> set ps. env_ok env" "run_ops wal_do ps w = (rcs, w')" "ops_ok log_do op_ok rcs ps empty_log"
    and "m \<le> length (frames (spec_run log_do rcs ps empty_log))" "lo < 2 ^ 31" "rl \<noteq> 0" "mxFrame h = of_nat m"
  shows "\<exists>r. walFindFrame env (w'\<lparr>hdr := h, minFrame := of_nat lo, readLock := rl\<rparr>) pg =
      (SQLITE_OK, of_nat r, w'\<lparr>hdr := h, minFrame := of_nat lo, readLock := rl\<rparr>) \<and>
    last_frame (frames (spec_run log_do rcs ps empty_log)) lo m pg r"
proof -
  have "wal_inv w' (frames (spec_run log_do rcs ps empty_log))" using run_rel [OF assms(1-4)] by (simp add: wal_rel_def)
  then have "wal_inv (w'\<lparr>hdr := h, minFrame := of_nat lo, readLock := rl\<rparr>) (frames (spec_run log_do rcs ps empty_log))"
    by (subst inv_cong) simp_all
  then show ?thesis using assms by (intro find_frame) auto
qed

lemma wal_find_latest_witness:
  "fst (snd (walFindFrame fresh_env (snd (run_ops wal_do sample_ops new_wal)\<lparr>hdr := new_hdr\<lparr>mxFrame := 2\<rparr>, minFrame := 1, readLock := 1\<rparr>) 5)) = 1"
  (is "fst (snd (walFindFrame _ ?r 5)) = 1")
proof -
  obtain r where f: "walFindFrame fresh_env ?r 5 = (SQLITE_OK, of_nat r, ?r)" and l: "last_frame [5, 7, 5] 1 2 (5 :: u32) r"
    using wal_find_latest [OF new_wal_start sample_ok(1) sample_run sample_ok(2), of 2 1 1 "new_hdr\<lparr>mxFrame := 2\<rparr>" fresh_env 5]
    unfolding sample_ok(3) by auto
  have "r = 0 \<or> r = 1 \<or> r = 2" using l by (auto simp: last_frame_def split: if_splits)
  moreover have "r \<noteq> 0"
  proof
    assume "r = 0"
    then have "\<forall>f. 1 \<le> f \<and> 1 \<le> f \<and> f \<le> 2 \<longrightarrow> [5, 7, 5] ! (f - 1) \<noteq> (5 :: u32)" using l by (simp add: last_frame_def)
    then show False by (elim allE [of _ 1]) simp
  qed
  ultimately have "r = 1" using l by (auto simp: last_frame_def)
  then show ?thesis by (simp add: f)
qed

text \<open>
  C27. A rollback calls \<open>xUndo\<close> for the pages of the frames after the last commit, in the order of the frames, and
  leaves the published part of the log.
\<close>

theorem wal_undo_exact:
  assumes "wal_start w" "\<forall>(env, p) \<in> set ps. env_ok env" "run_ops wal_do ps w = (rcs, w')" "ops_ok log_do op_ok rcs ps empty_log" "env_ok env"
  defines "a \<equiv> spec_run log_do rcs ps empty_log"
  shows "\<exists>w''. sqlite3WalUndo env w' (\<lambda>p. SQLITE_OK) = (SQLITE_OK, drop (published a) (frames a), w'') \<and>
    wal_rel w'' (a\<lparr>frames := take (published a) (frames a)\<rparr>)"
proof -
  have rel: "wal_rel w' a" unfolding a_def using run_rel [OF assms(1-4)] .
  obtain rc qs w'' where u: "sqlite3WalUndo env w' (\<lambda>p. SQLITE_OK) = (rc, qs, w'')" by (metis prod_cases3)
  show ?thesis using undo_rel [OF rel assms(5) u] u by simp
qed

lemma wal_undo_exact_witness:
  "fst (snd (sqlite3WalUndo fresh_env (snd (run_ops wal_do sample_ops new_wal)) (\<lambda>p. SQLITE_OK))) = [5]"
  using wal_undo_exact [OF new_wal_start sample_ok(1) sample_run sample_ok(2) fresh_env_ok(1)] unfolding sample_ok(3) by auto

text \<open>
  C28. Writing frames never runs out of slots: when the array of pages can grow and each page of the index is mapped,
  the write succeeds after any history.
\<close>

theorem wal_frames_succeed:
  assumes "wal_start w" "\<forall>(env, p) \<in> set ps. env_ok env" "run_ops wal_do ps w = (rcs, w')" "ops_ok log_do op_ok rcs ps empty_log"
    and "env_ok env" "grow_ok env" "\<And>i. \<exists>pg. shm_map env i = (SQLITE_OK, Some pg)" "op_ok (spec_run log_do rcs ps empty_log) (Frames pgs n c)"
  shows "fst (walFrames_index env w' pgs n c) = SQLITE_OK"
proof (rule ccontr)
  have rel: "wal_rel w' (spec_run log_do rcs ps empty_log)" using run_rel [OF assms(1-4)] .
  obtain rc w'' where f: "walFrames_index env w' pgs n c = (rc, w'')" by force
  assume "fst (walFrames_index env w' pgs n c) \<noteq> SQLITE_OK"
  then show False using frames_rel(2) [OF rel assms(5,8) f] hashget_rc [OF assms(6,7)] f by auto
qed

lemma wal_frames_succeed_witness:
  "fst (walFrames_index fresh_env (snd (run_ops wal_do sample_ops new_wal)) [7, 8] 9 True) = SQLITE_OK"
  using wal_frames_succeed [OF new_wal_start sample_ok(1) sample_run sample_ok(2) fresh_env_ok, of "[7, 8]" 9 True]
  unfolding sample_ok(3) by simp

end
