(* ===== verification/WalRecover.thy ===== *)
theory WalRecover
  imports WalLog
begin

text \<open>
  Recovery of the write-ahead log (\<open>walIndexRecover\<close> of \<open>wal.c\<close>): the index is built again from the log file.
\<close>

section \<open>The model\<close>

definition SQLITE_BUSY :: nat where "SQLITE_BUSY = 5"
definition SQLITE_CANTOPEN :: nat where "SQLITE_CANTOPEN = 14"
definition SQLITE_MAX_PAGE_SIZE :: int where "SQLITE_MAX_PAGE_SIZE = 65536"
definition WAL_ALL_BUT_WRITE :: nat where "WAL_ALL_BUT_WRITE = 1"
definition WAL_READ_LOCK :: "nat \<Rightarrow> nat" where "WAL_READ_LOCK i = 3 + i"

text \<open>
  What the VFS and the allocator answer: locks, the size of the log file, reads of a number of bytes at an
  offset, the buffer for a frame, and what the private copy of a page of the index holds before it is filled.
\<close>

record recover_env =
  index :: wal_env
  shm_lock :: "nat \<Rightarrow> nat \<Rightarrow> nat"
  file_size :: "nat \<times> nat"
  read_at :: "nat \<Rightarrow> nat \<Rightarrow> nat \<times> u8 list"
  alloc_frame :: bool
  private_page :: "nat \<Rightarrow> index_page"

definition walLockExclusive :: "recover_env \<Rightarrow> Wal \<Rightarrow> nat \<Rightarrow> nat \<Rightarrow> nat" where
  "walLockExclusive env pWal lockIdx n = (if exclusiveMode pWal \<noteq> 0 then SQLITE_OK else shm_lock env lockIdx n)"

definition walFrameOffset :: "nat \<Rightarrow> nat \<Rightarrow> nat" where
  "walFrameOffset iFrame sz = WAL_HDRSIZE + (iFrame - 1) * (sz + WAL_FRAME_HDRSIZE)"

text \<open>
  The frames \<open>fs\<close> of a page of the index, with \<open>aFrameCksum\<close> of the last commit: the result code, whether the loop
  came to its end, the checksum and the state.
\<close>

fun recover_frames :: "recover_env \<Rightarrow> nat \<Rightarrow> nat list \<Rightarrow> nat \<Rightarrow> u32 \<times> u32 \<Rightarrow> Wal \<Rightarrow> nat \<times> bool \<times> (u32 \<times> u32) \<times> Wal" where
  "recover_frames env sz [] rc ck pWal = (rc, True, ck, pWal)"
| "recover_frames env sz (iFrame # fs) rc ck pWal =
    (case read_at env (sz + WAL_FRAME_HDRSIZE) (walFrameOffset iFrame sz) of (rc, aFrame) \<Rightarrow>
      if rc \<noteq> SQLITE_OK then (rc, False, ck, pWal)
      else
        case walDecodeFrame pWal (drop WAL_FRAME_HDRSIZE aFrame) (take WAL_FRAME_HDRSIZE aFrame) of
          (None, pWal) \<Rightarrow> (rc, False, ck, pWal)
        | (Some (pgno, nTruncate), pWal) \<Rightarrow>
            (case walIndexAppend (index env) pWal (of_nat iFrame) pgno of (rc, pWal) \<Rightarrow>
              if rc \<noteq> SQLITE_OK then (rc, False, ck, pWal)
              else if nTruncate \<noteq> 0 then
                let pWal = pWal\<lparr>hdr := (hdr pWal)\<lparr>mxFrame := of_nat iFrame, nPage := nTruncate,
                      hszPage := ucast ((of_nat sz AND 0xff00) OR drop_bit 16 (of_nat sz) :: u32)\<rparr>\<rparr>
                in recover_frames env sz fs rc (aFrameCksum (hdr pWal)) pWal
              else recover_frames env sz fs rc ck pWal))"

text \<open>The loop over the pages of the index.\<close>

fun recover_pages :: "recover_env \<Rightarrow> nat \<Rightarrow> u32 \<Rightarrow> nat list \<Rightarrow> nat \<Rightarrow> u32 \<times> u32 \<Rightarrow> Wal \<Rightarrow> nat \<times> (u32 \<times> u32) \<times> Wal" where
  "recover_pages env sz iLastFrame [] rc ck pWal = (rc, ck, pWal)"
| "recover_pages env sz iLastFrame (iPg # ps) rc ck pWal =
    (let iLast = min iLastFrame (of_nat (HASHTABLE_NPAGE_ONE + iPg * HASHTABLE_NPAGE));
         iFirst = 1 + (if iPg = 0 then 0 else of_nat (HASHTABLE_NPAGE_ONE + (iPg - 1) * HASHTABLE_NPAGE) :: u32)
     in case walIndexPage (index env) pWal iPg of (rc, pWal) \<Rightarrow>
        if \<not> mapped pWal iPg then (rc, ck, pWal)
        else
          case recover_frames env sz [unat iFirst..<unat iLast + 1] rc ck (set_page pWal iPg (private_page env iPg)) of
            (rc, complete, ck, pWal) \<Rightarrow>
              if \<not> complete then (rc, ck, pWal) else recover_pages env sz iLastFrame ps rc ck pWal)"

text \<open>The read marks; a lock that fails otherwise than \<open>SQLITE_BUSY\<close> ends the loop.\<close>

fun recover_marks :: "recover_env \<Rightarrow> nat list \<Rightarrow> nat \<Rightarrow> Wal \<Rightarrow> nat \<times> Wal" where
  "recover_marks env [] rc pWal = (rc, pWal)"
| "recover_marks env (i # js) rc pWal =
    (let rc = walLockExclusive env pWal (WAL_READ_LOCK i) 1
     in if rc = SQLITE_OK then
          recover_marks env js rc
            (pWal\<lparr>aReadMark := (aReadMark pWal)[i := (if i = 1 \<and> mxFrame (hdr pWal) \<noteq> 0 then mxFrame (hdr pWal) else READMARK_NOT_USED)]\<rparr>)
        else if rc \<noteq> SQLITE_BUSY then (rc, pWal)
        else recover_marks env js rc pWal)"

definition recover_finish :: "recover_env \<Rightarrow> u32 \<times> u32 \<Rightarrow> Wal \<Rightarrow> nat \<times> Wal" where
  "recover_finish env ck pWal =
    (let pWal = walIndexWriteHdr (pWal\<lparr>hdr := (hdr pWal)\<lparr>aFrameCksum := ck\<rparr>\<rparr>);
         pWal = pWal\<lparr>nBackfill := 0, nBackfillAttempted := mxFrame (hdr pWal), aReadMark := (aReadMark pWal)[0 := 0]\<rparr>
     in recover_marks env [1..<WAL_NREADER] SQLITE_OK pWal)"

text \<open>The header of the log file is good for this library; the state keeps what was read before a test failed.\<close>

definition recover_file :: "recover_env \<Rightarrow> Wal \<Rightarrow> u8 list \<Rightarrow> nat \<Rightarrow> nat \<times> Wal" where
  "recover_file env pWal aBuf nSize =
    (let magic = get4 aBuf 0; szp = get4 aBuf 8
     in if magic AND 0xFFFFFFFE \<noteq> WAL_MAGIC \<or> szp AND (szp - 1) \<noteq> 0 \<or> SQLITE_MAX_PAGE_SIZE < sint szp \<or> sint szp < 512 then
          recover_finish env (0, 0) pWal
        else
          let ck = walChecksumBytes (magic AND 1 = 0) (take (WAL_HDRSIZE - 2 * 4) aBuf) None;
              pWal = pWal\<lparr>hdr := (hdr pWal)\<lparr>bigEndCksum := ucast (magic AND 1), aSalt := take 8 (drop 16 aBuf), aFrameCksum := ck\<rparr>,
                          szPage := szp, nCkpt := get4 aBuf 12\<rparr>
          in if fst ck \<noteq> get4 aBuf 24 \<or> snd ck \<noteq> get4 aBuf 28 then recover_finish env (0, 0) pWal
             else if get4 aBuf 4 \<noteq> WAL_MAX_VERSION then (SQLITE_CANTOPEN, pWal)
             else if \<not> alloc_frame env then (SQLITE_NOMEM, pWal)
             else
               let sz = unat szp; iLastFrame = of_nat ((nSize - WAL_HDRSIZE) div (sz + WAL_FRAME_HDRSIZE))
               in case recover_pages env sz iLastFrame [0..<walFramePage iLastFrame + 1] SQLITE_OK (0, 0) pWal of
                    (rc, ck, pWal) \<Rightarrow> if rc \<noteq> SQLITE_OK then (rc, pWal) else recover_finish env ck pWal)"

definition zero_hdr :: WalIndexHdr where
  "zero_hdr = \<lparr>iVersion = 0, iChange = 0, isInit = 0, bigEndCksum = 0, hszPage = 0, mxFrame = 0, nPage = 0, aFrameCksum = (0, 0),
    aSalt = replicate 8 0, aCksum = (0, 0)\<rparr>"

definition walIndexRecover :: "recover_env \<Rightarrow> Wal \<Rightarrow> nat \<times> Wal" where
  "walIndexRecover env pWal =
    (let iLock = WAL_ALL_BUT_WRITE + ckptLock pWal; rc = walLockExclusive env pWal iLock (WAL_READ_LOCK 0 - iLock)
     in if rc \<noteq> SQLITE_OK then (rc, pWal)
        else
          let pWal = pWal\<lparr>hdr := zero_hdr\<rparr>
          in case file_size env of (rc, nSize) \<Rightarrow>
               if rc \<noteq> SQLITE_OK then (rc, pWal)
               else if WAL_HDRSIZE < nSize then
                 (case read_at env WAL_HDRSIZE 0 of (rc, aBuf) \<Rightarrow>
                   if rc \<noteq> SQLITE_OK then (rc, pWal) else recover_file env pWal aBuf nSize)
               else recover_finish env (0, 0) pWal)"

section \<open>The frames of a log file\<close>

text \<open>
  The valid frames in front of a list of frames: page number, size after the commit (0 when the frame is none) and
  checksum.  A frame is valid when it has the salts of the header and its checksum continues that of its predecessor.
\<close>

type_synonym entry = "u32 \<times> u32 \<times> (u32 \<times> u32)"

definition frame_cksum :: "bool \<Rightarrow> u32 \<times> u32 \<Rightarrow> u8 list \<Rightarrow> u32 \<times> u32" where
  "frame_cksum native ck fr = walChecksumBytes native (drop WAL_FRAME_HDRSIZE fr) (Some (walChecksumBytes native (take 8 fr) (Some ck)))"

fun scan_log :: "u8 list \<Rightarrow> bool \<Rightarrow> u32 \<times> u32 \<Rightarrow> u8 list list \<Rightarrow> entry list" where
  "scan_log salt native ck [] = []"
| "scan_log salt native ck (fr # frs) =
    (let ck' = frame_cksum native ck fr
     in if take 8 (drop 8 fr) = salt \<and> get4 fr 0 \<noteq> 0 \<and> ck' = (get4 fr 16, get4 fr 20)
        then (get4 fr 0, get4 fr 4, ck') # scan_log salt native ck' frs else [])"

text \<open>The part up to the last commit.\<close>

definition committed :: "entry list \<Rightarrow> entry list" where
  "committed es = rev (dropWhile (\<lambda>(p, n, c). n = 0) (rev es))"

definition last_cksum :: "u32 \<times> u32 \<Rightarrow> entry list \<Rightarrow> u32 \<times> u32" where
  "last_cksum ck es = (if es = [] then ck else snd (snd (last es)))"

lemma committed_Nil [simp]: "committed [] = []"
  by (simp add: committed_def)

lemma committed_append [simp]: "committed (es @ [(p, n, c)]) = (if n = 0 then committed es else es @ [(p, n, c)])"
  by (simp add: committed_def)

lemma committed_prefix: "committed es = take (length (committed es)) es"
proof (induction es rule: rev_induct)
  case (snoc e es)
  moreover have "length (committed es) \<le> length es" using snoc by (metis length_take min.bounded_iff order_refl)
  ultimately show ?case by (cases e) simp
qed simp

lemma committed_length: "length (committed es) \<le> length es"
  using committed_prefix [of es] by (metis length_take min.bounded_iff order_refl)

lemma committed_uncommitted: "\<forall>(p, n, c) \<in> set fs. n = 0 \<Longrightarrow> committed (es @ fs) = committed es"
proof (induction fs rule: rev_induct)
  case (snoc e fs)
  then show ?case using committed_append [of "es @ fs"] by (cases e) simp
qed simp

lemma last_cksum_simps [simp]: "last_cksum c [] = c" "last_cksum c (es @ [(p, n, d)]) = d" "last_cksum c ((p, n, d) # es) = last_cksum d es"
  by (auto simp: last_cksum_def)

lemma last_cksum_append: "last_cksum c (es @ fs) = last_cksum (last_cksum c es) fs"
  by (simp add: last_cksum_def)

lemma scan_append: "scan_log s n c (xs @ ys) =
  (let es = scan_log s n c xs in if length es = length xs then es @ scan_log s n (last_cksum c es) ys else es)"
  by (induction xs arbitrary: c) (auto simp: Let_def)

lemma scan_length: "length (scan_log s n c frs) \<le> length frs"
  by (induction frs arbitrary: c) (auto simp: Let_def)

lemma get4_take: "k + 4 \<le> n \<Longrightarrow> get4 (take n z) k = get4 z k"
  by (simp add: get4_def sqlite3Get4byte_def)

lemma decode_scan:
  assumes "24 \<le> length fr"
  shows "walDecodeFrame w (drop WAL_FRAME_HDRSIZE fr) (take WAL_FRAME_HDRSIZE fr) =
    (let s = (take 8 (drop 8 fr) = aSalt (hdr w)); ck = frame_cksum (bigEndCksum (hdr w) = 0) (aFrameCksum (hdr w)) fr;
         w' = (if s \<and> get4 fr 0 \<noteq> 0 then w\<lparr>hdr := (hdr w)\<lparr>aFrameCksum := ck\<rparr>\<rparr> else w)
     in if s \<and> get4 fr 0 \<noteq> 0 \<and> ck = (get4 fr 16, get4 fr 20) then (Some (get4 fr 0, get4 fr 4), w') else (None, w'))"
proof -
  have "take 8 (drop 8 (take WAL_FRAME_HDRSIZE fr)) = take 8 (drop 8 fr)" "take 8 (take WAL_FRAME_HDRSIZE fr) = take 8 fr"
    by (simp_all add: WAL_FRAME_HDRSIZE_def drop_take)
  moreover have "get4 (take WAL_FRAME_HDRSIZE fr) k = get4 fr k" if "k \<le> 20" for k
    using that by (simp add: get4_take WAL_FRAME_HDRSIZE_def)
  ultimately show ?thesis
    by (cases "frame_cksum (bigEndCksum (hdr w) = 0) (aFrameCksum (hdr w)) fr") (auto simp: walDecodeFrame_def frame_cksum_def Let_def)
qed

definition rec_ok :: "Wal \<Rightarrow> entry list \<Rightarrow> bool" where
  "rec_ok w es \<longleftrightarrow> wal_inv w (map fst es) \<and> mxFrame (hdr w) = of_nat (length (committed es)) \<and>
    (length (committed es) = length es \<or> exact w (map fst es)) \<and>
    nPage (hdr w) = (if committed es = [] then 0 else fst (snd (last (committed es))))"

definition same_rest :: "Wal \<Rightarrow> Wal \<Rightarrow> bool" where
  "same_rest w w' \<longleftrightarrow> w' = w\<lparr>hdr := hdr w', apWiData := apWiData w'\<rparr> \<and>
    aSalt (hdr w') = aSalt (hdr w) \<and> bigEndCksum (hdr w') = bigEndCksum (hdr w)"

lemma same_rest_trans: "same_rest u v \<Longrightarrow> same_rest v w \<Longrightarrow> same_rest u w"
  by (cases u; cases v; cases w) (auto simp: same_rest_def)

text \<open>One frame that is entered.\<close>

lemma recover_step:
  assumes ok: "rec_ok w es" and env: "env_ok env" and l: "length es + 1 < 2 ^ 31" and p: "p \<noteq> 0"
    and map: "mapped w (table_of (length es + 1))"
    and c: "w1 = w\<lparr>hdr := (hdr w)\<lparr>aFrameCksum := ck\<rparr>\<rparr>"
  obtains w2 where "walIndexAppend env w1 (of_nat (length es + 1)) p = (SQLITE_OK, w2)" "mapped w2 (table_of (length es + 1))"
    "wal_inv w2 (map fst (es @ [(p, n, ck)]))" "exact w2 (map fst (es @ [(p, n, ck)]))" "w2 = w1\<lparr>apWiData := apWiData w2\<rparr>"
proof -
  obtain rc w2 where a: "walIndexAppend env w1 (of_nat (length (map fst es) + 1)) p = (rc, w2)" by force
  have eq: "apWiData w1 = apWiData w" by (simp add: c)
  have o: "wal_inv w1 (map fst es)" "mxFrame (hdr w1) = of_nat (length (committed es))" "length (committed es) \<le> length (map fst es)"
    "length (committed es) = length (map fst es) \<or> exact w1 (map fst es)" "mapped w1 (table_of (length (map fst es) + 1))"
    using ok map committed_length [of es] inv_cong [OF eq] exact_cong [OF eq] by (auto simp: rec_ok_def c mapped_def)
  note ap = append_inv [OF o(1) env _ p o(2-4) a]
  have "rc = SQLITE_OK" using ap(3) hashget_mapped [OF o(5), of env] l by auto
  moreover from this have "wal_inv w2 (map fst es @ [p])" "exact w2 (map fst es @ [p])" "w2 = w1\<lparr>apWiData := apWiData w2\<rparr>" using ap(1,2) l by auto
  moreover from this(1) have "mapped w2 (table_of (length es + 1))"
    using inv_table [of w2 "map fst es @ [p]" "table_of (length es + 1)"] table_of_bounds [of "length es + 1"] by simp
  ultimately show thesis using a that by simp
qed

lemma recover_frames_ok:
  assumes env: "env_ok (index env)"
  shows "rec_ok w es \<Longrightarrow> aFrameCksum (hdr w) = last_cksum c es \<Longrightarrow> mapped w t \<Longrightarrow>
    \<forall>f. length es < f \<and> f \<le> length es + k \<longrightarrow> table_of f = t \<Longrightarrow> length es + k < 2 ^ 31 \<Longrightarrow>
    \<forall>f. length es < f \<and> f \<le> length es + k \<longrightarrow> 24 \<le> length (fr f) \<and>
      read_at env (sz + WAL_FRAME_HDRSIZE) (walFrameOffset f sz) = (SQLITE_OK, fr f) \<Longrightarrow>
    es' = scan_log (aSalt (hdr w)) (bigEndCksum (hdr w) = 0) (last_cksum c es) (map fr [length es + 1..<length es + 1 + k]) \<Longrightarrow>
    \<exists>w'. recover_frames env sz [length es + 1..<length es + 1 + k] SQLITE_OK (last_cksum (0, 0) (committed es)) w =
        (SQLITE_OK, length es' = k, last_cksum (0, 0) (committed (es @ es')), w') \<and>
      rec_ok w' (es @ es') \<and> same_rest w w' \<and> (length es' = k \<longrightarrow> aFrameCksum (hdr w') = last_cksum c (es @ es'))"
proof (induction k arbitrary: w es es')
  case 0
  then show ?case by (simp add: same_rest_def)
next
  case (Suc k)
  note [simp del] = upt_Suc
  define i where "i = length es + 1"
  have u: "[i..<i + Suc k] = i # [i + 1..<i + 1 + k]" by (simp add: upt_conv_Cons)
  have fr: "24 \<le> length (fr i)" "read_at env (sz + WAL_FRAME_HDRSIZE) (walFrameOffset i sz) = (SQLITE_OK, fr i)" "table_of i = t"
    using Suc.prems(4,6) by (auto simp: i_def)
  define ck where "ck = frame_cksum (bigEndCksum (hdr w) = 0) (last_cksum c es) (fr i)"
  define w1 where "w1 = w\<lparr>hdr := (hdr w)\<lparr>aFrameCksum := ck\<rparr>\<rparr>"
  define s where "s = (take 8 (drop 8 (fr i)) = aSalt (hdr w) \<and> get4 (fr i) 0 \<noteq> 0)"
  have dec: "walDecodeFrame w (drop WAL_FRAME_HDRSIZE (fr i)) (take WAL_FRAME_HDRSIZE (fr i)) =
    (if s \<and> ck = (get4 (fr i) 16, get4 (fr i) 20) then (Some (get4 (fr i) 0, get4 (fr i) 4), w1) else (None, if s then w1 else w))"
    using decode_scan [OF fr(1), of w] Suc.prems(2) by (simp add: Let_def s_def ck_def w1_def)
  note es = Suc.prems(7) [folded i_def, unfolded u list.map]
  show ?case
  proof (cases "s \<and> ck = (get4 (fr i) 16, get4 (fr i) 20)")
    case False
    then have "es' = []" using es by (auto simp: s_def ck_def [symmetric] Let_def)
    moreover have "rec_ok (if s then w1 else w) es" "same_rest w (if s then w1 else w)"
      using Suc.prems(1) inv_cong [of w1 w] exact_cong [of w1 w] by (auto simp: rec_ok_def w1_def same_rest_def)
    ultimately show ?thesis using False fr dec unfolding i_def [symmetric] u by auto
  next
    case True
    define e where "e = (get4 (fr i) 0, get4 (fr i) 4, ck)"
    define es2 where "es2 = scan_log (aSalt (hdr w)) (bigEndCksum (hdr w) = 0) ck (map fr [i + 1..<i + 1 + k])"
    have es': "es' = e # es2" using es True by (simp add: s_def ck_def [symmetric] Let_def e_def es2_def)
    have p: "get4 (fr i) 0 \<noteq> 0" using True by (simp add: s_def)
    have "length es + 1 < 2 ^ 31" "mapped w (table_of (length es + 1))" using Suc.prems(3,5) fr(3) by (simp_all add: i_def)
    then obtain w2 where w2: "walIndexAppend (index env) w1 (of_nat i) (get4 (fr i) 0) = (SQLITE_OK, w2)" "mapped w2 t"
      "wal_inv w2 (map fst (es @ [e]))" "exact w2 (map fst (es @ [e]))" "w2 = w1\<lparr>apWiData := apWiData w2\<rparr>"
      using recover_step [OF Suc.prems(1) env _ p _ w1_def, of "get4 (fr i) 4"] fr(3) unfolding i_def e_def by blast
    define w3 where "w3 = (if get4 (fr i) 4 \<noteq> 0 then w2\<lparr>hdr := (hdr w2)\<lparr>mxFrame := of_nat i, nPage := get4 (fr i) 4,
        hszPage := ucast ((of_nat sz AND 0xff00) OR drop_bit 16 (of_nat sz) :: u32)\<rparr>\<rparr> else w2)"
    have h2: "hdr w2 = (hdr w)\<lparr>aFrameCksum := ck\<rparr>" using frame_fields(1) [OF w2(5)] by (simp add: w1_def)
    have step: "recover_frames env sz (i # fs) SQLITE_OK (last_cksum (0, 0) (committed es)) w =
      recover_frames env sz fs SQLITE_OK (last_cksum (0, 0) (committed (es @ [e]))) w3" for fs
      using fr(2) dec True w2(1) h2 by (simp add: w3_def e_def)
    have a3: "apWiData w3 = apWiData w2" by (simp add: w3_def)
    have rec3: "rec_ok w3 (es @ [e])"
      using Suc.prems(1) w2(3,4) inv_cong [OF a3] exact_cong [OF a3] h2 unfolding rec_ok_def by (simp add: e_def w3_def i_def)
    have h3: "aFrameCksum (hdr w3) = ck" "aSalt (hdr w3) = aSalt (hdr w)" "bigEndCksum (hdr w3) = bigEndCksum (hdr w)"
      using h2 by (simp_all add: w3_def)
    have w13: "w3 = w\<lparr>hdr := hdr w3, apWiData := apWiData w3\<rparr>"
    proof -
      have "w2 = w\<lparr>hdr := hdr w2, apWiData := apWiData w2\<rparr>" by (subst w2(5)) (simp add: h2 w1_def)
      then show ?thesis unfolding w3_def by (cases w2) auto
    qed
    have "\<exists>w'. recover_frames env sz [length (es @ [e]) + 1..<length (es @ [e]) + 1 + k] SQLITE_OK (last_cksum (0, 0) (committed (es @ [e]))) w3 =
        (SQLITE_OK, length es2 = k, last_cksum (0, 0) (committed ((es @ [e]) @ es2)), w') \<and>
      rec_ok w' ((es @ [e]) @ es2) \<and> same_rest w3 w' \<and> (length es2 = k \<longrightarrow> aFrameCksum (hdr w') = last_cksum c ((es @ [e]) @ es2))"
    proof (rule Suc.IH [OF rec3])
      show "aFrameCksum (hdr w3) = last_cksum c (es @ [e])" using h3 by (simp add: e_def)
      show "mapped w3 t" using w2(2) a3 by (simp add: mapped_def)
      show "es2 = scan_log (aSalt (hdr w3)) (bigEndCksum (hdr w3) = 0) (last_cksum c (es @ [e])) (map fr [length (es @ [e]) + 1..<length (es @ [e]) + 1 + k])"
        using h3 by (simp add: es2_def e_def i_def)
    qed (use Suc.prems(4,5,6) in auto)
    then obtain w' where w': "recover_frames env sz [i + 1..<i + 1 + k] SQLITE_OK (last_cksum (0, 0) (committed (es @ [e]))) w3 =
        (SQLITE_OK, length es2 = k, last_cksum (0, 0) (committed (es @ es')), w')"
      "rec_ok w' (es @ es')" "same_rest w3 w'" "length es2 = k \<longrightarrow> aFrameCksum (hdr w') = last_cksum c (es @ es')"
      by (auto simp: i_def es')
    have "same_rest w w'" using same_rest_trans [OF _ w'(3)] w13 h3 by (simp add: same_rest_def)
    then show ?thesis using w' step unfolding i_def [symmetric] u by (intro exI [of _ w']) (simp add: es')
  qed
qed

definition env_good :: "wal_env \<Rightarrow> bool" where
  "env_good env \<longleftrightarrow> env_ok env \<and> grow_ok env \<and> (\<forall>i. \<exists>pg. shm_map env i = (SQLITE_OK, Some pg))"

lemma inv_open: "wal_inv w log \<Longrightarrow> mapped w t \<Longrightarrow> page_sizes t pg \<Longrightarrow> ents log t = [] \<Longrightarrow> wal_inv (set_page w t pg) log"
  by (auto simp: wal_inv_def)

lemma open_page:
  assumes ok: "rec_ok w es" and p: "length es = iZero p" and env: "env_good env" and s: "page_sizes p priv"
  obtains w1 where "walIndexPage env w p = (SQLITE_OK, w1)" "mapped w1 p" "rec_ok (set_page w1 p priv) es" "same_rest w (set_page w1 p priv)"
    "hdr (set_page w1 p priv) = hdr w" "mapped (set_page w1 p priv) p"
proof -
  obtain rc w1 where h: "walIndexPage env w p = (rc, w1)" by force
  have g: "walHashGet env w p = (fst (walHashGet env w p), w1)" by (simp add: walHashGet_def h)
  have e: "env_ok env" using env by (simp add: env_good_def)
  have "fst (walHashGet env w p) = SQLITE_OK" using env by (intro hashget_rc) (auto simp: env_good_def)
  then have hg: "walHashGet env w p = (SQLITE_OK, w1)" using g by simp
  note hh = hashget [OF hg]
  have m: "mapped w1 p" using hh(4) by simp
  have rc: "rc = SQLITE_OK" using hg h m by (simp add: walHashGet_def)
  have i: "wal_inv w (map fst es)" using ok by (simp add: rec_ok_def)
  have "ents (map fst es) p = []" by (simp add: ents_Nil p)
  then have inv1: "wal_inv (set_page w1 p priv) (map fst es)" using hashget_inv [OF hg e i] m s by (intro inv_open)
  have ex: "exact (set_page w1 p priv) (map fst es)" if "exact w (map fst es)"
  proof (cases "es = []")
    case False
    define t where "t = table_of (length es)"
    have t: "iZero t < length es" using table_of_bounds [of "length es"] False by (simp add: t_def Suc_le_eq)
    then have "t \<noteq> p" using p by auto
    moreover have "page_at w1 t = page_at w t" using inv_table [OF i, of t] t hh(2) by simp
    ultimately show ?thesis using that m False by (simp add: exact_def t_def)
  qed (simp add: exact_def)
  have h1: "hdr w1 = hdr w" by (rule frame_fields [OF hh(1)])
  have hs: "hdr (set_page w1 p priv) = hdr w" using h1 by (simp add: set_page_def)
  have "set_page w1 p priv = w\<lparr>hdr := hdr (set_page w1 p priv), apWiData := apWiData (set_page w1 p priv)\<rparr>"
    unfolding hs unfolding set_page_def by (subst hh(1)) simp
  then have "same_rest w (set_page w1 p priv)" by (simp add: same_rest_def h1)
  moreover have "rec_ok (set_page w1 p priv) es" using ok inv1 ex hs by (auto simp: rec_ok_def)
  ultimately show thesis using that h rc m hs by simp
qed

lemma iZero_le_table: "p \<le> table_of n \<Longrightarrow> iZero p \<le> n"
proof (cases "n = 0")
  case False
  assume "p \<le> table_of n"
  then show ?thesis using iZero_mono [of p "table_of n"] table_of_bounds [of n] False by simp
qed (simp add: table_of_def iZero_def)

text \<open>The pages of the index from \<open>p\<close> on.\<close>

lemma recover_pages_ok:
  assumes env: "env_good (index env)" and s: "\<And>p. page_sizes p (private_page env p)" and N: "N < 2 ^ 31"
    and fr: "\<And>f. 1 \<le> f \<Longrightarrow> f \<le> N \<Longrightarrow> 24 \<le> length (fr f) \<and> read_at env (sz + WAL_FRAME_HDRSIZE) (walFrameOffset f sz) = (SQLITE_OK, fr f)"
  shows "rec_ok w es \<Longrightarrow> aFrameCksum (hdr w) = last_cksum c es \<Longrightarrow> length es = iZero p \<Longrightarrow> p \<le> table_of N \<Longrightarrow>
    es' = scan_log (aSalt (hdr w)) (bigEndCksum (hdr w) = 0) (last_cksum c es) (map fr [iZero p + 1..<N + 1]) \<Longrightarrow>
    \<exists>w'. recover_pages env sz (of_nat N) [p..<table_of N + 1] SQLITE_OK (last_cksum (0, 0) (committed es)) w =
        (SQLITE_OK, last_cksum (0, 0) (committed (es @ es')), w') \<and> rec_ok w' (es @ es') \<and> same_rest w w'"
proof (induction "table_of N - p" arbitrary: w es es' p rule: less_induct)
  case less
  note [simp del] = upt_Suc
  have ee: "env_ok (index env)" using env by (simp add: env_good_def)
  obtain w1 where w1: "walIndexPage (index env) w p = (SQLITE_OK, w1)" "mapped w1 p" "rec_ok (set_page w1 p (private_page env p)) es"
    "same_rest w (set_page w1 p (private_page env p))" "hdr (set_page w1 p (private_page env p)) = hdr w" "mapped (set_page w1 p (private_page env p)) p"
    using open_page [OF less.prems(1,3) env s] by blast
  define w2 where "w2 = set_page w1 p (private_page env p)"
  define k where "k = min N (iZero (Suc p)) - iZero p"
  have le: "iZero p \<le> N" using iZero_le_table [OF less.prems(4)] .
  have k: "iZero p + k = min N (iZero (Suc p))" using le by (simp add: k_def iZero_Suc)
  have bounds: "iZero (Suc p) < 2 ^ 32"
    using le N by (simp add: iZero_Suc cap_eq)
  have last: "unat (min (of_nat N) (of_nat (HASHTABLE_NPAGE_ONE + p * HASHTABLE_NPAGE)) :: u32) = iZero p + k"
  proof -
    have "HASHTABLE_NPAGE_ONE + p * HASHTABLE_NPAGE = iZero (Suc p)" by (simp add: iZero_def)
    then show ?thesis using bounds N by (simp add: k min_def word_le_nat_alt unat_u32)
  qed
  have first: "unat (1 + (if p = 0 then 0 else of_nat (HASHTABLE_NPAGE_ONE + (p - 1) * HASHTABLE_NPAGE)) :: u32) = iZero p + 1"
  proof -
    have "(1 + (if p = 0 then 0 else of_nat (HASHTABLE_NPAGE_ONE + (p - 1) * HASHTABLE_NPAGE)) :: u32) = of_nat (iZero p + 1)"
      by (simp add: iZero_def)
    moreover have "unat (of_nat (iZero p + 1) :: u32) = iZero p + 1" using le N by (intro unat_u32) simp
    ultimately show ?thesis by (simp only:)
  qed
  have cons: "[p..<table_of N + 1] = p # [Suc p..<table_of N + 1]" using less.prems(4) by (simp add: upt_conv_Cons)
  define es1 where "es1 = scan_log (aSalt (hdr w2)) (bigEndCksum (hdr w2) = 0) (last_cksum c es) (map fr [length es + 1..<length es + 1 + k])"
  have "\<exists>w'. recover_frames env sz [length es + 1..<length es + 1 + k] SQLITE_OK (last_cksum (0, 0) (committed es)) w2 =
        (SQLITE_OK, length es1 = k, last_cksum (0, 0) (committed (es @ es1)), w') \<and>
      rec_ok w' (es @ es1) \<and> same_rest w2 w' \<and> (length es1 = k \<longrightarrow> aFrameCksum (hdr w') = last_cksum c (es @ es1))"
  proof (rule recover_frames_ok [OF ee _ _ _ _ _ _ es1_def])
    show "\<forall>f. length es < f \<and> f \<le> length es + k \<longrightarrow> table_of f = p"
      using less.prems(3) k by (auto intro!: table_of_unique simp: iZero_Suc)
    show "\<forall>f. length es < f \<and> f \<le> length es + k \<longrightarrow> 24 \<le> length (fr f) \<and>
      read_at env (sz + WAL_FRAME_HDRSIZE) (walFrameOffset f sz) = (SQLITE_OK, fr f)"
      using fr less.prems(3) k by auto
    show "length es + k < 2 ^ 31" using less.prems(3) k N by simp
  qed (use w1 less.prems(2) in \<open>simp_all add: w2_def\<close>)
  then obtain w3 where w3: "recover_frames env sz [iZero p + 1..<iZero p + k + 1] SQLITE_OK (last_cksum (0, 0) (committed es)) w2 =
        (SQLITE_OK, length es1 = k, last_cksum (0, 0) (committed (es @ es1)), w3)"
      "rec_ok w3 (es @ es1)" "same_rest w2 w3" "length es1 = k \<longrightarrow> aFrameCksum (hdr w3) = last_cksum c (es @ es1)"
    using less.prems(3) by auto
  have r3: "same_rest w w3" using same_rest_trans [OF _ w3(3)] w1(4) by (simp add: w2_def)
  have step: "recover_pages env sz (of_nat N) (p # qs) SQLITE_OK (last_cksum (0, 0) (committed es)) w =
    (if length es1 \<noteq> k then (SQLITE_OK, last_cksum (0, 0) (committed (es @ es1)), w3)
     else recover_pages env sz (of_nat N) qs SQLITE_OK (last_cksum (0, 0) (committed (es @ es1))) w3)" for qs
    unfolding recover_pages.simps Let_def last first w1(1) w2_def [symmetric] prod.case w3(1) using w1(2) by simp
  have u: "[iZero p + 1..<N + 1] = [iZero p + 1..<iZero p + 1 + k] @ [iZero p + k + 1..<N + 1]"
  proof -
    have "iZero p + k \<le> N" using k by simp
    then have "iZero p + 1 \<le> iZero p + 1 + k" "iZero p + 1 + k + (N - (iZero p + k)) = N + 1" by simp_all
    then show ?thesis using upt_add_eq_append [of "iZero p + 1" "iZero p + 1 + k" "N - (iZero p + k)"] by (simp add: ac_simps)
  qed
  have e1: "es1 = scan_log (aSalt (hdr w)) (bigEndCksum (hdr w) = 0) (last_cksum c es) (map fr [iZero p + 1..<iZero p + 1 + k])"
    using less.prems(3) w1(5) by (simp add: es1_def w2_def)
  have sc: "es' = (if length es1 = k then es1 @ scan_log (aSalt (hdr w)) (bigEndCksum (hdr w) = 0) (last_cksum c (es @ es1))
      (map fr [iZero p + k + 1..<N + 1]) else es1)"
  proof -
    have "length (map fr [iZero p + 1..<iZero p + 1 + k]) = k" by simp
    then show ?thesis unfolding less.prems(5) u map_append scan_append e1 [symmetric] Let_def by (simp only: last_cksum_append)
  qed
  show ?case
  proof (cases "length es1 = k \<and> p < table_of N")
    case False
    then have "es' = es1 \<and> (length es1 = k \<longrightarrow> [Suc p..<table_of N + 1] = [])"
    proof (cases "length es1 = k")
      case True
      then have "p = table_of N" using False less.prems(4) by simp
      then have "iZero p + k = N" using k table_of_bounds [of N] le by (cases "N = 0") (simp_all add: iZero_Suc table_of_def)
      then show ?thesis using sc True \<open>p = table_of N\<close> by simp
    qed (use sc in simp)
    then show ?thesis using w3 r3 unfolding cons step by auto
  next
    case True
    have "iZero (Suc p) \<le> N" using iZero_le_table [of "Suc p" N] True by simp
    then have kk: "iZero p + k = iZero (Suc p)" using k by simp
    define es2 where "es2 = scan_log (aSalt (hdr w3)) (bigEndCksum (hdr w3) = 0) (last_cksum c (es @ es1)) (map fr [iZero (Suc p) + 1..<N + 1])"
    have "table_of N - Suc p < table_of N - p" "aFrameCksum (hdr w3) = last_cksum c (es @ es1)" "length (es @ es1) = iZero (Suc p)" "Suc p \<le> table_of N"
      using True w3(4) less.prems(3) kk by auto
    from less.hyps [OF this(1) w3(2) this(2-4) es2_def] obtain w' where w':
      "recover_pages env sz (of_nat N) [Suc p..<table_of N + 1] SQLITE_OK (last_cksum (0, 0) (committed (es @ es1))) w3 =
        (SQLITE_OK, last_cksum (0, 0) (committed ((es @ es1) @ es2)), w')" "rec_ok w' ((es @ es1) @ es2)" "same_rest w3 w'"
      by blast
    have "es' = es1 @ es2" using sc True kk r3 by (simp add: es2_def same_rest_def)
    then show ?thesis using w' True same_rest_trans [OF r3 w'(3)] unfolding cons step by auto
  qed
qed

section \<open>The log file\<close>

text \<open>The VFS answers from the contents of one file, every lock is granted and every allocation succeeds.\<close>

definition recover_good :: "recover_env \<Rightarrow> u8 list \<Rightarrow> bool" where
  "recover_good env file \<longleftrightarrow> env_good (index env) \<and> (\<forall>p. page_sizes p (private_page env p)) \<and> alloc_frame env \<and>
    (\<forall>i n. shm_lock env i n = SQLITE_OK) \<and> file_size env = (SQLITE_OK, length file) \<and>
    (\<forall>n off. off + n \<le> length file \<longrightarrow> read_at env n off = (SQLITE_OK, take n (drop off file)))"

text \<open>The page size of a file whose header is good, and the checksum of the header.\<close>

definition header_ok :: "u8 list \<Rightarrow> bool" where
  "header_ok file \<longleftrightarrow> get4 file 0 AND 0xFFFFFFFE = WAL_MAGIC \<and> get4 file 8 AND (get4 file 8 - 1) = 0 \<and>
    sint (get4 file 8) \<le> 65536 \<and> 512 \<le> sint (get4 file 8) \<and>
    walChecksumBytes (get4 file 0 AND 1 = 0) (take 24 file) None = (get4 file 24, get4 file 28)"

definition file_frames :: "u8 list \<Rightarrow> u8 list list" where
  "file_frames file =
    (let sz = unat (get4 file 8)
     in map (\<lambda>f. take (sz + WAL_FRAME_HDRSIZE) (drop (walFrameOffset f sz) file))
          [1..<(length file - WAL_HDRSIZE) div (sz + WAL_FRAME_HDRSIZE) + 1])"

text \<open>The committed frames of the file.\<close>

definition file_log :: "u8 list \<Rightarrow> entry list" where
  "file_log file =
    (if length file \<le> WAL_HDRSIZE \<or> \<not> header_ok file then []
     else committed (scan_log (take 8 (drop 16 file)) (get4 file 0 AND 1 = 0) (get4 file 24, get4 file 28) (file_frames file)))"

lemma recover_marks_ok:
  "\<forall>i n. shm_lock env i n = SQLITE_OK \<Longrightarrow> \<exists>m. recover_marks env js SQLITE_OK w = (SQLITE_OK, w\<lparr>aReadMark := m\<rparr>)"
proof (induction js arbitrary: w)
  case Nil
  show ?case by (rule exI [of _ "aReadMark w"]) simp
next
  case (Cons j js)
  have "walLockExclusive env w (WAL_READ_LOCK j) 1 = SQLITE_OK" using Cons.prems by (simp add: walLockExclusive_def)
  then show ?case using Cons.IH [OF Cons.prems, of "w\<lparr>aReadMark := (aReadMark w)[j := x]\<rparr>" for x] by (simp add: Let_def)
qed

lemma recover_finish_ok:
  assumes env: "\<forall>i n. shm_lock env i n = SQLITE_OK" and rec: "rec_ok w es" and wl: "writeLock w"
  shows "\<exists>w'. recover_finish env ck w = (SQLITE_OK, w') \<and>
    wal_rel w' \<lparr>frames = map fst (committed es), published = length (committed es), generation = nCkpt w'\<rparr> \<and>
    hdr w' = fst (aHdr w') \<and> aFrameCksum (hdr w') = ck \<and> nPage (hdr w') = (if committed es = [] then 0 else fst (snd (last (committed es))))"
proof -
  define w1 where "w1 = walIndexWriteHdr (w\<lparr>hdr := (hdr w)\<lparr>aFrameCksum := ck\<rparr>\<rparr>)"
  obtain m where m: "recover_finish env ck w = (SQLITE_OK, w1\<lparr>nBackfill := 0, nBackfillAttempted := mxFrame (hdr w1), aReadMark := m\<rparr>)"
  proof -
    define v where "v = w1\<lparr>nBackfill := 0, nBackfillAttempted := mxFrame (hdr w1), aReadMark := (aReadMark w1)[0 := 0]\<rparr>"
    have "recover_finish env ck w = recover_marks env [1..<WAL_NREADER] SQLITE_OK v" by (simp add: recover_finish_def w1_def v_def Let_def)
    then show thesis using recover_marks_ok [OF env, of "[1..<WAL_NREADER]" v] that by (auto simp: v_def)
  qed
  have w1: "apWiData w1 = apWiData w" "hdr w1 = fst (aHdr w1)" "mxFrame (hdr w1) = mxFrame (hdr w)" "nPage (hdr w1) = nPage (hdr w)"
    "aFrameCksum (hdr w1) = ck" "writeLock w1 = writeLock w"
    by (simp_all add: w1_def walIndexWriteHdr_def Let_def)
  define w' where "w' = w1\<lparr>nBackfill := 0, nBackfillAttempted := mxFrame (hdr w1), aReadMark := m\<rparr>"
  have "map fst (committed es) = take (length (committed es)) (map fst es)"
    by (subst committed_prefix) (simp add: take_map)
  moreover have "wal_inv w (take (length (committed es)) (map fst es))" using rec by (intro inv_take) (simp add: rec_ok_def)
  ultimately have "wal_inv w (map fst (committed es))" by simp
  moreover have "apWiData w' = apWiData w" by (simp add: w'_def w1)
  ultimately have "wal_inv w' (map fst (committed es))" using inv_cong by blast
  then have "wal_rel w' \<lparr>frames = map fst (committed es), published = length (committed es), generation = nCkpt w'\<rparr>"
    using rec w1 wl by (simp add: wal_rel_def w'_def rec_ok_def)
  then show ?thesis using m w1 rec by (simp add: w'_def rec_ok_def)
qed

lemma rec_start: "wal_inv w [] \<Longrightarrow> mxFrame (hdr w) = 0 \<Longrightarrow> nPage (hdr w) = 0 \<Longrightarrow> rec_ok w []"
  by (simp add: rec_ok_def)

lemma frames_in_file:
  assumes "1 \<le> f" "f \<le> (length file - WAL_HDRSIZE) div (sz + WAL_FRAME_HDRSIZE)" "WAL_HDRSIZE \<le> length file"
  shows "walFrameOffset f sz + (sz + WAL_FRAME_HDRSIZE) \<le> length file"
proof -
  have "f * (sz + WAL_FRAME_HDRSIZE) \<le> (length file - WAL_HDRSIZE) div (sz + WAL_FRAME_HDRSIZE) * (sz + WAL_FRAME_HDRSIZE)"
    using assms(2) by (rule mult_le_mono1)
  also have "\<dots> \<le> length file - WAL_HDRSIZE" by (rule div_times_less_eq_dividend)
  finally have "f * (sz + WAL_FRAME_HDRSIZE) \<le> length file - WAL_HDRSIZE" .
  moreover have "f * (sz + WAL_FRAME_HDRSIZE) = (f - 1) * (sz + WAL_FRAME_HDRSIZE) + (sz + WAL_FRAME_HDRSIZE)"
    using assms(1) by (cases f) simp_all
  ultimately show ?thesis using assms(3) by (simp add: walFrameOffset_def)
qed

lemma low_bit: "(ucast (m AND 1 :: u32) :: u8) = 0 \<longleftrightarrow> m AND 1 = 0"
  by (cases "odd m") (simp_all add: and_one_eq mod_2_eq_odd)

lemma recover_log:
  assumes good: "recover_good env file" and wl: "writeLock w" and inv: "wal_inv w []"
    and version: "WAL_HDRSIZE < length file \<Longrightarrow> header_ok file \<Longrightarrow> get4 file 4 = WAL_MAX_VERSION"
    and size: "(length file - WAL_HDRSIZE) div (unat (get4 file 8) + WAL_FRAME_HDRSIZE) < 2 ^ 31"
  shows "\<exists>w'. walIndexRecover env w = (SQLITE_OK, w') \<and>
    wal_rel w' \<lparr>frames = map fst (file_log file), published = length (file_log file), generation = nCkpt w'\<rparr> \<and>
    hdr w' = fst (aHdr w') \<and> aFrameCksum (hdr w') = last_cksum (0, 0) (file_log file) \<and>
    nPage (hdr w') = (if file_log file = [] then 0 else fst (snd (last (file_log file))))"
proof -
  note g = good [unfolded recover_good_def]
  define w0 where "w0 = w\<lparr>hdr := zero_hdr\<rparr>"
  have lock: "walLockExclusive env w i n = SQLITE_OK" for i n using g by (simp add: walLockExclusive_def)
  have r0: "rec_ok w0 []" using inv inv_cong [of w0 w] by (intro rec_start) (simp_all add: w0_def zero_hdr_def)
  have wl0: "writeLock w0" using wl by (simp add: w0_def)
  note fin = recover_finish_ok [OF conjunct1 [OF conjunct2 [OF conjunct2 [OF conjunct2 [OF g]]]]]
  show ?thesis
  proof (cases "length file \<le> WAL_HDRSIZE")
    case True
    then have "walIndexRecover env w = recover_finish env (0, 0) w0" using lock g by (simp add: walIndexRecover_def w0_def Let_def)
    moreover have "file_log file = []" using True by (simp add: file_log_def)
    ultimately show ?thesis using fin [OF r0 wl0, of "(0, 0)"] by simp
  next
    case False
    define buf where "buf = take WAL_HDRSIZE file"
    have gb: "get4 buf k = get4 file k" if "k \<le> 28" for k using that by (simp add: buf_def get4_take WAL_HDRSIZE_def)
    have tb: "take 24 buf = take 24 file" "take 8 (drop 16 buf) = take 8 (drop 16 file)"
      by (simp_all add: buf_def WAL_HDRSIZE_def drop_take)
    have run: "walIndexRecover env w = recover_file env w0 buf (length file)"
      using lock g False by (simp add: walIndexRecover_def w0_def Let_def buf_def)
    define magic where "magic = get4 file 0"
    define szp where "szp = get4 file 8"
    define ck where "ck = walChecksumBytes (magic AND 1 = 0) (take 24 file) None"
    define w1 where "w1 = w0\<lparr>hdr := (hdr w0)\<lparr>bigEndCksum := ucast (magic AND 1), aSalt := take 8 (drop 16 file), aFrameCksum := ck\<rparr>,
      szPage := szp, nCkpt := get4 file 12\<rparr>"
    have r1: "rec_ok w1 []" using r0 inv_cong [of w1 w0] by (simp add: rec_ok_def w1_def)
    have wl1: "writeLock w1" using wl0 by (simp add: w1_def)
    define bad where "bad \<longleftrightarrow> magic AND 0xFFFFFFFE \<noteq> WAL_MAGIC \<or> szp AND (szp - 1) \<noteq> 0 \<or> 65536 < sint szp \<or> sint szp < 512"
    have rf: "recover_file env w0 buf (length file) =
      (if bad then recover_finish env (0, 0) w0
       else if ck \<noteq> (get4 file 24, get4 file 28) then recover_finish env (0, 0) w1
       else if get4 file 4 \<noteq> WAL_MAX_VERSION then (SQLITE_CANTOPEN, w1)
       else
         let N = (length file - WAL_HDRSIZE) div (unat szp + WAL_FRAME_HDRSIZE)
         in case recover_pages env (unat szp) (of_nat N) [0..<walFramePage (of_nat N) + 1] SQLITE_OK (0, 0) w1 of
              (rc, ck, w) \<Rightarrow> if rc \<noteq> SQLITE_OK then (rc, w) else recover_finish env ck w)"
      using g gb tb unfolding recover_file_def Let_def bad_def magic_def szp_def ck_def w1_def SQLITE_MAX_PAGE_SIZE_def
      by (simp add: WAL_HDRSIZE_def prod_eq_iff)
    have ok: "header_ok file \<longleftrightarrow> \<not> bad \<and> ck = (get4 file 24, get4 file 28)"
      by (auto simp: header_ok_def bad_def magic_def szp_def ck_def)
    show ?thesis
    proof (cases "header_ok file")
      case bad_hdr: False
      then have "file_log file = []" by (simp add: file_log_def)
      moreover have "\<exists>v. recover_file env w0 buf (length file) = recover_finish env (0, 0) v \<and> rec_ok v [] \<and> writeLock v"
        using bad_hdr ok rf r0 r1 wl0 wl1 by auto
      ultimately show ?thesis using fin [of _ "[]" "(0, 0)"] run by auto
    next
      case True
      define N where "N = (length file - WAL_HDRSIZE) div (unat szp + WAL_FRAME_HDRSIZE)"
      define fr where "fr f = take (unat szp + WAL_FRAME_HDRSIZE) (drop (walFrameOffset f (unat szp)) file)" for f
      define es where "es = scan_log (aSalt (hdr w1)) (bigEndCksum (hdr w1) = 0) (last_cksum (aFrameCksum (hdr w1)) []) (map fr [iZero 0 + 1..<N + 1])"
      have N: "N < 2 ^ 31" using size by (simp add: N_def szp_def)
      have frN: "24 \<le> length (fr f) \<and> read_at env (unat szp + WAL_FRAME_HDRSIZE) (walFrameOffset f (unat szp)) = (SQLITE_OK, fr f)"
        if "1 \<le> f" "f \<le> N" for f
      proof -
        have "walFrameOffset f (unat szp) + (unat szp + WAL_FRAME_HDRSIZE) \<le> length file"
          using frames_in_file [OF that(1) that(2) [unfolded N_def]] that False by (simp add: N_def)
        then show ?thesis using g by (simp add: fr_def add.commute WAL_FRAME_HDRSIZE_def)
      qed
      have "\<exists>w'. recover_pages env (unat szp) (of_nat N) [0..<table_of N + 1] SQLITE_OK (last_cksum (0, 0) (committed [])) w1 =
          (SQLITE_OK, last_cksum (0, 0) (committed ([] @ es)), w') \<and> rec_ok w' ([] @ es) \<and> same_rest w1 w'"
        by (rule recover_pages_ok [OF _ _ N frN r1 _ _ _ es_def]) (use g in \<open>simp_all add: iZero_def\<close>)
      then obtain w2 where w2: "recover_pages env (unat szp) (of_nat N) [0..<table_of N + 1] SQLITE_OK (0, 0) w1 =
          (SQLITE_OK, last_cksum (0, 0) (committed es), w2)" "rec_ok w2 es" "same_rest w1 w2" by auto
      have log: "file_log file = committed es"
        using True False ok low_bit [of magic] unfolding file_log_def es_def file_frames_def Let_def
        by (simp add: iZero_def w1_def fr_def [abs_def] N_def szp_def magic_def del: upt_Suc)
      have e: "w2 = w1\<lparr>hdr := hdr w2, apWiData := apWiData w2\<rparr>" using w2(3) by (simp add: same_rest_def)
      have "writeLock w2" by (subst e) (simp add: wl1)
      moreover have "walIndexRecover env w = recover_finish env (last_cksum (0, 0) (file_log file)) w2"
        using True ok version [OF _ True] False w2(1) unfolding run rf Let_def N_def [symmetric] walFramePage_of_nat [OF N] log by simp
      ultimately show ?thesis using fin [OF w2(2), of "last_cksum (0, 0) (file_log file)"] unfolding log by (simp only: simp_thms)
    qed
  qed
qed

end
