(* ===== verification/WalWrite.thy ===== *)
theory WalWrite
  imports WalRecover
begin

text \<open>
  Writing frames to the file of the write-ahead log (\<open>walFrames\<close> of \<open>wal.c\<close> and what it calls).  The file is a
  list of bytes; the state of an operation is the connection and the file.
\<close>

section \<open>The model\<close>

text \<open>
  What the VFS and the allocator answer: writing bytes at an offset, syncing, reading, the size of the file,
  cutting it, the size of a sector, random salts and the buffer for the rewriting of checksums.
\<close>

record write_env =
  windex :: wal_env
  xWrite :: "u8 list \<Rightarrow> u8 list \<Rightarrow> nat \<Rightarrow> nat \<times> u8 list"
  xSync :: "nat \<Rightarrow> nat"
  xRead :: "u8 list \<Rightarrow> nat \<Rightarrow> nat \<Rightarrow> nat \<times> u8 list"
  xFileSize :: "u8 list \<Rightarrow> nat \<times> nat"
  xTruncate :: "u8 list \<Rightarrow> nat \<Rightarrow> nat \<times> u8 list"
  xSectorSize :: int
  random_salt :: "u8 list"
  alloc_buf :: bool

definition MAX_SECTOR_SIZE :: int where "MAX_SECTOR_SIZE = 0x10000"

definition sqlite3SectorSize :: "write_env \<Rightarrow> nat" where
  "sqlite3SectorSize env =
    nat (if xSectorSize env < 32 then 512 else if MAX_SECTOR_SIZE < xSectorSize env then MAX_SECTOR_SIZE else xSectorSize env)"

definition WAL_SYNC_FLAGS :: "nat \<Rightarrow> nat" where "WAL_SYNC_FLAGS x = x mod 4"
definition CKPT_SYNC_FLAGS :: "nat \<Rightarrow> nat" where "CKPT_SYNC_FLAGS x = (x div 4) mod 4"

text \<open>\<open>iSyncPoint\<close> and \<open>syncFlags\<close> are the fields of the \<open>WalWriter\<close>.\<close>

definition walWriteToLog :: "write_env \<Rightarrow> nat \<Rightarrow> nat \<Rightarrow> u8 list \<Rightarrow> nat \<Rightarrow> u8 list \<Rightarrow> nat \<times> u8 list" where
  "walWriteToLog env iSyncPoint syncFlags pContent iOffset wal_file =
    (if iOffset < iSyncPoint \<and> iSyncPoint \<le> iOffset + length pContent then
       let iFirstAmt = iSyncPoint - iOffset
       in case xWrite env wal_file (take iFirstAmt pContent) iOffset of (rc, wal_file) \<Rightarrow>
          if rc \<noteq> SQLITE_OK then (rc, wal_file)
          else
            let rc = xSync env (WAL_SYNC_FLAGS syncFlags)
            in if length pContent - iFirstAmt = 0 \<or> rc \<noteq> SQLITE_OK then (rc, wal_file)
               else xWrite env wal_file (drop iFirstAmt pContent) (iOffset + iFirstAmt)
     else xWrite env wal_file pContent iOffset)"

text \<open>A dirty page: its number and its bytes.\<close>

type_synonym page = "u32 \<times> u8 list"

definition walWriteOneFrame ::
  "write_env \<Rightarrow> nat \<Rightarrow> nat \<Rightarrow> page \<Rightarrow> u32 \<Rightarrow> nat \<Rightarrow> Wal \<times> u8 list \<Rightarrow> nat \<times> Wal \<times> u8 list" where
  "walWriteOneFrame env iSyncPoint syncFlags pPage nTruncate iOffset s =
    (case s of (pWal, wal_file) \<Rightarrow>
     case walEncodeFrame pWal (fst pPage) nTruncate (snd pPage) of (aFrame, pWal) \<Rightarrow>
     case walWriteToLog env iSyncPoint syncFlags aFrame iOffset wal_file of (rc, wal_file) \<Rightarrow>
       if rc \<noteq> SQLITE_OK then (rc, pWal, wal_file)
       else (case walWriteToLog env iSyncPoint syncFlags (snd pPage) (iOffset + WAL_FRAME_HDRSIZE) wal_file of
               (rc, wal_file) \<Rightarrow> (rc, pWal, wal_file)))"

text \<open>The loop of \<open>walRewriteChecksums\<close> over the frames to be written again.\<close>

fun rewrite_frames :: "write_env \<Rightarrow> nat \<Rightarrow> nat list \<Rightarrow> nat \<times> Wal \<times> u8 list \<Rightarrow> nat \<times> Wal \<times> u8 list" where
  "rewrite_frames env sz [] s = s"
| "rewrite_frames env sz (iRead # fs) (rc, pWal, wal_file) =
    (if rc \<noteq> SQLITE_OK then (rc, pWal, wal_file)
     else
       let iOff = walFrameOffset iRead sz
       in case xRead env wal_file (sz + WAL_FRAME_HDRSIZE) iOff of (rc, aBuf) \<Rightarrow>
          if rc \<noteq> SQLITE_OK then rewrite_frames env sz fs (rc, pWal, wal_file)
          else
            case walEncodeFrame pWal (get4 aBuf 0) (get4 aBuf 4) (drop WAL_FRAME_HDRSIZE aBuf) of (aFrame, pWal) \<Rightarrow>
            case xWrite env wal_file aFrame iOff of (rc, wal_file) \<Rightarrow> rewrite_frames env sz fs (rc, pWal, wal_file))"

definition walRewriteChecksums :: "write_env \<Rightarrow> nat \<Rightarrow> Wal \<times> u8 list \<Rightarrow> nat \<times> Wal \<times> u8 list" where
  "walRewriteChecksums env iLast s =
    (case s of (pWal, wal_file) \<Rightarrow>
      let sz = unat (szPage pWal); first = unat (iReCksum pWal)
      in if \<not> alloc_buf env then (SQLITE_NOMEM, pWal, wal_file)
         else
           let iCksumOff = (if first = 1 then 24 else walFrameOffset (first - 1) sz + 16)
           in case xRead env wal_file 8 iCksumOff of (rc, aBuf) \<Rightarrow>
              rewrite_frames env sz [first..<iLast + 1]
                (rc, pWal\<lparr>hdr := (hdr pWal)\<lparr>aFrameCksum := (get4 aBuf 0, get4 aBuf 4)\<rparr>, iReCksum := 0\<rparr>, wal_file))"

text \<open>
  The first loop of \<open>walFrames\<close>: a page that the transaction has already written is overwritten, the others
  are appended.  The result is the code, the last frame, the offset behind it, the pages that were
  appended (\<open>PGHDR_WAL_APPEND\<close>; the last one is \<open>pLast\<close>), and the state.
\<close>

fun write_pages ::
  "write_env \<Rightarrow> nat \<Rightarrow> nat \<Rightarrow> nat \<Rightarrow> u32 \<Rightarrow> bool \<Rightarrow> page list \<Rightarrow> nat \<Rightarrow> nat \<Rightarrow> Wal \<times> u8 list \<Rightarrow>
    nat \<times> nat \<times> nat \<times> page list \<times> Wal \<times> u8 list" where
  "write_pages env sz syncFlags iFirst nTruncate isCommit [] iFrame iOffset s = (SQLITE_OK, iFrame, iOffset, [], s)"
| "write_pages env sz syncFlags iFirst nTruncate isCommit (p # ps) iFrame iOffset s =
    (case s of (pWal, wal_file) \<Rightarrow>
     case (if iFirst \<noteq> 0 \<and> (ps \<noteq> [] \<or> \<not> isCommit) then
             (case walFindFrame (windex env) pWal (fst p) of (rc, iWrite, pWal) \<Rightarrow> (unat iWrite, pWal))
           else (0, pWal)) of (iWrite, pWal) \<Rightarrow>
       if iFirst \<noteq> 0 \<and> iFirst \<le> iWrite \<and> (ps \<noteq> [] \<or> \<not> isCommit) then
         let iOff = walFrameOffset iWrite sz + WAL_FRAME_HDRSIZE;
             pWal = (if iReCksum pWal = 0 \<or> of_nat iWrite < iReCksum pWal then pWal\<lparr>iReCksum := of_nat iWrite\<rparr> else pWal)
         in case xWrite env wal_file (snd p) iOff of (rc, wal_file) \<Rightarrow>
            if rc \<noteq> SQLITE_OK then (rc, iFrame, iOffset, [], pWal, wal_file)
            else write_pages env sz syncFlags iFirst nTruncate isCommit ps iFrame iOffset (pWal, wal_file)
       else
         case walWriteOneFrame env 0 syncFlags p (if isCommit \<and> ps = [] then nTruncate else 0) iOffset (pWal, wal_file) of
           (rc, s) \<Rightarrow>
             if rc \<noteq> SQLITE_OK then (rc, iFrame + 1, iOffset, [], s)
             else
               case write_pages env sz syncFlags iFirst nTruncate isCommit ps (iFrame + 1) (iOffset + sz + WAL_FRAME_HDRSIZE) s of
                 (rc, iFrame, iOffset, qs, s) \<Rightarrow> (rc, iFrame, iOffset, p # qs, s))"

text \<open>The padding of the last sector: the number of copies of the last frame and the state.\<close>

function pad_frames ::
  "write_env \<Rightarrow> nat \<Rightarrow> nat \<Rightarrow> nat \<Rightarrow> page \<Rightarrow> u32 \<Rightarrow> nat \<Rightarrow> nat \<Rightarrow> Wal \<times> u8 list \<Rightarrow> nat \<times> nat \<times> Wal \<times> u8 list" where
  "pad_frames env sz iSyncPoint syncFlags pLast nTruncate iOffset nExtra s =
    (if iOffset < iSyncPoint then
       case walWriteOneFrame env iSyncPoint syncFlags pLast nTruncate iOffset s of (rc, s) \<Rightarrow>
         if rc \<noteq> SQLITE_OK then (rc, nExtra, s)
         else pad_frames env sz iSyncPoint syncFlags pLast nTruncate (iOffset + sz + WAL_FRAME_HDRSIZE) (nExtra + 1) s
     else (SQLITE_OK, nExtra, s))"
  by auto
termination
  by (relation "measure (\<lambda>(env, sz, sp, fl, pLast, n, off, nExtra, s). sp - off)") (auto simp: WAL_FRAME_HDRSIZE_def)

declare pad_frames.simps [simp del]

text \<open>The frame that completes a transaction is repeated up to the next sector, or the file is synced.\<close>

definition pad_and_sync ::
  "write_env \<Rightarrow> nat \<Rightarrow> nat \<Rightarrow> page \<Rightarrow> u32 \<Rightarrow> nat \<Rightarrow> Wal \<times> u8 list \<Rightarrow> nat \<times> nat \<times> bool \<times> Wal \<times> u8 list" where
  "pad_and_sync env sz syncFlags pLast nTruncate iOffset s =
    (if padToSectorBoundary (fst s) then
       let sectorSize = sqlite3SectorSize env; iSyncPoint = ((iOffset + sectorSize - 1) div sectorSize) * sectorSize
       in case pad_frames env sz iSyncPoint syncFlags pLast nTruncate iOffset 0 s of (rc, nExtra, s) \<Rightarrow>
          if rc \<noteq> SQLITE_OK then (rc, nExtra, True, s)
          else (if iSyncPoint = iOffset then xSync env (WAL_SYNC_FLAGS syncFlags) else SQLITE_OK, nExtra, False, s)
     else (xSync env (WAL_SYNC_FLAGS syncFlags), 0, False, s))"

definition walLimitSize :: "write_env \<Rightarrow> nat \<Rightarrow> u8 list \<Rightarrow> u8 list" where
  "walLimitSize env nMax wal_file =
    (case xFileSize env wal_file of (rx, sz) \<Rightarrow>
      if rx = SQLITE_OK \<and> nMax < sz then snd (xTruncate env wal_file nMax) else wal_file)"

text \<open>The header of the log file, written before the first frame.\<close>

definition wal_header_bytes :: "Wal \<Rightarrow> nat \<Rightarrow> u8 list" where
  "wal_header_bytes pWal sz =
    put4 WAL_MAGIC @ put4 WAL_MAX_VERSION @ put4 (of_nat sz) @ put4 (nCkpt pWal) @ aSalt (hdr pWal)"

definition write_header :: "write_env \<Rightarrow> nat \<Rightarrow> nat \<Rightarrow> Wal \<times> u8 list \<Rightarrow> nat \<times> Wal \<times> u8 list" where
  "write_header env sz sync_flags s =
    (case s of (pWal, wal_file) \<Rightarrow>
      let pWal = (if nCkpt pWal = 0 then pWal\<lparr>hdr := (hdr pWal)\<lparr>aSalt := random_salt env\<rparr>\<rparr> else pWal);
          aWalHdr = wal_header_bytes pWal sz; aCksum = walChecksumBytes True aWalHdr None;
          pWal = pWal\<lparr>szPage := of_nat sz, hdr := (hdr pWal)\<lparr>bigEndCksum := 0, aFrameCksum := aCksum\<rparr>, truncateOnCommit := True\<rparr>
      in case xWrite env wal_file (aWalHdr @ put4 (fst aCksum) @ put4 (snd aCksum)) 0 of (rc, wal_file) \<Rightarrow>
         if rc \<noteq> SQLITE_OK then (rc, pWal, wal_file)
         else (if syncHeader pWal then xSync env (CKPT_SYNC_FLAGS sync_flags) else SQLITE_OK, pWal, wal_file))"

text \<open>\<open>walFrames\<close> behind the call of \<open>walRestartLog\<close>; \<open>iFirst\<close> was computed before it.\<close>

definition write_commit ::
  "write_env \<Rightarrow> nat \<Rightarrow> nat \<Rightarrow> u32 \<Rightarrow> bool \<Rightarrow> nat \<Rightarrow> nat \<Rightarrow> page list \<Rightarrow> Wal \<times> u8 list \<Rightarrow> nat \<times> Wal \<times> u8 list" where
  "write_commit env sz sync_flags nTruncate isCommit iFrame iOffset qs s =
    (case (if isCommit \<and> iReCksum (fst s) \<noteq> 0 then walRewriteChecksums env iFrame s else (SQLITE_OK, s)) of (rc, s) \<Rightarrow>
      if rc \<noteq> SQLITE_OK then (rc, s)
      else
        case (if isCommit \<and> WAL_SYNC_FLAGS sync_flags \<noteq> 0 then pad_and_sync env sz sync_flags (last qs) nTruncate iOffset s
              else (SQLITE_OK, 0, False, s)) of (rc, nExtra, stop, pWal, wal_file) \<Rightarrow>
          if stop then (rc, pWal, wal_file)
          else
            case (if isCommit \<and> truncateOnCommit pWal \<and> 0 \<le> mxWalSize pWal then
                    let end_off = walFrameOffset (iFrame + nExtra + 1) sz;
                        sz' = (if mxWalSize pWal < int end_off then end_off else nat (mxWalSize pWal))
                    in (pWal\<lparr>truncateOnCommit := False\<rparr>, walLimitSize env sz' wal_file)
                  else (pWal, wal_file)) of (pWal, wal_file) \<Rightarrow>
              if rc \<noteq> SQLITE_OK then (rc, pWal, wal_file)
              else
                case walFrames_index (windex env) pWal (map fst qs @ replicate nExtra (fst (last qs))) nTruncate isCommit of
                  (rc, pWal) \<Rightarrow>
                    (rc, if rc = SQLITE_OK \<and> isCommit then pWal\<lparr>iCallback := mxFrame (hdr pWal)\<rparr> else pWal, wal_file))"

definition write_frames ::
  "write_env \<Rightarrow> nat \<Rightarrow> page list \<Rightarrow> u32 \<Rightarrow> bool \<Rightarrow> nat \<Rightarrow> nat \<Rightarrow> Wal \<times> u8 list \<Rightarrow> nat \<times> Wal \<times> u8 list" where
  "write_frames env sz pList nTruncate isCommit sync_flags iFirst s =
    (case (if mxFrame (hdr (fst s)) = 0 then write_header env sz sync_flags s else (SQLITE_OK, s)) of (rc, s) \<Rightarrow>
      if rc \<noteq> SQLITE_OK then (rc, s)
      else if szPage (fst s) \<noteq> of_nat sz then (SQLITE_CORRUPT, s)
      else
        let iFrame = unat (mxFrame (hdr (fst s)))
        in case write_pages env sz sync_flags iFirst nTruncate isCommit pList iFrame (walFrameOffset (iFrame + 1) sz) s of
             (rc, iFrame, iOffset, qs, s) \<Rightarrow>
               if rc \<noteq> SQLITE_OK then (rc, s)
               else write_commit env sz sync_flags nTruncate isCommit iFrame iOffset qs s)"

text \<open>
  \<open>walFrames\<close>.  \<open>walRestartLog\<close> does nothing unless the connection reads the database only (\<open>readLock\<close> 0);
  it is an argument.
\<close>

definition walFrames ::
  "(Wal \<times> u8 list \<Rightarrow> nat \<times> Wal \<times> u8 list) \<Rightarrow> write_env \<Rightarrow> nat \<Rightarrow> page list \<Rightarrow> u32 \<Rightarrow> bool \<Rightarrow> nat \<Rightarrow> Wal \<times> u8 list \<Rightarrow> nat \<times> Wal \<times> u8 list" where
  "walFrames restart env sz pList nTruncate isCommit sync_flags s =
    (let pWal = fst s; iFirst = (if hdr pWal \<noteq> fst (aHdr pWal) then unat (mxFrame (fst (aHdr pWal))) + 1 else 0)
     in case (if readLock pWal = 0 then restart s else (SQLITE_OK, s)) of (rc, s) \<Rightarrow>
        if rc \<noteq> SQLITE_OK then (rc, s) else write_frames env sz pList nTruncate isCommit sync_flags iFirst s)"

end
