(* ===== verification/WalFile.thy ===== *)
theory WalFile
  imports WalWrite
begin

text \<open>
  The file of the write-ahead log, proofs: how writing bytes moves the slots of the frames, which frames continue the
  chain of checksums, what the file holds for an abstract log, and what appending or overwriting a frame does to it.
\<close>

section \<open>Writing bytes\<close>

definition write_at :: "u8 list \<Rightarrow> u8 list \<Rightarrow> nat \<Rightarrow> u8 list" where
  "write_at z c off = take off (z @ replicate (off - length z) 0) @ c @ drop (off + length c) z"

lemma write_at_length: "length (write_at z c off) = max (length z) (off + length c)"
  by (simp add: write_at_def)

lemma write_at_before: "n + k \<le> off \<Longrightarrow> n + k \<le> length z \<Longrightarrow> take k (drop n (write_at z c off)) = take k (drop n z)"
  by (simp add: write_at_def take_drop min_def)

lemma write_at_behind: "off + length c \<le> n \<Longrightarrow> drop n (write_at z c off) = drop n z"
  by (rule nth_equalityI) (auto simp: write_at_def nth_append)

lemma write_at_here: "take (length c) (drop off (write_at z c off)) = c"
  by (simp add: write_at_def)

lemma write_at_inside:
  "n \<le> off \<Longrightarrow> off + length c \<le> n + k \<Longrightarrow> n + k \<le> length z \<Longrightarrow>
   take k (drop n (write_at z c off)) = write_at (take k (drop n z)) c (off - n)"
  by (rule nth_equalityI) (auto simp: write_at_def nth_append add.commute)

lemma write_at_append: "write_at (write_at z a off) b (off + length a) = write_at z (a @ b) off"
proof -
  define p where "p = take off (z @ replicate (off - length z) 0)"
  have "length p = off" "off - length z + min (length z) off = off" by (simp_all add: p_def)
  then show ?thesis by (simp add: write_at_def p_def [symmetric] ac_simps)
qed

lemma write_at_start: "length c \<le> length z \<Longrightarrow> write_at z c 0 = c @ drop (length c) z"
  by (simp add: write_at_def)

lemma write_at_end: "n + length c = length z \<Longrightarrow> write_at z c n = take n z @ c"
  by (simp add: write_at_def)

text \<open>Every call of the environment succeeds and does what its name says.\<close>

definition write_good :: "write_env \<Rightarrow> bool" where
  "write_good env \<longleftrightarrow> env_good (windex env) \<and> (\<forall>z c off. xWrite env z c off = (SQLITE_OK, write_at z c off)) \<and>
    (\<forall>fl. xSync env fl = SQLITE_OK) \<and> (\<forall>z n off. off + n \<le> length z \<longrightarrow> xRead env z n off = (SQLITE_OK, take n (drop off z))) \<and>
    (\<forall>z. xFileSize env z = (SQLITE_OK, length z)) \<and> (\<forall>z n. xTruncate env z n = (SQLITE_OK, take n z)) \<and>
    length (random_salt env) = 8 \<and> alloc_buf env"

lemma write_to_log: "write_good env \<Longrightarrow> walWriteToLog env sp fl c off z = (SQLITE_OK, write_at z c off)"
proof -
  assume g: "write_good env"
  show ?thesis
  proof (cases "off < sp \<and> sp \<le> off + length c")
    case True
    then have "write_at (write_at z (take (sp - off) c) off) (drop (sp - off) c) (off + length (take (sp - off) c)) = write_at z c off"
      by (subst write_at_append) simp
    then show ?thesis using True g by (auto simp: walWriteToLog_def write_good_def Let_def min_def)
  next
    case False
    then show ?thesis using g by (auto simp: walWriteToLog_def write_good_def)
  qed
qed

lemma write_one_frame:
  assumes "write_good env" "length (aSalt (hdr w)) = 8"
  shows "walWriteOneFrame env sp fl (pg, d) n off (w, z) =
    (SQLITE_OK, snd (walEncodeFrame w pg n d), write_at z (fst (walEncodeFrame w pg n d) @ d) off)"
  using write_to_log [OF assms(1)] write_at_append [of z "fst (walEncodeFrame w pg n d)" off d] frame_length [OF assms(2), of pg n d]
  by (simp add: walWriteOneFrame_def split_beta)

section \<open>Frames in the file\<close>

definition slot :: "nat \<Rightarrow> u8 list \<Rightarrow> nat \<Rightarrow> u8 list" where
  "slot sz z f = take (sz + WAL_FRAME_HDRSIZE) (drop (walFrameOffset f sz) z)"

definition full :: "nat \<Rightarrow> u8 list \<Rightarrow> nat \<Rightarrow> bool" where
  "full sz z n \<longleftrightarrow> WAL_HDRSIZE + n * (sz + WAL_FRAME_HDRSIZE) \<le> length z"

lemma offset_Suc: "walFrameOffset (Suc n) sz = WAL_HDRSIZE + n * (sz + WAL_FRAME_HDRSIZE)"
  by (simp add: walFrameOffset_def)

lemma offset_le: "1 \<le> f \<Longrightarrow> f < g \<Longrightarrow> walFrameOffset f sz + (sz + WAL_FRAME_HDRSIZE) \<le> walFrameOffset g sz"
proof -
  assume "1 \<le> f" "f < g"
  then obtain a b where "f = Suc a" "g = Suc b" "a + 1 \<le> b" by (cases f; cases g) auto
  then show ?thesis using mult_le_mono1 [of "a + 1" b "sz + WAL_FRAME_HDRSIZE"] by (simp add: offset_Suc add.assoc)
qed

lemma offset_hdr: "WAL_HDRSIZE \<le> walFrameOffset f sz"
  by (simp add: walFrameOffset_def)

lemma full_slot: "1 \<le> f \<Longrightarrow> full sz z f \<longleftrightarrow> walFrameOffset f sz + (sz + WAL_FRAME_HDRSIZE) \<le> length z"
  by (cases f) (simp_all add: full_def offset_Suc ac_simps)

lemma full_mono: "full sz z n \<Longrightarrow> m \<le> n \<Longrightarrow> full sz z m"
  using mult_le_mono1 [of m n "sz + WAL_FRAME_HDRSIZE"] unfolding full_def by linarith

lemma slot_length: "1 \<le> f \<Longrightarrow> full sz z f \<Longrightarrow> length (slot sz z f) = sz + WAL_FRAME_HDRSIZE"
  by (simp add: slot_def full_slot)

text \<open>A write of a part of frame \<open>f\<close> does not touch the others, nor the header.\<close>

lemma slot_other:
  assumes "1 \<le> f" "1 \<le> g" "f \<noteq> g" "full sz z g" "walFrameOffset f sz \<le> off" "off + length c \<le> walFrameOffset f sz + (sz + WAL_FRAME_HDRSIZE)"
  shows "slot sz (write_at z c off) g = slot sz z g"
proof (cases "g < f")
  case True
  then have "walFrameOffset g sz + (sz + WAL_FRAME_HDRSIZE) \<le> off" using offset_le [of g f sz] assms by simp
  then show ?thesis using assms by (simp add: slot_def write_at_before full_slot)
next
  case False
  then have "off + length c \<le> walFrameOffset g sz" using offset_le [of f g sz] assms by simp
  then show ?thesis by (simp add: slot_def write_at_behind)
qed

lemma header_other: "WAL_HDRSIZE \<le> off \<Longrightarrow> WAL_HDRSIZE \<le> length z \<Longrightarrow> take WAL_HDRSIZE (write_at z c off) = take WAL_HDRSIZE z"
  using write_at_before [of 0 WAL_HDRSIZE off z c] by simp

lemma slot_same: "length c = sz + WAL_FRAME_HDRSIZE \<Longrightarrow> slot sz (write_at z c (walFrameOffset f sz)) f = c"
  unfolding slot_def by (metis write_at_here)

lemma slot_data:
  "1 \<le> f \<Longrightarrow> full sz z f \<Longrightarrow> length d = sz \<Longrightarrow>
   slot sz (write_at z d (walFrameOffset f sz + WAL_FRAME_HDRSIZE)) f = take WAL_FRAME_HDRSIZE (slot sz z f) @ d"
  by (simp add: slot_def write_at_inside full_slot write_at_end)

lemma slot_head:
  "1 \<le> f \<Longrightarrow> full sz z f \<Longrightarrow> length c = WAL_FRAME_HDRSIZE \<Longrightarrow>
   slot sz (write_at z c (walFrameOffset f sz)) f = c @ drop WAL_FRAME_HDRSIZE (slot sz z f)"
  by (simp add: slot_def write_at_inside full_slot write_at_start)

lemma full_write: "full sz z n \<Longrightarrow> full sz (write_at z c off) n"
  by (simp add: full_def write_at_length)

lemma full_write_back:
  "full sz (write_at z c off) n \<Longrightarrow> off + length c \<le> walFrameOffset f sz + (sz + WAL_FRAME_HDRSIZE) \<Longrightarrow> 1 \<le> f \<Longrightarrow> f < n \<Longrightarrow> full sz z n"
  using offset_le [of f n sz] by (simp add: full_slot write_at_length WAL_FRAME_HDRSIZE_def)

section \<open>Chains of checksums\<close>

definition frame_chain :: "u8 list \<Rightarrow> u32 \<times> u32 \<Rightarrow> u8 list list \<Rightarrow> bool" where
  "frame_chain salt ck frs \<longleftrightarrow> length (scan_log salt True ck frs) = length frs"

definition chain_end :: "u8 list \<Rightarrow> u32 \<times> u32 \<Rightarrow> u8 list list \<Rightarrow> u32 \<times> u32" where
  "chain_end salt ck frs = last_cksum ck (scan_log salt True ck frs)"

lemma chain_Nil [simp]: "frame_chain salt ck []" "chain_end salt ck [] = ck"
  by (simp_all add: frame_chain_def chain_end_def)

lemma chain_append: "frame_chain salt ck (xs @ ys) \<longleftrightarrow> frame_chain salt ck xs \<and> frame_chain salt (chain_end salt ck xs) ys"
  using scan_length [of salt True ck xs] scan_length [of salt True "chain_end salt ck xs" ys] scan_append [of salt True ck xs ys]
  by (auto simp: frame_chain_def chain_end_def Let_def)

lemma chain_end_append: "frame_chain salt ck xs \<Longrightarrow> chain_end salt ck (xs @ ys) = chain_end salt (chain_end salt ck xs) ys"
  by (simp add: frame_chain_def chain_end_def scan_append Let_def last_cksum_append)

text \<open>A frame that the writer encoded continues the chain.\<close>

lemma encoded_frame:
  fixes w :: Wal and d :: "u8 list" and n :: u32
  assumes "length (aSalt (hdr w)) = 8" "bigEndCksum (hdr w) = 0" "iReCksum w = 0" "pg \<noteq> 0"
  defines "fr \<equiv> fst (walEncodeFrame w pg n d) @ d" and "w' \<equiv> snd (walEncodeFrame w pg n d)"
  shows "frame_chain (aSalt (hdr w)) (aFrameCksum (hdr w)) [fr]" "chain_end (aSalt (hdr w)) (aFrameCksum (hdr w)) [fr] = aFrameCksum (hdr w')"
    "w' = w\<lparr>hdr := (hdr w)\<lparr>aFrameCksum := aFrameCksum (hdr w')\<rparr>\<rparr>"
proof -
  define ck where "ck = walChecksumBytes True d (Some (walChecksumBytes True (put4 pg @ put4 n) (Some (aFrameCksum (hdr w)))))"
  have fr: "fr = put4 pg @ put4 n @ aSalt (hdr w) @ put4 (fst ck) @ put4 (snd ck) @ d" and w': "w' = w\<lparr>hdr := (hdr w)\<lparr>aFrameCksum := ck\<rparr>\<rparr>"
    using assms(2,3) by (simp_all add: fr_def w'_def walEncodeFrame_def Let_def ck_def)
  have g: "get4 fr 0 = pg" "get4 fr 16 = fst ck" "get4 fr 20 = snd ck"
    using get4_put4 [of 0 "[]" pg] get4_put4 [of 16 "put4 pg @ put4 n @ aSalt (hdr w)" "fst ck"]
      get4_put4 [of 20 "put4 pg @ put4 n @ aSalt (hdr w) @ put4 (fst ck)" "snd ck"] assms(1) by (simp_all add: fr)
  have "frame_cksum True (aFrameCksum (hdr w)) fr = ck" "take 8 (drop 8 fr) = aSalt (hdr w)"
    using assms(1) by (simp_all add: frame_cksum_def fr ck_def WAL_FRAME_HDRSIZE_def)
  then show "frame_chain (aSalt (hdr w)) (aFrameCksum (hdr w)) [fr]" "chain_end (aSalt (hdr w)) (aFrameCksum (hdr w)) [fr] = aFrameCksum (hdr w')"
    "w' = w\<lparr>hdr := (hdr w)\<lparr>aFrameCksum := aFrameCksum (hdr w')\<rparr>\<rparr>"
    using g assms(4) by (simp_all add: frame_chain_def chain_end_def Let_def w' last_cksum_def)
qed

lemma encoded_fields:
  fixes w :: Wal and d :: "u8 list" and pg n :: u32
  assumes "length (aSalt (hdr w)) = 8"
  defines "h \<equiv> fst (walEncodeFrame w pg n d)"
  shows "get4 (h @ d') 0 = pg" "get4 (h @ d') 4 = n" "length h = WAL_FRAME_HDRSIZE"
proof -
  have "\<exists>t. h = put4 pg @ put4 n @ t" by (auto simp: h_def walEncodeFrame_def Let_def)
  then obtain t where "h = put4 pg @ put4 n @ t" ..
  then show "get4 (h @ d') 0 = pg" "get4 (h @ d') 4 = n"
    using get4_put4 [of 0 "[]" pg] get4_put4 [of 4 "put4 pg" n] by simp_all
  show "length h = WAL_FRAME_HDRSIZE" using frame_length [OF assms(1)] by (simp add: h_def)
qed

section \<open>The log and its file\<close>

text \<open>A log with its contents: page number, size after the commit (0 for no commit) and bytes of each frame.\<close>

type_synonym flog = "(u32 \<times> u32 \<times> u8 list) list"

definition slots :: "nat \<Rightarrow> u8 list \<Rightarrow> nat \<Rightarrow> u8 list list" where
  "slots sz z n = map (slot sz z) [1..<n + 1]"

definition head_cksum :: "u8 list \<Rightarrow> u32 \<times> u32" where "head_cksum z = (get4 z 24, get4 z 28)"

definition file_head :: "nat \<Rightarrow> u8 list \<Rightarrow> u8 list \<Rightarrow> bool" where
  "file_head sz salt z \<longleftrightarrow> WAL_HDRSIZE \<le> length z \<and> header_ok z \<and> get4 z 0 = WAL_MAGIC \<and> get4 z 4 = WAL_MAX_VERSION \<and>
    get4 z 8 = of_nat sz \<and> take 8 (drop 16 z) = salt"

definition stored :: "nat \<Rightarrow> u8 list \<Rightarrow> flog \<Rightarrow> bool" where
  "stored sz z log \<longleftrightarrow> full sz z (length log) \<and>
    (\<forall>i < length log. (get4 (slot sz z (i + 1)) 0, get4 (slot sz z (i + 1)) 4, drop WAL_FRAME_HDRSIZE (slot sz z (i + 1))) = log ! i)"

text \<open>The frames in front of \<open>iReCksum\<close> are valid; the checksums behind are made good by the commit.\<close>

definition slots_linked :: "nat \<Rightarrow> Wal \<Rightarrow> u8 list \<Rightarrow> nat \<Rightarrow> nat \<Rightarrow> bool" where
  "slots_linked sz w z P L \<longleftrightarrow>
    (if iReCksum w = 0
     then frame_chain (aSalt (hdr w)) (head_cksum z) (slots sz z L) \<and>
       aFrameCksum (hdr w) = chain_end (aSalt (hdr w)) (head_cksum z) (slots sz z L)
     else P < unat (iReCksum w) \<and> unat (iReCksum w) \<le> L \<and>
       frame_chain (aSalt (hdr w)) (head_cksum z) (slots sz z (unat (iReCksum w) - 1)))"

text \<open>No frame behind the first \<open>P\<close> marks a commit.\<close>

definition tail_ok :: "nat \<Rightarrow> u8 list \<Rightarrow> nat \<Rightarrow> bool" where
  "tail_ok sz z P \<longleftrightarrow> (\<forall>f > P. full sz z f \<longrightarrow> get4 (slot sz z f) 4 = 0)"

text \<open>The published header continues from the last published frame.\<close>

definition pub_ok :: "nat \<Rightarrow> Wal \<Rightarrow> u8 list \<Rightarrow> nat \<Rightarrow> bool" where
  "pub_ok sz w z P \<longleftrightarrow> P = 0 \<or> aSalt (fst (aHdr w)) = aSalt (hdr w) \<and> bigEndCksum (fst (aHdr w)) = 0 \<and>
    aFrameCksum (fst (aHdr w)) = chain_end (aSalt (hdr w)) (head_cksum z) (slots sz z P)"

text \<open>The file has less than 2^31 frames.\<close>

definition file_limit :: "nat \<Rightarrow> nat" where "file_limit sz = WAL_HDRSIZE + 2 ^ 31 * (sz + WAL_FRAME_HDRSIZE)"

lemma below_limit: "length log < 2 ^ 31 \<Longrightarrow> WAL_HDRSIZE + length log * (sz + WAL_FRAME_HDRSIZE) < file_limit sz"
  unfolding file_limit_def by (intro add_strict_left_mono mult_strict_right_mono) (simp_all add: WAL_FRAME_HDRSIZE_def)

definition file_ok :: "nat \<Rightarrow> Wal \<Rightarrow> u8 list \<Rightarrow> nat \<Rightarrow> flog \<Rightarrow> bool" where
  "file_ok sz w z P log \<longleftrightarrow> file_head sz (aSalt (hdr w)) z \<and> length (aSalt (hdr w)) = 8 \<and> bigEndCksum (hdr w) = 0 \<and>
    stored sz z log \<and> slots_linked sz w z P (length log) \<and> tail_ok sz z (length log) \<and> pub_ok sz w z P \<and> length z < file_limit sz"

lemma header_cong: "take WAL_HDRSIZE z' = take WAL_HDRSIZE z \<Longrightarrow> k \<le> 28 \<Longrightarrow> get4 z' k = get4 z k"
  using get4_take [of k WAL_HDRSIZE z] get4_take [of k WAL_HDRSIZE z'] by (simp add: WAL_HDRSIZE_def)

lemma file_head_cong:
  assumes "take WAL_HDRSIZE z' = take WAL_HDRSIZE z" "WAL_HDRSIZE \<le> length z'" "file_head sz salt z"
  shows "file_head sz salt z'" "head_cksum z' = head_cksum z"
proof -
  have g: "get4 z' k = get4 z k" if "k \<le> 28" for k using header_cong [OF assms(1) that] .
  have "take 24 (take WAL_HDRSIZE z') = take 24 (take WAL_HDRSIZE z)" "take 8 (drop 16 (take WAL_HDRSIZE z')) = take 8 (drop 16 (take WAL_HDRSIZE z))"
    using assms(1) by simp_all
  then have "take 24 z' = take 24 z" "take 8 (drop 16 z') = take 8 (drop 16 z)" by (simp_all add: WAL_HDRSIZE_def drop_take)
  moreover from this have "header_ok z' = header_ok z" using g by (simp add: header_ok_def)
  ultimately show "file_head sz salt z'" "head_cksum z' = head_cksum z"
    using assms(2,3) g by (simp_all add: file_head_def head_cksum_def)
qed

lemma slots_Suc: "slots sz z (Suc n) = slots sz z n @ [slot sz z (Suc n)]"
  by (simp add: slots_def)

lemma slots_cong: "(\<And>f. 1 \<le> f \<Longrightarrow> f \<le> n \<Longrightarrow> slot sz z' f = slot sz z f) \<Longrightarrow> slots sz z' n = slots sz z n"
  by (auto simp: slots_def simp del: upt_Suc)

lemma file_slots_take: "m \<le> n \<Longrightarrow> \<exists>ys. slots sz z n = slots sz z m @ ys"
proof -
  assume "m \<le> n"
  then have "[1..<n + 1] = [1..<m + 1] @ [m + 1..<n + 1]" using upt_add_eq_append [of 1 "m + 1" "n - m"] by simp
  then show ?thesis by (simp add: slots_def del: upt_Suc)
qed

lemma stored_length: "stored sz z log \<Longrightarrow> i < length log \<Longrightarrow> length (snd (snd (log ! i))) = sz"
proof -
  assume s: "stored sz z log" "i < length log"
  then have "full sz z (i + 1)" using full_mono [of sz z "length log" "i + 1"] by (simp add: stored_def)
  then have "length (slot sz z (i + 1)) = sz + WAL_FRAME_HDRSIZE" by (intro slot_length) simp_all
  moreover have "snd (snd (log ! i)) = drop WAL_FRAME_HDRSIZE (slot sz z (i + 1))" using s by (metis snd_conv stored_def)
  ultimately show ?thesis by simp
qed

lemma cksum_fields:
  assumes "w' = w\<lparr>hdr := (hdr w)\<lparr>aFrameCksum := x\<rparr>\<rparr>"
  shows "aSalt (hdr w') = aSalt (hdr w)" "bigEndCksum (hdr w') = bigEndCksum (hdr w)" "iReCksum w' = iReCksum w"
    "mxFrame (hdr w') = mxFrame (hdr w)" "aHdr w' = aHdr w" "apWiData w' = apWiData w" "nCkpt w' = nCkpt w" "writeLock w' = writeLock w"
    "minFrame w' = minFrame w" "readLock w' = readLock w" "szPage w' = szPage w"
  by (simp_all add: assms)

text \<open>A frame is written behind the log.\<close>

lemma append_frame:
  assumes ok: "file_ok sz w z P log" and env: "write_good env" and pg: "pg \<noteq> 0" and d: "length d = sz" and P: "P \<le> length log"
    and lim: "length log + 1 < 2 ^ 31"
  obtains w' z' where "walWriteOneFrame env sp fl (pg, d) n (walFrameOffset (length log + 1) sz) (w, z) = (SQLITE_OK, w', z')"
    "file_ok sz w' z' P (log @ [(pg, n, d)])" "w' = w\<lparr>hdr := (hdr w)\<lparr>aFrameCksum := aFrameCksum (hdr w')\<rparr>\<rparr>"
proof -
  define f where "f = length log + 1"
  define w' where "w' = snd (walEncodeFrame w pg n d)"
  define c where "c = fst (walEncodeFrame w pg n d) @ d"
  define z' where "z' = write_at z c (walFrameOffset f sz)"
  note k = ok [unfolded file_ok_def]
  have s8: "length (aSalt (hdr w)) = 8" using k by simp
  have c: "length c = sz + WAL_FRAME_HDRSIZE" using frame_length [OF s8] d by (simp add: c_def)
  have run: "walWriteOneFrame env sp fl (pg, d) n (walFrameOffset f sz) (w, z) = (SQLITE_OK, w', z')"
    using write_one_frame [OF env s8] by (simp add: w'_def z'_def c_def)
  have w': "w' = w\<lparr>hdr := (hdr w)\<lparr>aFrameCksum := aFrameCksum (hdr w')\<rparr>\<rparr>"
    by (auto simp: w'_def walEncodeFrame_def Let_def)
  note h = cksum_fields [OF w']
  have f1: "1 \<le> f" by (simp add: f_def)
  have fullf: "full sz z' f"
    using c f1 by (simp add: full_slot z'_def write_at_length)
  have oldfull: "full sz z (length log)" using k by (simp add: stored_def)
  have other: "slot sz z' g = slot sz z g" if "1 \<le> g" "g \<noteq> f" "full sz z g" for g
    using slot_other [of f g sz z "walFrameOffset f sz" c] that f1 c by (simp add: z'_def)
  have same: "slot sz z' f = c" using slot_same [OF c] by (simp add: z'_def)
  have old: "slot sz z' g = slot sz z g" if "1 \<le> g" "g \<le> length log" for g
    using other [of g] full_mono [OF oldfull] that by (simp add: f_def)
  have olds: "slots sz z' m = slots sz z m" if "m \<le> length log" for m using old that by (intro slots_cong) simp
  have len: "WAL_HDRSIZE \<le> length z" using k by (simp add: file_head_def)
  have hd: "file_head sz (aSalt (hdr w)) z'" "head_cksum z' = head_cksum z"
    using file_head_cong [OF header_other [OF offset_hdr len]] k len by (auto simp: z'_def write_at_length)
  have st: "stored sz z' (log @ [(pg, n, d)])"
  proof -
    have "get4 c 0 = pg" "get4 c 4 = n" "drop WAL_FRAME_HDRSIZE c = d"
      using encoded_fields(1,2) [OF s8, of pg n d d] frame_length [OF s8, of pg n d] by (simp_all add: c_def)
    then show ?thesis using k fullf old same by (auto simp: stored_def f_def less_Suc_eq nth_append)
  qed
  have li: "slots_linked sz w' z' P (length (log @ [(pg, n, d)]))"
  proof (cases "iReCksum w = 0")
    case True
    note e = encoded_frame [OF s8 _ True pg, where n = n and d = d, folded c_def w'_def]
    show ?thesis using k True h hd(2) olds [OF order_refl] e same
      by (simp add: slots_linked_def slots_Suc chain_append chain_end_append f_def)
  next
    case False
    moreover have "unat (iReCksum w) - 1 \<le> length log" using k False by (auto simp: slots_linked_def)
    ultimately show ?thesis using k h hd(2) olds by (auto simp: slots_linked_def)
  qed
  have "tail_ok sz z' (length (log @ [(pg, n, d)]))"
  proof -
    have "get4 (slot sz z' g) 4 = 0" if g: "f < g" "full sz z' g" for g
    proof -
      have "full sz z g" using full_write_back [of sz z c "walFrameOffset f sz" g f] g c f1 by (simp add: z'_def)
      then show ?thesis using k other [of g] g f1 by (auto simp: tail_ok_def f_def)
    qed
    then show ?thesis by (auto simp: tail_ok_def f_def)
  qed
  moreover have "pub_ok sz w' z' P" using k h hd(2) olds [OF P] by (simp add: pub_ok_def)
  moreover have "length z' < file_limit sz"
    using k c below_limit [of "log @ [(pg, n, d)]" sz] lim by (simp add: file_ok_def z'_def write_at_length walFrameOffset_def f_def algebra_simps)
  ultimately have "file_ok sz w' z' P (log @ [(pg, n, d)])" using k h hd st li by (simp add: file_ok_def)
  then show thesis using that run w' by (simp add: f_def)
qed

text \<open>The data of a frame of the transaction is overwritten.\<close>

lemma overwrite_frame:
  assumes ok: "file_ok sz w z P log" and r: "P < r" "r \<le> length log" "length log < 2 ^ 31" and d: "length d = sz"
  defines "w' \<equiv> (if iReCksum w = 0 \<or> of_nat r < iReCksum w then w\<lparr>iReCksum := of_nat r\<rparr> else w)"
    and "z' \<equiv> write_at z d (walFrameOffset r sz + WAL_FRAME_HDRSIZE)"
  shows "file_ok sz w' z' P (log[r - 1 := (fst (log ! (r - 1)), fst (snd (log ! (r - 1))), d)])"
proof -
  note k = ok [unfolded file_ok_def]
  have r1: "1 \<le> r" using r(1) by simp
  have h: "hdr w' = hdr w" by (simp add: w'_def)
  have ur: "unat (of_nat r :: u32) = r" using r by (intro unat_u32) simp
  have oldfull: "full sz z (length log)" using k by (simp add: stored_def)
  have fr: "full sz z r" using full_mono [OF oldfull r(2)] .
  have other: "slot sz z' g = slot sz z g" if "1 \<le> g" "g \<noteq> r" "full sz z g" for g
    using slot_other [of r g sz z "walFrameOffset r sz + WAL_FRAME_HDRSIZE" d] that r1 d by (simp add: z'_def)
  have same: "slot sz z' r = take WAL_FRAME_HDRSIZE (slot sz z r) @ d" using slot_data [OF r1 fr d] by (simp add: z'_def)
  have l24: "length (take WAL_FRAME_HDRSIZE (slot sz z r)) = WAL_FRAME_HDRSIZE" using slot_length [OF r1 fr] by simp
  have g4: "get4 (slot sz z' r) j = get4 (slot sz z r) j" if "j \<le> 20" for j
  proof -
    have "get4 (slot sz z' r) j = get4 (take WAL_FRAME_HDRSIZE (slot sz z' r)) j" using that by (simp add: get4_take WAL_FRAME_HDRSIZE_def)
    also have "take WAL_FRAME_HDRSIZE (slot sz z' r) = take WAL_FRAME_HDRSIZE (slot sz z r)" using l24 by (simp add: same)
    finally show ?thesis using that by (simp add: get4_take WAL_FRAME_HDRSIZE_def)
  qed
  have len: "WAL_HDRSIZE \<le> length z" using k by (simp add: file_head_def)
  have "WAL_HDRSIZE \<le> walFrameOffset r sz + WAL_FRAME_HDRSIZE" using offset_hdr [of r sz] by simp
  then have hd: "file_head sz (aSalt (hdr w)) z'" "head_cksum z' = head_cksum z"
    using file_head_cong [OF header_other] k len by (auto simp: z'_def write_at_length)
  define log' where "log' = log[r - 1 := (fst (log ! (r - 1)), fst (snd (log ! (r - 1))), d)]"
  have ll: "length log' = length log" by (simp add: log'_def)
  have st: "stored sz z' log'"
  proof -
    have "(get4 (slot sz z' (i + 1)) 0, get4 (slot sz z' (i + 1)) 4, drop WAL_FRAME_HDRSIZE (slot sz z' (i + 1))) = log' ! i"
      if i: "i < length log" for i
    proof -
      have li: "(get4 (slot sz z (i + 1)) 0, get4 (slot sz z (i + 1)) 4, drop WAL_FRAME_HDRSIZE (slot sz z (i + 1))) = log ! i"
        using k i by (simp add: stored_def)
      show ?thesis
      proof (cases "i + 1 = r")
        case True
        then show ?thesis using g4 [of 0] g4 [of 4] same l24 i li [symmetric] by (auto simp: log'_def)
      next
        case False
        then have "r - 1 \<noteq> i" using r1 by simp
        then have "log' ! i = log ! i" by (simp add: log'_def)
        then show ?thesis using other [of "i + 1"] full_mono [OF oldfull, of "i + 1"] i li False by simp
      qed
    qed
    then show ?thesis using full_write [OF oldfull] by (simp add: stored_def ll z'_def)
  qed
  have olds: "slots sz z' m = slots sz z m" if "m < r" for m
    using other full_mono [OF oldfull] that r by (intro slots_cong) simp
  have li: "slots_linked sz w' z' P (length log')"
  proof (cases "iReCksum w = 0 \<or> of_nat r < iReCksum w")
    case True
    then have w': "w' = w\<lparr>iReCksum := of_nat r\<rparr>" by (simp add: w'_def)
    define v where "v = (if iReCksum w = 0 then length log else unat (iReCksum w) - 1)"
    have "frame_chain (aSalt (hdr w)) (head_cksum z) (slots sz z v)" using k by (auto simp: slots_linked_def v_def split: if_splits)
    moreover have "r - 1 \<le> v" using True r ur by (auto simp: v_def word_less_nat_alt)
    ultimately have "frame_chain (aSalt (hdr w)) (head_cksum z) (slots sz z (r - 1))" using file_slots_take [of "r - 1" v sz z] by (auto simp: chain_append)
    moreover have "(of_nat r :: u32) \<noteq> 0" using ur r1 by auto
    ultimately show ?thesis using r ur hd(2) olds [of "r - 1"] r1 ll by (simp add: slots_linked_def w')
  next
    case False
    then have "unat (iReCksum w) \<le> r" "iReCksum w \<noteq> 0" using ur by (auto simp: word_less_nat_alt not_less)
    moreover from this have "unat (iReCksum w) - 1 < r" using r1 by linarith
    ultimately show ?thesis using k False hd(2) olds [of "unat (iReCksum w) - 1"] ll by (auto simp: slots_linked_def w'_def)
  qed
  have "tail_ok sz z' (length log')"
  proof -
    have "get4 (slot sz z' g) 4 = 0" if g: "length log < g" "full sz z' g" for g
    proof -
      have "full sz z g" using full_write_back [of sz z d "walFrameOffset r sz + WAL_FRAME_HDRSIZE" g r] g d r by (simp add: z'_def)
      then show ?thesis using k other [of g] g r by (auto simp: tail_ok_def)
    qed
    then show ?thesis by (auto simp: tail_ok_def ll)
  qed
  moreover have "pub_ok sz w' z' P" using k h hd(2) olds [OF r(1)] by (simp add: pub_ok_def w'_def)
  moreover have "length z' < file_limit sz" using k fr r1 d by (simp add: z'_def write_at_length full_slot)
  ultimately have "file_ok sz w' z' P log'" using k h hd st li by (simp add: file_ok_def)
  then show ?thesis by (simp add: log'_def)
qed

section \<open>The pages of a write\<close>

text \<open>The last frame behind \<open>P\<close>, among the first \<open>m\<close>, that holds the page (0 for none).\<close>

definition find_written :: "nat \<Rightarrow> nat \<Rightarrow> flog \<Rightarrow> u32 \<Rightarrow> nat" where
  "find_written P m log pg = (case filter (\<lambda>f. fst (log ! (f - 1)) = pg) [P + 1..<m + 1] of [] \<Rightarrow> 0 | f # fs \<Rightarrow> last (f # fs))"

text \<open>
  What writing pages means for the log: a page that the transaction has written before is changed in place, unless
  it is the one that carries the commit; the others are added.
\<close>

fun put_pages :: "nat \<Rightarrow> nat \<Rightarrow> bool \<Rightarrow> u32 \<Rightarrow> page list \<Rightarrow> flog \<Rightarrow> flog" where
  "put_pages P m isCommit n [] log = log"
| "put_pages P m isCommit n ((pg, d) # ps) log =
    (let f = find_written P m log pg
     in if f \<noteq> 0 \<and> (ps \<noteq> [] \<or> \<not> isCommit) then put_pages P m isCommit n ps (log[f - 1 := (pg, fst (snd (log ! (f - 1))), d)])
        else put_pages P m isCommit n ps (log @ [(pg, if isCommit \<and> ps = [] then n else 0, d)]))"

lemma find_written_latest:
  assumes l: "last_frame (map fst (take m log)) lo m pg r" and m: "m \<le> length log" and lo: "lo \<le> P + 1"
  shows "find_written P m log pg = (if P < r then r else 0)"
proof -
  define fs where "fs = filter (\<lambda>f. fst (log ! (f - 1)) = pg) [P + 1..<m + 1]"
  have nth: "map fst (take m log) ! (f - 1) = fst (log ! (f - 1))" if "1 \<le> f" "f \<le> m" for f using that m by simp
  have mem: "f \<in> set fs \<longleftrightarrow> P < f \<and> f \<le> m \<and> fst (log ! (f - 1)) = pg" for f by (auto simp: fs_def simp del: upt_Suc)
  have fw: "find_written P m log pg = (if fs = [] then 0 else last fs)"
    unfolding find_written_def fs_def [symmetric] by (cases fs) simp_all
  show ?thesis
  proof (cases "P < r")
    case True
    then have r: "r \<le> m" "fst (log ! (r - 1)) = pg" "\<And>f. r < f \<Longrightarrow> f \<le> m \<Longrightarrow> fst (log ! (f - 1)) \<noteq> pg"
      using l nth by (auto simp: last_frame_def)
    then have rin: "r \<in> set fs" "\<And>f. f \<in> set fs \<Longrightarrow> f \<le> r" using mem True by (auto simp: not_less [symmetric])
    moreover have "sorted fs" by (simp add: fs_def sorted_wrt_filter del: upt_Suc)
    moreover have ne: "fs \<noteq> []" using rin(1) by auto
    moreover have "r \<le> last fs"
      using \<open>sorted fs\<close> \<open>r \<in> set fs\<close> ne by (auto simp: in_set_conv_nth last_conv_nth sorted_iff_nth_mono)
    ultimately have "last fs = r" "fs \<noteq> []" using last_in_set by (auto intro!: antisym)
    then show ?thesis using fw True by simp
  next
    case False
    have "f \<notin> set fs" for f
    proof
      assume "f \<in> set fs"
      then have f: "P < f" "f \<le> m" "fst (log ! (f - 1)) = pg" using mem by auto
      have "map fst (take m log) ! (f - 1) \<noteq> pg"
      proof (cases "r = 0")
        case True
        then show ?thesis using l f lo by (auto simp: last_frame_def)
      next
        case r0: False
        then show ?thesis using l f False by (auto simp: last_frame_def)
      qed
      then show False using nth [of f] f by simp
    qed
    then have "fs = []" by (cases fs) auto
    then show ?thesis using fw False by simp
  qed
qed

definition cks_only :: "Wal \<Rightarrow> Wal \<Rightarrow> bool" where
  "cks_only w w' \<longleftrightarrow> (\<exists>c r. w' = w\<lparr>hdr := (hdr w)\<lparr>aFrameCksum := c\<rparr>, iReCksum := r\<rparr>)"

lemma cks_only_trans: "cks_only u v \<Longrightarrow> cks_only v w \<Longrightarrow> cks_only u w"
proof -
  assume "cks_only u v" "cks_only v w"
  then obtain c r c' r' where "v = u\<lparr>hdr := (hdr u)\<lparr>aFrameCksum := c\<rparr>, iReCksum := r\<rparr>"
    "w = v\<lparr>hdr := (hdr v)\<lparr>aFrameCksum := c'\<rparr>, iReCksum := r'\<rparr>" by (auto simp only: cks_only_def)
  then show ?thesis unfolding cks_only_def by (intro exI [of _ c'] exI [of _ r']) simp
qed

lemma cks_only_refl [simp]: "cks_only w w"
  unfolding cks_only_def by (rule exI [of _ "aFrameCksum (hdr w)"], rule exI [of _ "iReCksum w"]) simp

lemma cks_only_fields:
  assumes "cks_only w w'"
  shows "aSalt (hdr w') = aSalt (hdr w)" "bigEndCksum (hdr w') = bigEndCksum (hdr w)" "mxFrame (hdr w') = mxFrame (hdr w)"
    "aHdr w' = aHdr w" "apWiData w' = apWiData w" "nCkpt w' = nCkpt w" "writeLock w' = writeLock w" "minFrame w' = minFrame w"
    "readLock w' = readLock w" "szPage w' = szPage w" "truncateOnCommit w' = truncateOnCommit w" "mxWalSize w' = mxWalSize w"
    "padToSectorBoundary w' = padToSectorBoundary w"
  using assms by (auto simp: cks_only_def)

lemma write_pages_ok:
  assumes env: "write_good env" and P: "P \<le> m" and first: "iFirst = P + 1 \<or> iFirst = 0 \<and> m = P"
  shows "file_ok sz w z P log \<Longrightarrow> wal_inv w (map fst (take m log)) \<Longrightarrow> mxFrame (hdr w) = of_nat m \<Longrightarrow> m \<le> length log \<Longrightarrow>
    unat (minFrame w) \<le> P + 1 \<Longrightarrow> unat (minFrame w) < 2 ^ 31 \<Longrightarrow> readLock w \<noteq> 0 \<Longrightarrow>
    \<forall>(pg, d) \<in> set ps. pg \<noteq> 0 \<and> length d = sz \<Longrightarrow> length log + length ps < 2 ^ 31 \<Longrightarrow>
    \<exists>qs w' z'. write_pages env sz fl iFirst n isCommit ps (length log) (walFrameOffset (length log + 1) sz) (w, z) =
        (SQLITE_OK, length log + length qs, walFrameOffset (length log + length qs + 1) sz, qs, w', z') \<and>
      file_ok sz w' z' P (put_pages P m isCommit n ps log) \<and> cks_only w w' \<and>
      map fst (put_pages P m isCommit n ps log) = map fst log @ map fst qs \<and>
      (isCommit \<and> ps \<noteq> [] \<longrightarrow> qs \<noteq> [] \<and> last qs = last ps)"
proof (induction ps arbitrary: w z log)
  case Nil
  then show ?case by (intro exI [of _ "[]"] exI [of _ w] exI [of _ z]) simp
next
  case (Cons p ps)
  obtain pg d where p: "p = (pg, d)" by force
  define f where "f = find_written P m log pg"
  have l31: "m < 2 ^ 31" using Cons.prems(4,9) by simp
  have gi: "env_good (windex env)" using env by (simp add: write_good_def)
  have lm: "unat (minFrame w) < 2 ^ 31" "minFrame w = of_nat (unat (minFrame w))" using Cons.prems(6) by simp_all
  obtain r where r: "walFindFrame (windex env) w pg = (SQLITE_OK, of_nat r, w)" "last_frame (map fst (take m log)) (unat (minFrame w)) m pg r"
    using find_frame [OF Cons.prems(2,3) _ lm(2,1)] Cons.prems(4,7) by auto
  have fr: "f = (if P < r then r else 0)" using find_written_latest [OF r(2) Cons.prems(4,5)] by (simp add: f_def)
  have rm: "r \<le> m" using r(2) by (auto simp: last_frame_def split: if_splits)
  have ur: "unat (of_nat r :: u32) = r" using rm l31 by (intro unat_u32) simp
  show ?case
  proof (cases "f \<noteq> 0 \<and> (ps \<noteq> [] \<or> \<not> isCommit)")
    case True
    then have f: "f = r" "P < r" "iFirst = P + 1" using fr rm first by (auto split: if_splits)
    define w1 where "w1 = (if iReCksum w = 0 \<or> of_nat r < iReCksum w then w\<lparr>iReCksum := of_nat r\<rparr> else w)"
    define z1 where "z1 = write_at z d (walFrameOffset r sz + WAL_FRAME_HDRSIZE)"
    define log1 where "log1 = log[r - 1 := (fst (log ! (r - 1)), fst (snd (log ! (r - 1))), d)]"
    have rl: "r \<le> length log" "length log < 2 ^ 31" "length d = sz" using rm Cons.prems p by auto
    have ok1: "file_ok sz w1 z1 P log1" unfolding w1_def z1_def log1_def by (rule overwrite_frame [OF Cons.prems(1) f(2) rl])
    have pgr: "fst (log ! (r - 1)) = pg" using r(2) f(2) rl Cons.prems(4) by (auto simp: last_frame_def split: if_splits)
    have "map fst log ! (r - 1) = fst (log ! (r - 1))" using rl f(2) by simp
    then have map1: "map fst log1 = map fst log" unfolding log1_def map_update using list_update_id [of "map fst log" "r - 1"] by simp
    have len1: "length log1 = length log" by (simp add: log1_def)
    have "w1 = w\<lparr>hdr := (hdr w)\<lparr>aFrameCksum := aFrameCksum (hdr w)\<rparr>, iReCksum := iReCksum w1\<rparr>" by (simp add: w1_def)
    then have c1: "cks_only w w1" unfolding cks_only_def by blast
    note cf = cks_only_fields [OF c1]
    have inv1: "wal_inv w1 (map fst (take m log1))"
      using Cons.prems(2) map1 inv_cong [OF cf(5)] by (metis take_map)
    have "\<exists>qs w' z'. write_pages env sz fl iFirst n isCommit ps (length log1) (walFrameOffset (length log1 + 1) sz) (w1, z1) =
        (SQLITE_OK, length log1 + length qs, walFrameOffset (length log1 + length qs + 1) sz, qs, w', z') \<and>
      file_ok sz w' z' P (put_pages P m isCommit n ps log1) \<and> cks_only w1 w' \<and>
      map fst (put_pages P m isCommit n ps log1) = map fst log1 @ map fst qs \<and>
      (isCommit \<and> ps \<noteq> [] \<longrightarrow> qs \<noteq> [] \<and> last qs = last ps)"
      using Cons.prems(3-9) cf len1 by (intro Cons.IH [OF ok1 inv1]) auto
    then obtain qs w' z' where w': "write_pages env sz fl iFirst n isCommit ps (length log) (walFrameOffset (length log + 1) sz) (w1, z1) =
        (SQLITE_OK, length log + length qs, walFrameOffset (length log + length qs + 1) sz, qs, w', z')"
      "file_ok sz w' z' P (put_pages P m isCommit n ps log1)" "cks_only w1 w'"
      "map fst (put_pages P m isCommit n ps log1) = map fst log @ map fst qs" "isCommit \<and> ps \<noteq> [] \<longrightarrow> qs \<noteq> [] \<and> last qs = last ps"
      unfolding len1 map1 by blast
    have run: "write_pages env sz fl iFirst n isCommit (p # ps) (length log) (walFrameOffset (length log + 1) sz) (w, z) =
      write_pages env sz fl iFirst n isCommit ps (length log) (walFrameOffset (length log + 1) sz) (w1, z1)"
      using True f r(1) env by (simp add: p ur w1_def z1_def Let_def write_good_def)
    have "put_pages P m isCommit n (p # ps) log = put_pages P m isCommit n ps log1"
      unfolding log1_def pgr using True by (simp add: p f_def [symmetric] f(1) Let_def)
    then show ?thesis using w' run cks_only_trans [OF c1 w'(3)] True by (intro exI [of _ qs] exI [of _ w'] exI [of _ z']) auto
  next
    case False
    define nd where "nd = (if isCommit \<and> ps = [] then n else 0)"
    have pl: "P \<le> length log" using P Cons.prems(4) by simp
    have pd: "pg \<noteq> 0" "length d = sz" using Cons.prems(8) p by auto
    have lim1: "length log + 1 < 2 ^ 31" using Cons.prems(9) by simp
    obtain w1 z1 where w1: "walWriteOneFrame env 0 fl (pg, d) nd (walFrameOffset (length log + 1) sz) (w, z) = (SQLITE_OK, w1, z1)"
      "file_ok sz w1 z1 P (log @ [(pg, nd, d)])" "w1 = w\<lparr>hdr := (hdr w)\<lparr>aFrameCksum := aFrameCksum (hdr w1)\<rparr>\<rparr>"
      using append_frame [OF Cons.prems(1) env pd pl lim1] by blast
    have c1: "cks_only w w1" unfolding cks_only_def
      by (rule exI [of _ "aFrameCksum (hdr w1)"], rule exI [of _ "iReCksum w"], subst w1(3)) simp
    note cf = cks_only_fields [OF c1]
    define log1 where "log1 = log @ [(pg, nd, d)]"
    have inv1: "wal_inv w1 (map fst (take m log1))" using Cons.prems(2,4) inv_cong [OF cf(5)] by (simp add: log1_def)
    have len1: "length log1 = length log + 1" by (simp add: log1_def)
    have "\<exists>qs w' z'. write_pages env sz fl iFirst n isCommit ps (length log1) (walFrameOffset (length log1 + 1) sz) (w1, z1) =
        (SQLITE_OK, length log1 + length qs, walFrameOffset (length log1 + length qs + 1) sz, qs, w', z') \<and>
      file_ok sz w' z' P (put_pages P m isCommit n ps log1) \<and> cks_only w1 w' \<and>
      map fst (put_pages P m isCommit n ps log1) = map fst log1 @ map fst qs \<and>
      (isCommit \<and> ps \<noteq> [] \<longrightarrow> qs \<noteq> [] \<and> last qs = last ps)"
      using Cons.prems(3-9) cf len1 w1(2) by (intro Cons.IH [OF _ inv1]) (auto simp: log1_def)
    then obtain qs w' z' where w': "write_pages env sz fl iFirst n isCommit ps (length log + 1) (walFrameOffset (length log + 2) sz) (w1, z1) =
        (SQLITE_OK, length log + 1 + length qs, walFrameOffset (length log + 1 + length qs + 1) sz, qs, w', z')"
      "file_ok sz w' z' P (put_pages P m isCommit n ps log1)" "cks_only w1 w'"
      "map fst (put_pages P m isCommit n ps log1) = map fst log1 @ map fst qs" "isCommit \<and> ps \<noteq> [] \<longrightarrow> qs \<noteq> [] \<and> last qs = last ps"
      unfolding len1 by auto
    have off: "walFrameOffset (length log + 1) sz + sz + WAL_FRAME_HDRSIZE = walFrameOffset (length log + 2) sz"
      by (simp add: walFrameOffset_def)
    have step: "write_pages env sz fl iFirst n isCommit ((pg, d) # ps) (L) off0 (w, z) =
      (case walWriteOneFrame env 0 fl (pg, d) nd off0 (w, z) of (rc, s) \<Rightarrow>
         if rc \<noteq> SQLITE_OK then (rc, L + 1, off0, [], s)
         else case write_pages env sz fl iFirst n isCommit ps (L + 1) (off0 + sz + WAL_FRAME_HDRSIZE) s of
            (rc, iFrame, iOffset, qs, s) \<Rightarrow> (rc, iFrame, iOffset, (pg, d) # qs, s))" for L off0
    proof (cases "iFirst \<noteq> 0 \<and> (ps \<noteq> [] \<or> \<not> isCommit)")
      case True
      then have "\<not> iFirst \<le> r" using False fr first by auto
      then show ?thesis using True r(1) by (simp add: ur nd_def)
    next
      case no: False
      then show ?thesis by (auto simp: nd_def)
    qed
    have run: "write_pages env sz fl iFirst n isCommit (p # ps) (length log) (walFrameOffset (length log + 1) sz) (w, z) =
      (SQLITE_OK, length log + length (p # qs), walFrameOffset (length log + length (p # qs) + 1) sz, p # qs, w', z')"
      unfolding p step w1(1) off prod.case w'(1) by simp
    have "put_pages P m isCommit n (p # ps) log = put_pages P m isCommit n ps log1"
      using False by (auto simp: p f_def [symmetric] log1_def nd_def Let_def)
    moreover have "last (p # qs) = last (p # ps)" if isCommit using w'(5) w'(1) that by (cases "ps = []") auto
    ultimately show ?thesis using w' run cks_only_trans [OF c1 w'(3)]
      by (intro exI [of _ "p # qs"] exI [of _ w'] exI [of _ z']) (auto simp: log1_def p)
  qed
qed

end
