(* ===== verification/WalCommit.thy ===== *)
theory WalCommit
  imports WalFile
begin

text \<open>
  The steps of \<open>walFrames\<close>, proofs: writing checksums again, padding and cutting, the header of a new file, entering
  the frames in the index and publishing a commit.
\<close>

section \<open>Checksums written again\<close>

definition part_ok :: "nat \<Rightarrow> Wal \<Rightarrow> u8 list \<Rightarrow> nat \<Rightarrow> flog \<Rightarrow> nat \<Rightarrow> bool" where
  "part_ok sz w z P log k \<longleftrightarrow> file_head sz (aSalt (hdr w)) z \<and> length (aSalt (hdr w)) = 8 \<and> bigEndCksum (hdr w) = 0 \<and>
    stored sz z log \<and> tail_ok sz z (length log) \<and> iReCksum w = 0 \<and> pub_ok sz w z P \<and> length z < file_limit sz \<and>
    frame_chain (aSalt (hdr w)) (head_cksum z) (slots sz z k) \<and> aFrameCksum (hdr w) = chain_end (aSalt (hdr w)) (head_cksum z) (slots sz z k)"

lemma part_ok_all: "part_ok sz w z P log (length log) \<longleftrightarrow> file_ok sz w z P log \<and> iReCksum w = 0"
  by (auto simp: part_ok_def file_ok_def slots_linked_def)

lemma get4_drop: "k \<le> length z \<Longrightarrow> get4 (drop k z) j = get4 z (k + j)"
  by (simp add: get4_def sqlite3Get4byte_def add.assoc)

lemma chain_single: "frame_chain salt ck [fr] \<Longrightarrow> chain_end salt ck [fr] = (get4 fr 16, get4 fr 20)"
  by (auto simp: frame_chain_def chain_end_def Let_def last_cksum_def split: if_splits)

lemma rewrite_step:
  assumes ok: "part_ok sz w z P log k" and k: "P \<le> k" "k < length log" and env: "write_good env" and pg: "\<forall>e \<in> set log. fst e \<noteq> 0"
  obtains w' z' where "\<And>fs. rewrite_frames env sz ((k + 1) # fs) (SQLITE_OK, w, z) = rewrite_frames env sz fs (SQLITE_OK, w', z')"
    "part_ok sz w' z' P log (k + 1)" "cks_only w w'"
proof -
  note o = ok [unfolded part_ok_def]
  define f where "f = k + 1"
  obtain p n d where e: "log ! k = (p, n, d)" by (metis prod_cases3)
  have sl: "get4 (slot sz z f) 0 = p" "get4 (slot sz z f) 4 = n" "drop WAL_FRAME_HDRSIZE (slot sz z f) = d"
    using o k e by (auto simp: stored_def f_def)
  have p0: "p \<noteq> 0" using pg k e by (metis fst_conv nth_mem)
  have f1: "1 \<le> f" by (simp add: f_def)
  have ff: "full sz z f" using full_mono [of sz z "length log" f] o k by (simp add: stored_def f_def)
  have fs': "walFrameOffset f sz + (sz + WAL_FRAME_HDRSIZE) \<le> length z" using ff f1 full_slot by blast
  have s8: "length (aSalt (hdr w)) = 8" using o by simp
  define h where "h = fst (walEncodeFrame w p n d)"
  define w' where "w' = snd (walEncodeFrame w p n d)"
  define z' where "z' = write_at z h (walFrameOffset f sz)"
  have h24: "length h = WAL_FRAME_HDRSIZE" using frame_length [OF s8] by (simp add: h_def)
  have "xRead env z (sz + WAL_FRAME_HDRSIZE) (walFrameOffset f sz) = (SQLITE_OK, slot sz z f)"
    using env fs' by (simp add: write_good_def slot_def)
  moreover have "walEncodeFrame w p n d = (h, w')" by (simp add: h_def w'_def)
  ultimately have run: "rewrite_frames env sz (f # fs) (SQLITE_OK, w, z) = rewrite_frames env sz fs (SQLITE_OK, w', z')" for fs
    using env sl by (simp add: Let_def write_good_def z'_def)
  note en = encoded_frame [OF s8 _ _ p0, where n = n and d = d, folded h_def w'_def]
  have w': "w' = w\<lparr>hdr := (hdr w)\<lparr>aFrameCksum := aFrameCksum (hdr w')\<rparr>\<rparr>" using en(3) o by simp
  note hf = cksum_fields [OF w']
  have c: "cks_only w w'" unfolding cks_only_def
    by (rule exI [of _ "aFrameCksum (hdr w')"], rule exI [of _ "iReCksum w"], subst w') simp
  have other: "slot sz z' g = slot sz z g" if "1 \<le> g" "g \<noteq> f" "full sz z g" for g
    using slot_other [of f g sz z "walFrameOffset f sz" h] that f1 h24 by (simp add: z'_def)
  have same: "slot sz z' f = h @ d" using slot_head [OF f1 ff h24] sl(3) by (simp add: z'_def)
  have len: "WAL_HDRSIZE \<le> length z" using o by (simp add: file_head_def)
  have hd: "file_head sz (aSalt (hdr w)) z'" "head_cksum z' = head_cksum z"
    using file_head_cong [OF header_other [OF offset_hdr len]] o len by (auto simp: z'_def write_at_length)
  have st: "stored sz z' log"
  proof -
    have "(get4 (slot sz z' (i + 1)) 0, get4 (slot sz z' (i + 1)) 4, drop WAL_FRAME_HDRSIZE (slot sz z' (i + 1))) = log ! i"
      if i: "i < length log" for i
    proof (cases "i = k")
      case True
      then show ?thesis using same encoded_fields(1,2) [OF s8, of p n d d] h24 e by (simp add: f_def h_def)
    next
      case False
      then show ?thesis using other [of "i + 1"] full_mono [of sz z "length log" "i + 1"] o i by (simp add: stored_def f_def)
    qed
    then show ?thesis using full_write o by (simp add: stored_def z'_def)
  qed
  have olds: "slots sz z' m = slots sz z m" if "m \<le> k" for m
    using other full_mono [OF ff] that by (intro slots_cong) (simp add: f_def)
  have pub: "pub_ok sz w' z' P" using o hf hd(2) olds [OF k(1)] by (simp add: pub_ok_def)
  have ch: "frame_chain (aSalt (hdr w)) (head_cksum z) (slots sz z' f) \<and> aFrameCksum (hdr w') = chain_end (aSalt (hdr w)) (head_cksum z) (slots sz z' f)"
    using o en(1,2) olds [OF order_refl] same by (simp add: f_def slots_Suc chain_append chain_end_append)
  have "tail_ok sz z' (length log)"
  proof -
    have "get4 (slot sz z' g) 4 = 0" if g: "length log < g" "full sz z' g" for g
    proof -
      have "full sz z g" using full_write_back [of sz z h "walFrameOffset f sz" g f] g h24 k by (simp add: z'_def f_def)
      then show ?thesis using o other [of g] g k by (auto simp: tail_ok_def f_def)
    qed
    then show ?thesis by (auto simp: tail_ok_def)
  qed
  moreover have "length z' < file_limit sz" using o fs' h24 by (simp add: z'_def write_at_length)
  ultimately have "part_ok sz w' z' P log f" using o hf hd st ch pub by (simp add: part_ok_def)
  then show thesis using that run c by (simp add: f_def)
qed

lemma rewrite_all:
  assumes "write_good env" "\<forall>e \<in> set log. fst e \<noteq> 0"
  shows "part_ok sz w z P log k \<Longrightarrow> P \<le> k \<Longrightarrow> k \<le> length log \<Longrightarrow> \<exists>w' z'.
    rewrite_frames env sz [k + 1..<length log + 1] (SQLITE_OK, w, z) = (SQLITE_OK, w', z') \<and> part_ok sz w' z' P log (length log) \<and> cks_only w w'"
proof (induction "length log - k" arbitrary: w z k)
  case 0
  then show ?case by simp
next
  case (Suc j)
  then have k: "k < length log" by simp
  obtain w1 z1 where s: "\<And>fs. rewrite_frames env sz ((k + 1) # fs) (SQLITE_OK, w, z) = rewrite_frames env sz fs (SQLITE_OK, w1, z1)"
    "part_ok sz w1 z1 P log (k + 1)" "cks_only w w1"
    using rewrite_step [OF Suc.prems(1,2) k assms] by blast
  have u: "[k + 1..<length log + 1] = (k + 1) # [k + 1 + 1..<length log + 1]" using k by (simp add: upt_conv_Cons)
  have "j = length log - (k + 1)" "P \<le> k + 1" "k + 1 \<le> length log" using Suc.hyps(2) Suc.prems(2) k by simp_all
  then obtain w2 z2 where w2: "rewrite_frames env sz [k + 1 + 1..<length log + 1] (SQLITE_OK, w1, z1) = (SQLITE_OK, w2, z2)"
    "part_ok sz w2 z2 P log (length log)" "cks_only w1 w2"
    using Suc.hyps(1) [OF _ s(2)] by blast
  show ?case unfolding u s(1) w2(1) using w2(2) cks_only_trans [OF s(3) w2(3)] by blast
qed

lemma rewrite_checksums:
  assumes ok: "file_ok sz w z P log" and r: "iReCksum w \<noteq> 0" and env: "write_good env" and pg: "\<forall>e \<in> set log. fst e \<noteq> 0"
    and szp: "szPage w = of_nat sz" "sz \<le> 65536"
  obtains w' z' where "walRewriteChecksums env (length log) (w, z) = (SQLITE_OK, w', z')" "file_ok sz w' z' P log" "iReCksum w' = 0" "cks_only w w'"
proof -
  note o = ok [unfolded file_ok_def]
  define k where "k = unat (iReCksum w) - 1"
  have usz: "unat (szPage w) = sz" using szp by (simp add: unat_u32)
  have rk: "unat (iReCksum w) = k + 1" "k < length log" "P \<le> k" "frame_chain (aSalt (hdr w)) (head_cksum z) (slots sz z k)"
    using o r by (auto simp: slots_linked_def k_def)
  define off where "off = (if unat (iReCksum w) = 1 then 24 else walFrameOffset (unat (iReCksum w) - 1) sz + 16)"
  have len: "WAL_HDRSIZE \<le> length z" using o by (simp add: file_head_def)
  have full: "full sz z (length log)" using o by (simp add: stored_def)
  have rd: "off + 8 \<le> length z \<and> (get4 (drop off z) 0, get4 (drop off z) 4) = chain_end (aSalt (hdr w)) (head_cksum z) (slots sz z k)"
  proof (cases k)
    case 0
    then show ?thesis using rk(1) len by (simp add: off_def get4_drop slots_def head_cksum_def WAL_HDRSIZE_def)
  next
    case (Suc j)
    have f: "walFrameOffset k sz + (sz + WAL_FRAME_HDRSIZE) \<le> length z"
      using full_mono [OF full, of k] rk(2) full_slot [of k sz z] Suc by simp
    have off: "off = walFrameOffset k sz + 16" using rk(1) Suc by (simp add: off_def)
    have "get4 (slot sz z k) i = get4 (drop (walFrameOffset k sz) z) i" if "i \<le> 20" for i
      using that by (simp add: slot_def get4_take WAL_FRAME_HDRSIZE_def)
    then have "(get4 (drop off z) 0, get4 (drop off z) 4) = (get4 (slot sz z k) 16, get4 (slot sz z k) 20)"
      using f by (simp add: off get4_drop WAL_FRAME_HDRSIZE_def add.assoc)
    also have "\<dots> = chain_end (aSalt (hdr w)) (head_cksum z) (slots sz z k)"
      using rk(4) chain_single unfolding Suc slots_Suc chain_append by (metis chain_end_append)
    finally show ?thesis using f off by (simp add: WAL_FRAME_HDRSIZE_def)
  qed
  define w1 where "w1 = w\<lparr>hdr := (hdr w)\<lparr>aFrameCksum := chain_end (aSalt (hdr w)) (head_cksum z) (slots sz z k)\<rparr>, iReCksum := 0\<rparr>"
  have "get4 (take 8 (drop off z)) 0 = get4 (drop off z) 0" "get4 (take 8 (drop off z)) 4 = get4 (drop off z) 4" by (simp_all add: get4_take)
  then have run: "walRewriteChecksums env (length log) (w, z) = rewrite_frames env sz [k + 1..<length log + 1] (SQLITE_OK, w1, z)"
    using env rd rk(1) unfolding walRewriteChecksums_def prod.case usz Let_def off_def [symmetric] by (simp add: write_good_def w1_def)
  have "part_ok sz w1 z P log k" using o rk by (simp add: part_ok_def pub_ok_def w1_def)
  then obtain w' z' where w': "rewrite_frames env sz [k + 1..<length log + 1] (SQLITE_OK, w1, z) = (SQLITE_OK, w', z')"
    "part_ok sz w' z' P log (length log)" "cks_only w1 w'" using rewrite_all [OF env pg _ rk(3)] rk(2) by (metis less_imp_le)
  have "cks_only w w1" unfolding cks_only_def w1_def by blast
  then show thesis using that w' run part_ok_all [of sz w' z' P log] cks_only_trans by metis
qed

section \<open>Padding and cutting the file\<close>

lemma pad_ok:
  assumes env: "write_good env" and pg: "pg \<noteq> 0" and d: "length d = sz"
    and sp: "sp \<le> WAL_HDRSIZE + (2 ^ 31 - 1) * (sz + WAL_FRAME_HDRSIZE)"
  shows "file_ok sz w z P log \<Longrightarrow> P \<le> length log \<Longrightarrow> \<exists>k w' z'.
    pad_frames env sz sp fl (pg, d) n (walFrameOffset (length log + 1) sz) nx (w, z) = (SQLITE_OK, nx + k, w', z') \<and>
    file_ok sz w' z' P (log @ replicate k (pg, n, d)) \<and> cks_only w w' \<and> iReCksum w' = iReCksum w \<and> k * (sz + WAL_FRAME_HDRSIZE) < sp - walFrameOffset (length log + 1) sz + (sz + WAL_FRAME_HDRSIZE)"
proof (induction "sp - walFrameOffset (length log + 1) sz" arbitrary: w z log nx rule: less_induct)
  case less
  define off where "off = walFrameOffset (length log + 1) sz"
  show ?case
  proof (cases "off < sp")
    case False
    then show ?thesis using less.prems(1) by (intro exI [of _ 0] exI [of _ w] exI [of _ z]) (simp add: pad_frames.simps off_def WAL_FRAME_HDRSIZE_def)
  next
    case True
    have "WAL_HDRSIZE + length log * (sz + WAL_FRAME_HDRSIZE) < WAL_HDRSIZE + (2 ^ 31 - 1) * (sz + WAL_FRAME_HDRSIZE)"
      using True sp unfolding off_def walFrameOffset_def by simp
    then have lim: "length log + 1 < 2 ^ 31" by (simp only: nat_add_left_cancel_less mult_less_cancel2) linarith
    obtain w1 z1 where w1: "walWriteOneFrame env sp fl (pg, d) n off (w, z) = (SQLITE_OK, w1, z1)"
      "file_ok sz w1 z1 P (log @ [(pg, n, d)])" "w1 = w\<lparr>hdr := (hdr w)\<lparr>aFrameCksum := aFrameCksum (hdr w1)\<rparr>\<rparr>"
      using append_frame [OF less.prems(1) env pg d less.prems(2) lim] unfolding off_def by blast
    have c1: "cks_only w w1" unfolding cks_only_def
      by (rule exI [of _ "aFrameCksum (hdr w1)"], rule exI [of _ "iReCksum w"], subst w1(3)) simp
    have off1: "walFrameOffset (length (log @ [(pg, n, d)]) + 1) sz = off + sz + WAL_FRAME_HDRSIZE"
      by (simp add: off_def walFrameOffset_def)
    have "sp - walFrameOffset (length (log @ [(pg, n, d)]) + 1) sz < sp - walFrameOffset (length log + 1) sz"
      unfolding off1 off_def [symmetric] using True by (simp add: WAL_FRAME_HDRSIZE_def)
    from less.hyps [OF this w1(2), of "nx + 1"] less.prems(2) obtain k w' z' where k:
      "pad_frames env sz sp fl (pg, d) n (off + sz + WAL_FRAME_HDRSIZE) (nx + 1) (w1, z1) = (SQLITE_OK, nx + 1 + k, w', z')"
      "file_ok sz w' z' P ((log @ [(pg, n, d)]) @ replicate k (pg, n, d))" "cks_only w1 w'" "iReCksum w' = iReCksum w1"
      "k * (sz + WAL_FRAME_HDRSIZE) < sp - (off + sz + WAL_FRAME_HDRSIZE) + (sz + WAL_FRAME_HDRSIZE)"
      unfolding off1 by auto
    have "pad_frames env sz sp fl (pg, d) n off nx (w, z) = (SQLITE_OK, nx + (k + 1), w', z')"
      using True w1(1) k(1) by (simp add: pad_frames.simps [of env sz sp fl "(pg, d)" n off])
    moreover have "(k + 1) * (sz + WAL_FRAME_HDRSIZE) < sp - off + (sz + WAL_FRAME_HDRSIZE)"
    proof (cases "sp \<le> off + sz + WAL_FRAME_HDRSIZE")
      case end_reached: True
      then have "k * (sz + WAL_FRAME_HDRSIZE) < 1 * (sz + WAL_FRAME_HDRSIZE)" using k(5) by simp
      then have "k = 0" by (simp only: mult_less_cancel2) simp
      then show ?thesis using True by simp
    next
      case False
      then have "k * (sz + WAL_FRAME_HDRSIZE) < sp - off" using k(5) by linarith
      then show ?thesis by (simp add: distrib_right)
    qed
    moreover have "iReCksum w' = iReCksum w" using k(4) cksum_fields(3) [OF w1(3)] by simp
    ultimately show ?thesis using k(2) cks_only_trans [OF c1 k(3)]
      by (intro exI [of _ "k + 1"] exI [of _ w'] exI [of _ z']) (simp add: off_def)
  qed
qed

lemma cut_ok:
  assumes ok: "file_ok sz w z P log" and P: "P \<le> length log" and n: "walFrameOffset (length log + 1) sz \<le> n"
  shows "file_ok sz w (take n z) P log"
proof -
  note o = ok [unfolded file_ok_def]
  have n': "WAL_HDRSIZE + length log * (sz + WAL_FRAME_HDRSIZE) \<le> n" using n by (simp add: walFrameOffset_def)
  have full: "full sz (take n z) f \<longleftrightarrow> full sz z f \<and> WAL_HDRSIZE + f * (sz + WAL_FRAME_HDRSIZE) \<le> n" for f
    by (auto simp: full_def)
  have same: "slot sz (take n z) f = slot sz z f" if "1 \<le> f" "full sz (take n z) f" for f
  proof -
    have "walFrameOffset f sz + (sz + WAL_FRAME_HDRSIZE) \<le> n" using that(2) that(1) full_slot [OF that(1), of sz "take n z"] by simp
    then show ?thesis by (simp add: slot_def drop_take min_def)
  qed
  have fl: "full sz (take n z) (length log)" using o n' full by (simp add: stored_def)
  have olds: "slots sz (take n z) m = slots sz z m" if "m \<le> length log" for m
    using same full_mono [OF fl] that by (intro slots_cong) simp
  have len: "WAL_HDRSIZE \<le> length (take n z)" using fl by (simp add: full_def)
  then have "WAL_HDRSIZE \<le> n" by simp
  then have "take WAL_HDRSIZE (take n z) = take WAL_HDRSIZE z" by (simp add: min_def)
  note hd = file_head_cong [OF this len]
  have "stored sz (take n z) log" using o fl same full_mono [OF fl] by (simp add: stored_def)
  moreover have "slots_linked sz w (take n z) P (length log)" using o hd(2) olds by (auto simp: slots_linked_def)
  moreover have "pub_ok sz w (take n z) P" using o hd(2) olds P by (auto simp: pub_ok_def)
  moreover have "tail_ok sz (take n z) (length log)" using o same full by (auto simp: tail_ok_def)
  moreover have "length (take n z) < file_limit sz" using o by (simp add: min_less_iff_disj)
  ultimately show ?thesis using o hd(1) by (simp add: file_ok_def)
qed

section \<open>The header of the file\<close>

definition page_size_ok :: "nat \<Rightarrow> bool" where
  "page_size_ok sz \<longleftrightarrow> 512 \<le> sz \<and> sz \<le> 65536 \<and> (of_nat sz AND (of_nat sz - 1)) = (0 :: u32)"

lemma sint_of_size: "page_size_ok sz \<Longrightarrow> sint (of_nat sz :: u32) = int sz"
  by (simp add: page_size_ok_def signed_of_nat signed_take_bit_int_eq_self)

lemma write_header_ok:
  assumes env: "write_good env" and sz: "page_size_ok sz" and s8: "length (aSalt (hdr w)) = 8" and i: "iReCksum w = 0" and t: "tail_ok sz z 0"
    and lim: "length z < file_limit sz"
  obtains w' z' h where "write_header env sz fl (w, z) = (SQLITE_OK, w', z')" "file_ok sz w' z' 0 []"
    "w' = w\<lparr>szPage := of_nat sz, hdr := h, truncateOnCommit := True\<rparr>" "mxFrame h = mxFrame (hdr w)" "WAL_HDRSIZE \<le> length z'" "get4 z' 8 = of_nat sz"
proof -
  define w0 where "w0 = (if nCkpt w = 0 then w\<lparr>hdr := (hdr w)\<lparr>aSalt := random_salt env\<rparr>\<rparr> else w)"
  have s0: "length (aSalt (hdr w0)) = 8" using s8 env by (simp add: w0_def write_good_def)
  define b where "b = wal_header_bytes w0 sz"
  define ck where "ck = walChecksumBytes True b None"
  define c where "c = b @ put4 (fst ck) @ put4 (snd ck)"
  define w' where "w' = w0\<lparr>szPage := of_nat sz, hdr := (hdr w0)\<lparr>bigEndCksum := 0, aFrameCksum := ck\<rparr>, truncateOnCommit := True\<rparr>"
  define z' where "z' = write_at z c 0"
  have run: "write_header env sz fl (w, z) = (SQLITE_OK, w', z')"
    using env by (simp add: write_header_def Let_def w0_def [symmetric] b_def [symmetric] ck_def [symmetric] c_def [symmetric] w'_def z'_def write_good_def)
  have b: "b = put4 WAL_MAGIC @ put4 WAL_MAX_VERSION @ put4 (of_nat sz) @ put4 (nCkpt w0) @ aSalt (hdr w0)"
    by (simp add: b_def wal_header_bytes_def)
  have lb: "length b = 24" using s0 by (simp add: b)
  have lc: "length c = WAL_HDRSIZE" using lb by (simp add: c_def WAL_HDRSIZE_def)
  have t32: "take WAL_HDRSIZE z' = c" using write_at_here [of c 0 z] lc by (simp add: z'_def)
  have g: "get4 z' k = get4 c k" if "k \<le> 28" for k
    using get4_take [of k WAL_HDRSIZE z', unfolded t32] that by (simp add: WAL_HDRSIZE_def)
  have c0: "get4 c 0 = WAL_MAGIC" "get4 c 4 = WAL_MAX_VERSION" "get4 c 8 = of_nat sz"
    using get4_put4 [of 0 "[]" WAL_MAGIC] get4_put4 [of 4 "put4 WAL_MAGIC" WAL_MAX_VERSION] get4_put4 [of 8 "put4 WAL_MAGIC @ put4 WAL_MAX_VERSION" "of_nat sz"]
    by (simp_all add: c_def b)
  have c24: "get4 c 24 = fst ck" "get4 c 28 = snd ck"
    using get4_put4 [of 24 b "fst ck" "put4 (snd ck)"] get4_put4 [of 28 "b @ put4 (fst ck)" "snd ck" "[]"] lb by (simp_all add: c_def)
  have "take 24 z' = take 24 (take WAL_HDRSIZE z')" "take 8 (drop 16 z') = take 8 (drop 16 (take WAL_HDRSIZE z'))"
    by (simp_all add: WAL_HDRSIZE_def drop_take)
  then have tk: "take 24 z' = b" "take 8 (drop 16 z') = aSalt (hdr w0)" using lb s0 by (simp_all add: t32 c_def b)
  have len: "WAL_HDRSIZE \<le> length z'" by (simp add: z'_def write_at_length lc)
  have "header_ok z'"
    using sz tk(1) c24 c0 sint_of_size [OF sz] by (simp add: header_ok_def g WAL_MAGIC_def page_size_ok_def ck_def prod_eq_iff)
  then have head: "file_head sz (aSalt (hdr w0)) z'" using len tk(2) c0 by (simp add: file_head_def g)
  have "tail_ok sz z' 0"
  proof -
    have "get4 (slot sz z' f) 4 = 0" if f: "0 < f" "full sz z' f" for f
    proof -
      obtain j where j: "f = Suc j" using f(1) gr0_implies_Suc by blast
      have fz: "full sz z f" using f(2) lc j by (auto simp: full_def z'_def write_at_length max_def WAL_FRAME_HDRSIZE_def split: if_splits)
      have "0 + length c \<le> walFrameOffset f sz" using offset_hdr [of f sz] lc by simp
      then have "slot sz z' f = slot sz z f" unfolding slot_def z'_def by (subst write_at_behind) simp_all
      then show ?thesis using t f(1) fz by (simp add: tail_ok_def)
    qed
    then show ?thesis by (simp add: tail_ok_def)
  qed
  moreover have "length z' < file_limit sz"
    using lim lc below_limit [of "[]" sz] by (simp add: z'_def write_at_length)
  ultimately have ok: "file_ok sz w' z' 0 []"
    using head s0 len i g c24 by (simp add: file_ok_def w'_def stored_def full_def slots_linked_def slots_def pub_ok_def head_cksum_def w0_def)
  define h where "h = (hdr w0)\<lparr>bigEndCksum := 0, aFrameCksum := ck\<rparr>"
  have "w' = w\<lparr>szPage := of_nat sz, hdr := h, truncateOnCommit := True\<rparr>" by (simp add: w'_def h_def w0_def)
  moreover have "mxFrame h = mxFrame (hdr w)" by (simp add: h_def w0_def)
  ultimately show thesis using that run ok len g [of 8] c0(3) by simp
qed

section \<open>The end of a write\<close>

lemma index_ok:
  assumes rel: "wal_rel w a" and env: "env_good env" and ok: "op_ok a (Frames ps n c)"
  obtains w' where "walFrames_index env w ps n c = (SQLITE_OK, w')" "wal_rel w' (log_do SQLITE_OK (Frames ps n c) a)"
    "aSalt (hdr w') = aSalt (hdr w)" "bigEndCksum (hdr w') = bigEndCksum (hdr w)" "aFrameCksum (hdr w') = aFrameCksum (hdr w)"
    "iReCksum w' = iReCksum w" "szPage w' = szPage w" "minFrame w' = minFrame w" "readLock w' = readLock w" "nCkpt w' = nCkpt w"
    "fst (aHdr w') = (if c then hdr w' else fst (aHdr w))"
proof -
  obtain rc w' where f: "walFrames_index env w ps n c = (rc, w')" by force
  have e: "env_ok env" "grow_ok env" "\<And>i. \<exists>pg. shm_map env i = (SQLITE_OK, Some pg)" using env by (auto simp: env_good_def)
  have rc: "rc = SQLITE_OK" using frames_rel(2) [OF rel e(1) ok f] hashget_rc [OF e(2,3)] by auto
  obtain rc1 g w1 where a: "append_frames env w (mxFrame (hdr w)) ps = (rc1, g, w1)" by (metis prod_cases3)
  have r: "wal_inv w (frames a)" "mxFrame (hdr w) = of_nat (length (frames a))" using rel by (simp_all add: wal_rel_def)
  have w1: "w1 = w\<lparr>apWiData := apWiData w1\<rparr>"
    using append_frames_inv [OF e(1) r(1,2) le_refl _ _ _ a [unfolded r(2)]] ok by auto
  have rc1: "rc1 = SQLITE_OK" using f rc by (auto simp: walFrames_index_def a Let_def split: if_splits)
  define h where "h = (hdr w1)\<lparr>hszPage := ucast ((szPage w1 AND 0xff00) OR drop_bit 16 (szPage w1)), mxFrame := g\<rparr>"
  define h2 where "h2 = (if c then h\<lparr>iChange := iChange h + 1, nPage := n\<rparr> else h)"
  have w': "w' = (if c then walIndexWriteHdr (w1\<lparr>hdr := h2\<rparr>) else w1\<lparr>hdr := h2\<rparr>)"
    using f rc1 by (cases c) (simp_all add: walFrames_index_def a h_def h2_def Let_def)
  have fields: "szPage w1 = szPage w" "minFrame w1 = minFrame w" "readLock w1 = readLock w" "iReCksum w1 = iReCksum w" by (subst w1, simp)+
  note fr = frame_fields [OF w1]
  have "aSalt h2 = aSalt (hdr w)" "bigEndCksum h2 = bigEndCksum (hdr w)" "aFrameCksum h2 = aFrameCksum (hdr w)"
    by (cases c; simp add: h2_def h_def fr)+
  then have "aSalt (hdr w') = aSalt (hdr w)" "bigEndCksum (hdr w') = bigEndCksum (hdr w)" "aFrameCksum (hdr w') = aFrameCksum (hdr w)"
    "iReCksum w' = iReCksum w" "szPage w' = szPage w" "minFrame w' = minFrame w" "readLock w' = readLock w" "nCkpt w' = nCkpt w"
    "fst (aHdr w') = (if c then hdr w' else fst (aHdr w))"
    by (cases c; simp add: w' walIndexWriteHdr_def Let_def fields fr)+
  moreover have "wal_rel w' (log_do SQLITE_OK (Frames ps n c) a)" using frames_rel(1) [OF rel e(1) ok f] rc by simp
  ultimately show thesis using that f rc by blast
qed

lemma file_ok_cong:
  assumes "file_ok sz w z P log" "aSalt (hdr w') = aSalt (hdr w)" "bigEndCksum (hdr w') = bigEndCksum (hdr w)"
    "aFrameCksum (hdr w') = aFrameCksum (hdr w)" "iReCksum w' = iReCksum w" "fst (aHdr w') = fst (aHdr w)"
  shows "file_ok sz w' z P log"
  using assms by (simp add: file_ok_def slots_linked_def pub_ok_def split: if_splits)

text \<open>A commit: everything up to the end of the log is published.\<close>

lemma file_ok_publish:
  assumes "file_ok sz w z P log" "aSalt (hdr w') = aSalt (hdr w)" "bigEndCksum (hdr w') = bigEndCksum (hdr w)"
    "aFrameCksum (hdr w') = aFrameCksum (hdr w)" "iReCksum w' = 0" "iReCksum w = 0" "fst (aHdr w') = hdr w'"
  shows "file_ok sz w' z (length log) log"
  using assms by (simp add: file_ok_def slots_linked_def pub_ok_def)

lemma pad_and_sync_ok:
  assumes env: "write_good env" and ok: "file_ok sz w z P log" and P: "P \<le> length log" and sz: "page_size_ok sz" and d: "length d = sz" and pg: "pg \<noteq> 0"
    and l: "length log + 200 < 2 ^ 31"
  obtains k w' z' where "pad_and_sync env sz fl (pg, d) n (walFrameOffset (length log + 1) sz) (w, z) = (SQLITE_OK, k, False, w', z')"
    "file_ok sz w' z' P (log @ replicate k (pg, n, d))" "cks_only w w'" "k \<le> 200" "iReCksum w' = iReCksum w"
proof (cases "padToSectorBoundary w")
  case False
  then have "pad_and_sync env sz fl (pg, d) n (walFrameOffset (length log + 1) sz) (w, z) = (SQLITE_OK, 0, False, w, z)"
    using env by (simp add: pad_and_sync_def write_good_def)
  then show thesis using that ok by simp
next
  case True
  define S where "S = sqlite3SectorSize env"
  have S: "1 \<le> S" "S \<le> 65536" by (auto simp: S_def sqlite3SectorSize_def MAX_SECTOR_SIZE_def)
  define off where "off = walFrameOffset (length log + 1) sz"
  define sp where "sp = ((off + S - 1) div S) * S"
  have sp: "sp \<le> off + S - 1" unfolding sp_def by (rule div_times_less_eq_dividend)
  have "512 \<le> sz" using sz by (simp add: page_size_ok_def)
  then have "200 * 512 \<le> 200 * (sz + WAL_FRAME_HDRSIZE)" by simp
  then have "sp \<le> WAL_HDRSIZE + (length log + 200) * (sz + WAL_FRAME_HDRSIZE)"
    using sp S by (simp add: off_def walFrameOffset_def distrib_right)
  also have "\<dots> \<le> WAL_HDRSIZE + (2 ^ 31 - 1) * (sz + WAL_FRAME_HDRSIZE)" using l by (intro add_left_mono mult_le_mono1) simp
  finally have splim: "sp \<le> WAL_HDRSIZE + (2 ^ 31 - 1) * (sz + WAL_FRAME_HDRSIZE)" .
  obtain k w' z' where k: "pad_frames env sz sp fl (pg, d) n off 0 (w, z) = (SQLITE_OK, k, w', z')"
    "file_ok sz w' z' P (log @ replicate k (pg, n, d))" "cks_only w w'" "iReCksum w' = iReCksum w" "k * (sz + WAL_FRAME_HDRSIZE) < sp - off + (sz + WAL_FRAME_HDRSIZE)"
    using pad_ok [OF env pg d splim ok P, of fl n 0] unfolding off_def by auto
  have "k * (sz + WAL_FRAME_HDRSIZE) < 65536 + (sz + WAL_FRAME_HDRSIZE)" using k(5) S sp by linarith
  moreover have "512 \<le> sz" using sz by (simp add: page_size_ok_def)
  moreover have "200 * (sz + WAL_FRAME_HDRSIZE) < k * (sz + WAL_FRAME_HDRSIZE)" if "200 < k"
    using that by (intro mult_strict_right_mono) (simp_all add: WAL_FRAME_HDRSIZE_def)
  ultimately have "k \<le> 200" by (cases "200 < k") auto
  moreover have "pad_and_sync env sz fl (pg, d) n off (w, z) = (SQLITE_OK, k, False, w', z')"
    unfolding pad_and_sync_def Let_def S_def [symmetric] sp_def [symmetric] using True k(1) env by (simp add: write_good_def)
  ultimately show thesis using that k(2-4) by (simp add: off_def)
qed

section \<open>The log of a write\<close>

lemma put_pages_last:
  "isCommit \<Longrightarrow> ps \<noteq> [] \<Longrightarrow> put_pages P m isCommit n ps log \<noteq> [] \<and> last (put_pages P m isCommit n ps log) = (fst (last ps), n, snd (last ps))"
  by (induction P m isCommit n ps log rule: put_pages.induct) (auto simp: Let_def)

lemma find_written_bounds: "find_written P m log pg \<noteq> 0 \<Longrightarrow> P < find_written P m log pg \<and> find_written P m log pg \<le> m"
proof -
  define fs where "fs = filter (\<lambda>f. fst (log ! (f - 1)) = pg) [P + 1..<m + 1]"
  assume "find_written P m log pg \<noteq> 0"
  then have "fs \<noteq> [] \<and> find_written P m log pg = last fs" unfolding find_written_def fs_def [symmetric] by (cases fs) simp_all
  then have "find_written P m log pg \<in> set fs" by simp
  then show ?thesis by (auto simp: fs_def simp del: upt_Suc)
qed

lemma put_pages_prefix: "P \<le> length log \<Longrightarrow> take P (put_pages P m isCommit n ps log) = take P log"
proof (induction P m isCommit n ps log rule: put_pages.induct)
  case (2 P m isCommit n pg d ps log)
  then show ?case using find_written_bounds [of P m log pg] by (auto simp: Let_def)
qed simp

lemma put_pages_plain:
  "\<not> isCommit \<Longrightarrow> m \<le> length log \<Longrightarrow> \<forall>i < length log. P \<le> i \<longrightarrow> fst (snd (log ! i)) = 0 \<Longrightarrow>
   i < length (put_pages P m isCommit n ps log) \<Longrightarrow> P \<le> i \<Longrightarrow> fst (snd (put_pages P m isCommit n ps log ! i)) = 0"
proof (induction P m isCommit n ps log rule: put_pages.induct)
  case (2 P m isCommit n pg d ps log)
  define f where "f = find_written P m log pg"
  show ?case
  proof (cases "f = 0")
    case True
    have "\<forall>i < length (log @ [(pg, 0, d)]). P \<le> i \<longrightarrow> fst (snd ((log @ [(pg, 0, d)]) ! i)) = 0"
      using 2(5) by (auto simp: nth_append less_Suc_eq)
    then show ?thesis using 2 True by (simp add: f_def [symmetric] Let_def)
  next
    case False
    have b: "P < f" "f \<le> m" using find_written_bounds [of P m log pg] False by (simp_all add: f_def)
    define log1 where "log1 = log[f - 1 := (pg, fst (snd (log ! (f - 1))), d)]"
    have "\<forall>i < length log1. P \<le> i \<longrightarrow> fst (snd (log1 ! i)) = 0"
    proof (intro allI impI)
      fix i
      assume i: "i < length log1" "P \<le> i"
      then have "fst (snd (log ! i)) = 0" using 2(5) by (simp add: log1_def)
      then show "fst (snd (log1 ! i)) = 0" using i by (cases "i = f - 1") (simp_all add: log1_def)
    qed
    then show ?thesis using 2(1) [OF f_def] 2(3-7) False by (simp add: f_def [symmetric] Let_def log1_def)
  qed
qed simp

lemma stored_entry:
  assumes "file_ok sz w z P log" "e \<in> set log"
  shows "length (snd (snd e)) = sz"
  using assms stored_length by (auto simp: file_ok_def in_set_conv_nth)

section \<open>The end of a write\<close>

lemma commit_ok:
  assumes env: "write_good env" and ok: "file_ok sz w z P log1" and sz: "page_size_ok sz" and szp: "szPage w = of_nat sz"
    and rel: "wal_rel w \<lparr>frames = map fst log, published = P, generation = nCkpt w\<rparr>"
    and ext: "map fst log1 = map fst log @ map fst qs" and pg: "\<forall>e \<in> set log1. fst e \<noteq> 0" and len: "length log1 + 200 < 2 ^ 31"
    and c: "isCommit \<longrightarrow> qs \<noteq> [] \<and> log1 \<noteq> [] \<and> last log1 = (fst (last qs), n, snd (last qs))"
  shows "\<exists>k w' z' P'. write_commit env sz fl n isCommit (length log1) (walFrameOffset (length log1 + 1) sz) qs (w, z) = (SQLITE_OK, w', z') \<and>
    P' = (if isCommit then length log1 + k else P) \<and> (k \<noteq> 0 \<longrightarrow> isCommit \<and> WAL_SYNC_FLAGS fl \<noteq> 0) \<and>
    wal_rel w' \<lparr>frames = map fst (log1 @ replicate k (last log1)), published = P', generation = nCkpt w'\<rparr> \<and>
    file_ok sz w' z' P' (log1 @ replicate k (last log1)) \<and> szPage w' = of_nat sz \<and> minFrame w' = minFrame w \<and> readLock w' = readLock w \<and>
    fst (aHdr w') = (if isCommit then hdr w' else fst (aHdr w)) \<and> length (aSalt (hdr w')) = 8"
proof -
  have szs: "sz \<le> 65536" using sz by (simp add: page_size_ok_def)
  have PL: "P \<le> length log" using rel by (simp add: wal_rel_def)
  have ll: "length log1 = length log + length qs" using arg_cong [OF ext, of length] by simp
  obtain w1 z1 where w1: "(if isCommit \<and> iReCksum w \<noteq> 0 then walRewriteChecksums env (length log1) (w, z) else (SQLITE_OK, w, z)) = (SQLITE_OK, w1, z1)"
    "file_ok sz w1 z1 P log1" "isCommit \<longrightarrow> iReCksum w1 = 0" "cks_only w w1"
  proof (cases "isCommit \<and> iReCksum w \<noteq> 0")
    case True
    then show thesis using rewrite_checksums [OF ok _ env pg szp szs] that by (metis (full_types))
  qed (use ok that in auto)
  obtain k w2 z2 where w2: "(if isCommit \<and> WAL_SYNC_FLAGS fl \<noteq> 0 then pad_and_sync env sz fl (last qs) n (walFrameOffset (length log1 + 1) sz) (w1, z1)
      else (SQLITE_OK, 0, False, w1, z1)) = (SQLITE_OK, k, False, w2, z2)"
    "file_ok sz w2 z2 P (log1 @ replicate k (last log1))" "cks_only w1 w2" "k \<le> 200" "iReCksum w2 = iReCksum w1" "k \<noteq> 0 \<longrightarrow> isCommit \<and> WAL_SYNC_FLAGS fl \<noteq> 0"
  proof (cases "isCommit \<and> WAL_SYNC_FLAGS fl \<noteq> 0")
    case True
    then have q: "log1 \<noteq> []" "last log1 = (fst (last qs), n, snd (last qs))" "last qs = (fst (last qs), snd (last qs))" using c by simp_all
    then have m: "(fst (last qs), n, snd (last qs)) \<in> set log1" using last_in_set by metis
    have "length (snd (last qs)) = sz" "fst (last qs) \<noteq> 0" using stored_entry [OF w1(2) m] pg m by auto
    moreover have "P \<le> length log1" using PL ll by simp
    ultimately obtain k w2 z2 where "pad_and_sync env sz fl (fst (last qs), snd (last qs)) n (walFrameOffset (length log1 + 1) sz) (w1, z1) = (SQLITE_OK, k, False, w2, z2)"
      "file_ok sz w2 z2 P (log1 @ replicate k (fst (last qs), n, snd (last qs)))" "cks_only w1 w2" "k \<le> 200" "iReCksum w2 = iReCksum w1"
      using pad_and_sync_ok [OF env w1(2) _ sz _ _ len] by metis
    then show thesis using that True q by simp
  next
    case False
    then show thesis using w1(2) by (intro that [of 0 w1 z1]) auto
  qed
  define log2 where "log2 = log1 @ replicate k (last log1)"
  have l2: "length log2 = length log1 + k" by (simp add: log2_def)
  define end_off where "end_off = walFrameOffset (length log1 + k + 1) sz"
  define sz' where "sz' = (if mxWalSize w2 < int end_off then end_off else nat (mxWalSize w2))"
  define w3 where "w3 = (if isCommit \<and> truncateOnCommit w2 \<and> 0 \<le> mxWalSize w2 then w2\<lparr>truncateOnCommit := False\<rparr> else w2)"
  define z3 where "z3 = (if isCommit \<and> truncateOnCommit w2 \<and> 0 \<le> mxWalSize w2 then walLimitSize env sz' z2 else z2)"
  have "end_off \<le> sz'" by (auto simp: sz'_def)
  then have "file_ok sz w2 (take sz' z2) P log2" using w2(2) PL ll by (intro cut_ok) (simp_all add: log2_def end_off_def)
  then have "file_ok sz w2 z3 P log2" using w2(2) env by (simp add: z3_def walLimitSize_def write_good_def log2_def)
  then have ok3: "file_ok sz w3 z3 P log2" by (rule file_ok_cong) (simp_all add: w3_def)
  note cf = cks_only_fields [OF cks_only_trans [OF w1(4) w2(3)]]
  have f3: "apWiData w3 = apWiData w" "mxFrame (hdr w3) = mxFrame (hdr w)" "aHdr w3 = aHdr w" "nCkpt w3 = nCkpt w" "writeLock w3 = writeLock w"
    "szPage w3 = szPage w" "minFrame w3 = minFrame w" "readLock w3 = readLock w" "iReCksum w3 = iReCksum w2"
    using cf by (simp_all add: w3_def)
  have rel3: "wal_rel w3 \<lparr>frames = map fst log, published = P, generation = nCkpt w\<rparr>"
    using rel f3 inv_cong [OF f3(1)] by (simp add: wal_rel_def)
  have last_pg: "replicate k (fst (last qs)) = map fst (replicate k (last log1))"
    using c w2(6) by (cases isCommit) simp_all
  have maps: "map fst log @ (map fst qs @ replicate k (fst (last qs))) = map fst log2"
    using ext last_pg by (simp add: log2_def)
  have nz: "0 \<notin> set (map fst qs @ replicate k (fst (last qs)))"
  proof -
    have "set (map fst qs) \<subseteq> fst ` set log1" using arg_cong [OF ext, of set] by auto
    moreover have "set (replicate k (fst (last qs))) \<subseteq> fst ` set log1"
    proof (cases "k = 0")
      case False
      then have cc: isCommit using w2(6) by blast
      then have "last log1 \<in> set log1" using c last_in_set [of log1] by blast
      moreover have "fst (last qs) = fst (last log1)" using c cc by simp
      ultimately show ?thesis using False by simp
    qed simp
    ultimately show ?thesis using pg by force
  qed
  have opk: "op_ok \<lparr>frames = map fst log, published = P, generation = nCkpt w\<rparr> (Frames (map fst qs @ replicate k (fst (last qs))) n isCommit)"
    using nz len ll w2(4) by simp
  have gi: "env_good (windex env)" using env by (simp add: write_good_def)
  obtain w4 where w4: "walFrames_index (windex env) w3 (map fst qs @ replicate k (fst (last qs))) n isCommit = (SQLITE_OK, w4)"
    "wal_rel w4 (log_do SQLITE_OK (Frames (map fst qs @ replicate k (fst (last qs))) n isCommit) \<lparr>frames = map fst log, published = P, generation = nCkpt w\<rparr>)"
    "aSalt (hdr w4) = aSalt (hdr w3)" "bigEndCksum (hdr w4) = bigEndCksum (hdr w3)" "aFrameCksum (hdr w4) = aFrameCksum (hdr w3)"
    "iReCksum w4 = iReCksum w3" "szPage w4 = szPage w3" "minFrame w4 = minFrame w3" "readLock w4 = readLock w3" "nCkpt w4 = nCkpt w3"
    "fst (aHdr w4) = (if isCommit then hdr w4 else fst (aHdr w3))"
    using index_ok [OF rel3 gi opk] by blast
  define w5 where "w5 = (if isCommit then w4\<lparr>iCallback := mxFrame (hdr w4)\<rparr> else w4)"
  define P' where "P' = (if isCommit then length log1 + k else P)"
  have rel5: "wal_rel w5 \<lparr>frames = map fst log2, published = P', generation = nCkpt w5\<rparr>"
  proof -
    have e: "apWiData w5 = apWiData w4" "hdr w5 = hdr w4" "aHdr w5 = aHdr w4" "nCkpt w5 = nCkpt w4" "writeLock w5 = writeLock w4" by (simp_all add: w5_def)
    have "log_do SQLITE_OK (Frames (map fst qs @ replicate k (fst (last qs))) n isCommit) \<lparr>frames = map fst log, published = P, generation = nCkpt w\<rparr> =
      \<lparr>frames = map fst log2, published = P', generation = nCkpt w\<rparr>"
      using maps ll l2 by (simp add: P'_def)
    then have "wal_rel w4 \<lparr>frames = map fst log2, published = P', generation = nCkpt w\<rparr>" using w4(2) by simp
    then show ?thesis using e inv_cong [OF e(1)] w4(10) f3(4) by (simp add: wal_rel_def)
  qed
  have ok5: "file_ok sz w5 z3 P' log2"
  proof (cases isCommit)
    case True
    have "file_ok sz w5 z3 (length log2) log2"
      by (rule file_ok_publish [OF ok3]) (use w4 w5_def f3 w2(5) w1(3) True in simp_all)
    then show ?thesis using True by (simp add: P'_def l2)
  next
    case False
    have "file_ok sz w5 z3 P log2" by (rule file_ok_cong [OF ok3]) (use w4 w5_def False in simp_all)
    then show ?thesis using False by (simp add: P'_def)
  qed
  have run: "write_commit env sz fl n isCommit (length log1) (walFrameOffset (length log1 + 1) sz) qs (w, z) = (SQLITE_OK, w5, z3)"
    unfolding write_commit_def fst_conv w1(1) prod.case w2(1) Let_def end_off_def [symmetric] sz'_def [symmetric]
    using w4(1) by (auto simp: w3_def z3_def w5_def split: if_splits)
  have "length (aSalt (hdr w5)) = 8" using ok5 by (simp add: file_ok_def)
  moreover have "szPage w5 = of_nat sz" "minFrame w5 = minFrame w" "readLock w5 = readLock w" "fst (aHdr w5) = (if isCommit then hdr w5 else fst (aHdr w))"
    using w4(7-9,11) f3 szp by (simp_all add: w5_def)
  ultimately show ?thesis using run rel5 ok5 w2(6) unfolding log2_def P'_def
    by (intro exI [of _ k] exI [of _ w5] exI [of _ z3] exI conjI refl) simp_all
qed

end
