(* ===== verification/WalCrash.thy ===== *)
theory WalCrash
  imports WalCommit
begin

text \<open>
  The writer of the log as the implementation of an abstract durable log, and what recovery makes of its file: the
  properties of the write-ahead log across writes, rollbacks, commits and a crash.
\<close>

lemma put_pages_size: "length log \<le> length (put_pages P m isCommit n ps log) \<and> length (put_pages P m isCommit n ps log) \<le> length log + length ps"
  by (induction P m isCommit n ps log rule: put_pages.induct) (auto simp: Let_def)

lemma put_pages_pages: "set (map fst (put_pages P m isCommit n ps log)) \<subseteq> set (map fst log) \<union> set (map fst ps)"
proof (induction P m isCommit n ps log rule: put_pages.induct)
  case (2 P m isCommit n pg d ps log)
  define f where "f = find_written P m log pg"
  show ?case
  proof (cases "f \<noteq> 0 \<and> (ps \<noteq> [] \<or> \<not> isCommit)")
    case True
    define log1 where "log1 = log[f - 1 := (pg, fst (snd (log ! (f - 1))), d)]"
    have e: "put_pages P m isCommit n ((pg, d) # ps) log = put_pages P m isCommit n ps log1"
      using True by (simp add: f_def [symmetric] log1_def Let_def)
    have "set log1 \<subseteq> insert (pg, fst (snd (log ! (f - 1))), d) (set log)" unfolding log1_def by (rule set_update_subset_insert)
    then have "set (map fst log1) \<subseteq> insert pg (set (map fst log))" by auto
    moreover have "set (map fst (put_pages P m isCommit n ps log1)) \<subseteq> set (map fst log1) \<union> set (map fst ps)"
      using 2(1) [OF f_def True] by (simp only: log1_def)
    ultimately show ?thesis unfolding e list.map fst_conv list.set by blast
  next
    case False
    then have e: "put_pages P m isCommit n ((pg, d) # ps) log = put_pages P m isCommit n ps (log @ [(pg, if isCommit \<and> ps = [] then n else 0, d)])"
      by (auto simp: f_def [symmetric] Let_def)
    show ?thesis unfolding e using 2(2) [OF f_def False] by auto
  qed
qed simp

lemma put_pages_ne: "m \<le> length log \<Longrightarrow> ps \<noteq> [] \<Longrightarrow> put_pages P m isCommit n ps log \<noteq> []"
proof (cases ps)
  case (Cons p qs)
  assume m: "m \<le> length log"
  obtain pg d where p: "p = (pg, d)" by force
  define f where "f = find_written P m log pg"
  have "\<exists>log'. log' \<noteq> [] \<and> put_pages P m isCommit n (p # qs) log = put_pages P m isCommit n qs log'"
  proof (cases "f \<noteq> 0 \<and> (qs \<noteq> [] \<or> \<not> isCommit)")
    case True
    then have "log[f - 1 := (pg, fst (snd (log ! (f - 1))), d)] \<noteq> []" using find_written_bounds [of P m log pg] m by (auto simp: f_def)
    then show ?thesis using True by (intro exI [of _ "log[f - 1 := (pg, fst (snd (log ! (f - 1))), d)]"]) (simp add: p f_def [symmetric] Let_def)
  next
    case False
    then show ?thesis
      by (intro exI [of _ "log @ [(pg, if isCommit \<and> qs = [] then n else 0, d)]"]) (auto simp: p f_def [symmetric] Let_def)
  qed
  then obtain log' where l: "log' \<noteq> []" "put_pages P m isCommit n (p # qs) log = put_pages P m isCommit n qs log'" by blast
  then have "length (put_pages P m isCommit n qs log') \<noteq> 0" using put_pages_size [of log' P m isCommit n qs] by (cases log') auto
  then show ?thesis using l(2) Cons by auto
qed simp

section \<open>Histories of a log and its file\<close>

datatype write_op = Write "page list" u32 bool nat | Rollback

text \<open>The result of an operation: its code and \<open>mxFrame\<close> behind it.\<close>

fun write_do :: "nat \<Rightarrow> write_env \<Rightarrow> write_op \<Rightarrow> Wal \<times> u8 list \<Rightarrow> (nat \<times> nat) \<times> Wal \<times> u8 list" where
  "write_do sz env (Write ps n c fl) s =
    (case walFrames (\<lambda>s. (SQLITE_OK, s)) env sz ps n c fl s of (rc, s) \<Rightarrow> ((rc, unat (mxFrame (hdr (fst s)))), s))"
| "write_do sz env Rollback s =
    (case sqlite3WalUndo (windex env) (fst s) (\<lambda>p. SQLITE_OK) of (rc, ps, w) \<Rightarrow> ((rc, unat (mxFrame (hdr w))), w, snd s))"

text \<open>
  The abstract log: its frames and how many of them are committed.  A commit may repeat its last frame, up to
  \<open>mxFrame\<close>, to fill a sector.
\<close>

fun log_write :: "nat \<times> nat \<Rightarrow> write_op \<Rightarrow> flog \<times> nat \<Rightarrow> flog \<times> nat" where
  "log_write r (Write ps n c fl) (log, P) =
    (let log1 = put_pages P (length log) c n ps log; log2 = log1 @ replicate (snd r - length log1) (last log1)
     in (log2, if c then length log2 else P))"
| "log_write r Rollback (log, P) = (take P log, P)"

fun write_ok :: "nat \<Rightarrow> flog \<times> nat \<Rightarrow> write_op \<Rightarrow> bool" where
  "write_ok sz (log, P) (Write ps n c fl) \<longleftrightarrow>
    ps \<noteq> [] \<and> (\<forall>(pg, d) \<in> set ps. pg \<noteq> 0 \<and> length d = sz) \<and> (c \<longleftrightarrow> n \<noteq> 0) \<and> length log + length ps + 200 < 2 ^ 31"
| "write_ok sz (log, P) Rollback \<longleftrightarrow> True"

definition dur_rel :: "nat \<Rightarrow> Wal \<times> u8 list \<Rightarrow> flog \<times> nat \<Rightarrow> bool" where
  "dur_rel sz s a \<longleftrightarrow> (case (s, a) of ((w, z), (log, P)) \<Rightarrow>
    page_size_ok sz \<and> wal_rel w \<lparr>frames = map fst log, published = P, generation = nCkpt w\<rparr> \<and>
    length (aSalt (hdr w)) = 8 \<and> length (aSalt (fst (aHdr w))) = 8 \<and> readLock w \<noteq> 0 \<and> unat (minFrame w) \<le> P + 1 \<and>
    (\<forall>i < length log. P \<le> i \<longrightarrow> fst (snd (log ! i)) = 0) \<and> (0 < P \<longrightarrow> fst (snd (log ! (P - 1))) \<noteq> 0) \<and>
    (WAL_HDRSIZE < length z \<longrightarrow> get4 z 8 = of_nat sz \<and> get4 z 4 = WAL_MAX_VERSION) \<and>
    length z < file_limit sz \<and>
    (if log = [] then iReCksum w = 0 \<and> tail_ok sz z 0 else szPage w = of_nat sz \<and> file_ok sz w z P log))"

lemma write_rel:
  assumes rel: "dur_rel sz (w, z) (log, P)" and env: "write_good env" and ok: "write_ok sz (log, P) (Write ps n c fl)"
    and run: "walFrames restart env sz ps n c fl (w, z) = (rc, w', z')"
  shows "rc = SQLITE_OK \<and> dur_rel sz (w', z') (log_write (rc, unat (mxFrame (hdr w'))) (Write ps n c fl) (log, P)) \<and>
    (WAL_SYNC_FLAGS fl = 0 \<longrightarrow> unat (mxFrame (hdr w')) = length (put_pages P (length log) c n ps log))"
proof -
  note d = rel [unfolded dur_rel_def prod.case]
  have sz: "page_size_ok sz" using d by simp
  have r: "wal_inv w (map fst log)" "mxFrame (hdr w) = of_nat (length log)" "mxFrame (fst (aHdr w)) = of_nat P" "P \<le> length log"
    using d by (simp_all add: wal_rel_def)
  have o: "ps \<noteq> []" "\<forall>(pg, d) \<in> set ps. pg \<noteq> 0 \<and> length d = sz" "c \<longleftrightarrow> n \<noteq> 0" "length log + length ps + 200 < 2 ^ 31" using ok by simp_all
  define iFirst where "iFirst = (if hdr w \<noteq> fst (aHdr w) then unat (mxFrame (fst (aHdr w))) + 1 else 0)"
  have first: "iFirst = P + 1 \<or> iFirst = 0 \<and> length log = P"
  proof (cases "hdr w = fst (aHdr w)")
    case True
    then have "(of_nat (length log) :: u32) = of_nat P" using r by simp
    then have "unat (of_nat (length log) :: u32) = unat (of_nat P :: u32)" by simp
    then have "length log = P" using o(4) r(4) by (simp add: unat_u32)
    then show ?thesis using True by (simp add: iFirst_def)
  next
    case False
    then show ?thesis using r(3,4) o(4) by (simp add: iFirst_def unat_u32)
  qed
  obtain w1 z1 where w1: "(if mxFrame (hdr w) = 0 then write_header env sz fl (w, z) else (SQLITE_OK, w, z)) = (SQLITE_OK, w1, z1)"
    "file_ok sz w1 z1 P log" "szPage w1 = of_nat sz" "apWiData w1 = apWiData w" "mxFrame (hdr w1) = mxFrame (hdr w)" "aHdr w1 = aHdr w"
    "nCkpt w1 = nCkpt w" "writeLock w1 = writeLock w" "minFrame w1 = minFrame w" "readLock w1 = readLock w"
  proof (cases "log = []")
    case True
    then have t: "tail_ok sz z 0" "iReCksum w = 0" "P = 0" "mxFrame (hdr w) = 0" using d r by simp_all
    have s8: "length (aSalt (hdr w)) = 8" and lz: "length z < file_limit sz" using d by simp_all
    obtain w' z' h where h: "write_header env sz fl (w, z) = (SQLITE_OK, w', z')" "file_ok sz w' z' 0 []"
      "w' = w\<lparr>szPage := of_nat sz, hdr := h, truncateOnCommit := True\<rparr>" "mxFrame h = mxFrame (hdr w)"
      using write_header_ok [OF env sz s8 t(2,1) lz] by blast
    show thesis by (rule that [of w' z']) (use h t True in simp_all)
  next
    case False
    then have "mxFrame (hdr w) \<noteq> 0" using r(2) o(4) unat_u32 [of "length log"] by auto
    moreover have "szPage w = of_nat sz" "file_ok sz w z P log" using d False by simp_all
    ultimately show thesis by (intro that [of w z]) simp_all
  qed
  have inv1: "wal_inv w1 (map fst (take (length log) log))" using r(1) inv_cong [OF w1(4)] by simp
  have mx1: "mxFrame (hdr w1) = of_nat (length log)" using w1(5) r(2) by simp
  have mf: "unat (minFrame w1) \<le> P + 1" "readLock w1 \<noteq> 0" using w1(9,10) d by simp_all
  have "unat (minFrame w1) < 2 ^ 31" "length log + length ps < 2 ^ 31" using mf(1) r(4) o(4) by linarith+
  from write_pages_ok [OF env r(4) first w1(2) inv1 mx1 le_refl mf(1) this(1) mf(2) o(2) this(2), of fl n c]
  obtain qs w2 z2 where w2: "write_pages env sz fl iFirst n c ps (length log) (walFrameOffset (length log + 1) sz) (w1, z1) =
      (SQLITE_OK, length log + length qs, walFrameOffset (length log + length qs + 1) sz, qs, w2, z2)"
    "file_ok sz w2 z2 P (put_pages P (length log) c n ps log)" "cks_only w1 w2"
    "map fst (put_pages P (length log) c n ps log) = map fst log @ map fst qs" "c \<and> ps \<noteq> [] \<longrightarrow> qs \<noteq> [] \<and> last qs = last ps"
    by blast
  define log1 where "log1 = put_pages P (length log) c n ps log"
  note cf = cks_only_fields [OF w2(3)]
  have ll: "length log1 = length log + length qs" using arg_cong [OF w2(4), of length] by (simp add: log1_def)
  have rel2: "wal_rel w2 \<lparr>frames = map fst log, published = P, generation = nCkpt w2\<rparr>"
    using d cf w1 inv_cong [of w2 w] by (simp add: wal_rel_def)
  have pg: "\<forall>e \<in> set log1. fst e \<noteq> 0"
  proof -
    have "set (map fst log1) \<subseteq> set (map fst log) \<union> set (map fst ps)" unfolding log1_def by (rule put_pages_pages)
    moreover have "0 \<notin> set (map fst log)" using r(1) by (simp add: wal_inv_def)
    moreover have "0 \<notin> set (map fst ps)" using o(2) by auto
    ultimately have "0 \<notin> set (map fst log1)" by auto
    then show ?thesis by force
  qed
  have len: "length log1 + 200 < 2 ^ 31" using put_pages_size [of log P "length log" c n ps] o(4) by (simp add: log1_def)
  have cc: "c \<longrightarrow> qs \<noteq> [] \<and> log1 \<noteq> [] \<and> last log1 = (fst (last qs), n, snd (last qs))"
    using w2(5) o(1) put_pages_last [of c ps P "length log" n log] by (auto simp: log1_def)
  have szp2: "szPage w2 = of_nat sz" using cf(10) w1(3) by simp
  from commit_ok [OF env w2(2) [folded log1_def] sz szp2 rel2 w2(4) [folded log1_def] pg len cc, of fl]
  obtain k w3 z3 P' where w3: "write_commit env sz fl n c (length log1) (walFrameOffset (length log1 + 1) sz) qs (w2, z2) = (SQLITE_OK, w3, z3)"
    "P' = (if c then length log1 + k else P)" "k \<noteq> 0 \<longrightarrow> c \<and> WAL_SYNC_FLAGS fl \<noteq> 0"
    "wal_rel w3 \<lparr>frames = map fst (log1 @ replicate k (last log1)), published = P', generation = nCkpt w3\<rparr>"
    "file_ok sz w3 z3 P' (log1 @ replicate k (last log1))" "szPage w3 = of_nat sz" "minFrame w3 = minFrame w2" "readLock w3 = readLock w2"
    "fst (aHdr w3) = (if c then hdr w3 else fst (aHdr w2))" "length (aSalt (hdr w3)) = 8"
    by (elim exE conjE) (rule that)
  have m0: "unat (mxFrame (hdr w1)) = length log" using mx1 o(4) by (simp add: unat_u32)
  have "write_frames env sz ps n c fl iFirst (w, z) = (SQLITE_OK, w3, z3)"
    unfolding write_frames_def fst_conv w1(1) prod.case Let_def m0 w2(1) using w1(3) w3(1) [unfolded ll] by simp
  then have "walFrames restart env sz ps n c fl (w, z) = (SQLITE_OK, w3, z3)"
    using d unfolding walFrames_def Let_def fst_conv iFirst_def [symmetric] by simp
  then have res: "rc = SQLITE_OK" "w' = w3" "z' = z3" using run by simp_all
  define log2 where "log2 = log1 @ replicate k (last log1)"
  have "length log2 < 2 ^ 31" using w3(4) by (simp add: wal_rel_def wal_inv_def log2_def)
  then have mx3: "unat (mxFrame (hdr w3)) = length log1 + k" using w3(4) by (simp add: wal_rel_def log2_def unat_u32 del: of_nat_add)
  have spec: "log_write (rc, unat (mxFrame (hdr w'))) (Write ps n c fl) (log, P) = (log2, P')"
    using w3(2,3) by (simp add: res mx3 log1_def [symmetric] log2_def Let_def)
  have ne: "log2 \<noteq> []" using put_pages_ne [OF le_refl o(1)] by (simp add: log2_def log1_def)
  have flags: "(\<forall>i < length log2. P' \<le> i \<longrightarrow> fst (snd (log2 ! i)) = 0) \<and> (0 < P' \<longrightarrow> fst (snd (log2 ! (P' - 1))) \<noteq> 0)"
  proof (cases c)
    case True
    then have P': "P' = length log2" using w3(2) by (simp add: log2_def)
    have "last log2 = last log1" by (cases "k = 0") (simp_all add: log2_def)
    then have "log2 ! (P' - 1) = last log1" using last_conv_nth [OF ne] P' by simp
    then show ?thesis using P' cc True o(3) by simp
  next
    case False
    then have P': "P' = P" "log2 = log1" using w3(2,3) by (simp_all add: log2_def)
    have "fst (snd (log1 ! i)) = 0" if "i < length log1" "P \<le> i" for i
      using put_pages_plain [OF False le_refl _ that(1) [unfolded log1_def] that(2)] d by (simp add: log1_def)
    moreover have "log1 ! (P - 1) = log ! (P - 1)" if "0 < P"
      using arg_cong [OF put_pages_prefix [OF r(4), of "length log" c n ps], of "\<lambda>x. x ! (P - 1)"] that by (simp add: log1_def)
    ultimately show ?thesis using P' d by simp
  qed
  have "get4 z3 8 = of_nat sz \<and> get4 z3 4 = WAL_MAX_VERSION \<and> length z3 < file_limit sz" using w3(5) by (simp add: file_ok_def file_head_def)
  moreover have "length (aSalt (fst (aHdr w3))) = 8" using w3(9,10) cf(4) w1(6) d by (cases c) simp_all
  moreover have "P \<le> P'" using w3(2) r(4) ll by simp
  ultimately have "dur_rel sz (w3, z3) (log2, P')"
    using sz w3(4-8,10) [folded log2_def] ne flags cf(8,9) mf by (simp add: dur_rel_def)
  then show ?thesis using res spec mx3 w3(3) by (cases "k = 0") (simp_all add: log1_def)
qed

lemma tail_published:
  assumes st: "stored sz z log" and tl: "tail_ok sz z (length log)" and u: "\<forall>i < length log. P \<le> i \<longrightarrow> fst (snd (log ! i)) = 0"
  shows "tail_ok sz z P"
proof -
  have "get4 (slot sz z f) 4 = 0" if g: "P < f" "full sz z f" for f
  proof (cases "f \<le> length log")
    case True
    then have i: "f - 1 < length log" "P \<le> f - 1" "f - 1 + 1 = f" using g by simp_all
    then have "(get4 (slot sz z f) 0, get4 (slot sz z f) 4, drop WAL_FRAME_HDRSIZE (slot sz z f)) = log ! (f - 1)"
      using st unfolding stored_def by metis
    then show ?thesis using u i(1,2) by (metis fst_conv snd_conv)
  qed (use tl g in \<open>simp add: tail_ok_def\<close>)
  then show ?thesis by (simp add: tail_ok_def)
qed

lemma chain_published:
  assumes "file_ok sz w z P log" "P \<le> length log"
  shows "frame_chain (aSalt (hdr w)) (head_cksum z) (slots sz z P)"
proof -
  define V where "V = (if iReCksum w = 0 then length log else unat (iReCksum w) - 1)"
  have "frame_chain (aSalt (hdr w)) (head_cksum z) (slots sz z V)" "P \<le> V" using assms by (auto simp: file_ok_def slots_linked_def V_def split: if_splits)
  then show ?thesis using file_slots_take [of P V sz z] by (auto simp: chain_append)
qed

lemma rollback_rel:
  assumes rel: "dur_rel sz (w, z) (log, P)" and env: "write_good env" and run: "write_do sz env Rollback (w, z) = ((rc, mx), w', z')"
  shows "rc = SQLITE_OK \<and> dur_rel sz (w', z') (take P log, P)"
proof -
  note d = rel [unfolded dur_rel_def prod.case]
  define a where "a = \<lparr>frames = map fst log, published = P, generation = nCkpt w\<rparr>"
  have wr: "wal_rel w a" using d by (simp add: a_def)
  have e: "env_ok (windex env)" using env by (simp add: write_good_def env_good_def)
  have PL: "P \<le> length log" using d by (simp add: wal_rel_def)
  obtain rc1 ps w1 where u: "sqlite3WalUndo (windex env) w (\<lambda>p. SQLITE_OK) = (rc1, ps, w1)" by (metis prod_cases3)
  have res: "rc = rc1" "w' = w1" "z' = z" using run u by simp_all
  note un = undo_rel [OF wr e u]
  have wl: "writeLock w" using d by (simp add: wal_rel_def)
  define v where "v = w\<lparr>hdr := fst (aHdr w)\<rparr>"
  have iv: "wal_inv v (map fst log)" "mxFrame (hdr v) = of_nat P" using d inv_cong [of v w] by (simp_all add: wal_rel_def v_def)
  have cl: "walCleanupHash (windex env) v = v\<lparr>apWiData := apWiData (walCleanupHash (windex env) v)\<rparr>"
    using cleanup_inv(3) [OF iv _ e] PL by simp
  have w1: "w1 = (if mxFrame (hdr w) \<noteq> mxFrame (hdr v) then walCleanupHash (windex env) v else v)\<lparr>iReCksum := 0\<rparr>"
    using u wl by (simp add: sqlite3WalUndo_def v_def [symmetric] Let_def split_beta)
  have f: "hdr w1 = fst (aHdr w) \<and> aHdr w1 = aHdr w \<and> nCkpt w1 = nCkpt w \<and> iReCksum w1 = 0 \<and> szPage w1 = szPage w \<and>
    minFrame w1 = minFrame w \<and> readLock w1 = readLock w"
    unfolding w1 by (subst (1 2 3 4 5 6 7) cl) (simp add: v_def)
  have rel1: "wal_rel w1 \<lparr>frames = map fst (take P log), published = P, generation = nCkpt w1\<rparr>"
    using un(1) f by (simp add: a_def take_map)
  have flags: "(\<forall>i < length (take P log). P \<le> i \<longrightarrow> fst (snd (take P log ! i)) = 0) \<and> (0 < P \<longrightarrow> fst (snd (take P log ! (P - 1))) \<noteq> 0)"
    using d by simp
  have main: "if take P log = [] then iReCksum w1 = 0 \<and> tail_ok sz z 0 else szPage w1 = of_nat sz \<and> file_ok sz w1 z P (take P log)"
  proof (cases "log = []")
    case True
    then show ?thesis using d f by simp
  next
    case False
    then have ok: "file_ok sz w z P log" "szPage w = of_nat sz" using d by simp_all
    note o = ok(1) [unfolded file_ok_def]
    have st: "stored sz z (take P log)" using o full_mono [of sz z "length log" P] PL by (simp add: stored_def min_def)
    have tl: "tail_ok sz z P" using o d tail_published by auto
    show ?thesis
    proof (cases "P = 0")
      case True
      then show ?thesis using f tl by simp
    next
      case P: False
      have "frame_chain (aSalt (hdr w)) (head_cksum z) (slots sz z P)" using chain_published [OF ok(1) PL] .
      then have "file_ok sz w1 z P (take P log)"
        using o P f st tl PL by (simp add: file_ok_def slots_linked_def pub_ok_def min_def)
      then show ?thesis using P False f ok(2) by simp
    qed
  qed
  have "rc1 = SQLITE_OK" using un(2) by simp
  then show ?thesis using d f rel1 flags main by (simp add: dur_rel_def res)
qed

interpretation durable_log: implementation "write_do sz" log_write "write_ok sz" write_good "dur_rel sz" for sz
proof
  fix s a e p r s'
  assume s: "dur_rel sz s a" "write_good e" "write_ok sz a p" "write_do sz e p s = (r, s')"
  obtain w z log P w' z' where sa: "s = (w, z)" "a = (log, P)" "s' = (w', z')" by (metis prod.collapse)
  show "dur_rel sz s' (log_write r p a)"
  proof (cases p)
    case (Write ps n c fl)
    obtain rc w1 z1 where f: "walFrames (\<lambda>s. (SQLITE_OK, s)) e sz ps n c fl (w, z) = (rc, w1, z1)" by (metis prod_cases3)
    then have "r = (rc, unat (mxFrame (hdr w1)))" "w1 = w'" "z1 = z'" using s(4) by (auto simp: Write sa)
    then show ?thesis using write_rel [OF s(1) [unfolded sa] s(2) s(3) [unfolded sa Write] f] by (simp add: Write sa)
  next
    case Rollback
    then show ?thesis using rollback_rel [of sz w z log P e "fst r" "snd r" w' z'] s by (simp add: sa)
  qed
qed

section \<open>The file of a history\<close>

lemma scan_entry: "i < length (scan_log s b ck frs) \<Longrightarrow>
    fst (scan_log s b ck frs ! i) = get4 (frs ! i) 0 \<and> fst (snd (scan_log s b ck frs ! i)) = get4 (frs ! i) 4"
  by (induction frs arbitrary: ck i) (auto simp: Let_def nth_Cons split: if_splits nat.splits)

lemma committed_all: "es = [] \<or> fst (snd (last es)) \<noteq> 0 \<Longrightarrow> committed es = es"
proof (cases es rule: rev_cases)
  case (snoc fs e)
  assume "es = [] \<or> fst (snd (last es)) \<noteq> 0"
  then show ?thesis by (cases e) (simp add: snoc)
qed simp

text \<open>The frames of the file, as slots.\<close>

lemma file_frames_slots:
  assumes "get4 z 8 = of_nat sz" "sz \<le> 65536"
  shows "file_frames z = slots sz z ((length z - WAL_HDRSIZE) div (sz + WAL_FRAME_HDRSIZE))"
  using assms by (simp add: file_frames_def slots_def slot_def [abs_def] Let_def unat_u32)

lemma full_div: "WAL_HDRSIZE \<le> length z \<Longrightarrow> full sz z f \<longleftrightarrow> f \<le> (length z - WAL_HDRSIZE) div (sz + WAL_FRAME_HDRSIZE)"
proof -
  have p: "0 < sz + WAL_FRAME_HDRSIZE" by (simp add: WAL_FRAME_HDRSIZE_def)
  assume "WAL_HDRSIZE \<le> length z"
  then show ?thesis using less_eq_div_iff_mult_less_eq [OF p, of f "length z - WAL_HDRSIZE"] unfolding full_def by linarith
qed

lemma scan_tail:
  assumes t: "tail_ok sz z P" and len: "WAL_HDRSIZE \<le> length z" and N: "N = (length z - WAL_HDRSIZE) div (sz + WAL_FRAME_HDRSIZE)"
  shows "\<forall>(p, n, c) \<in> set (scan_log s b ck (map (slot sz z) [P + 1..<N + 1])). n = 0"
proof -
  define frs where "frs = map (slot sz z) [P + 1..<N + 1]"
  have "fst (snd (scan_log s b ck frs ! i)) = 0" if i: "i < length (scan_log s b ck frs)" for i
  proof -
    have il: "i < length frs" using i scan_length [of s b ck frs] by simp
    then have "frs ! i = slot sz z (P + 1 + i)" "full sz z (P + 1 + i)"
      using full_div [OF len, of sz "P + 1 + i"] N by (simp_all add: frs_def del: upt_Suc)
    then show ?thesis using scan_entry [OF i] t by (simp add: tail_ok_def)
  qed
  then show ?thesis unfolding frs_def [symmetric] by (auto simp: in_set_conv_nth) (metis fst_conv snd_conv)
qed

text \<open>What recovery makes of the file of a history: the committed frames.\<close>

lemma file_log_durable:
  assumes d: "dur_rel sz (w, z) (log, P)"
  shows "map (\<lambda>(p, n, c). (p, n)) (file_log z) = map (\<lambda>(p, n, d). (p, n)) (take P log)"
proof (cases "length z \<le> WAL_HDRSIZE \<or> \<not> header_ok z")
  case True
  have "log = []"
  proof (rule ccontr)
    assume "log \<noteq> []"
    then have ok: "file_ok sz w z P log" using d by (simp add: dur_rel_def)
    then have "header_ok z" "full sz z (length log)" by (simp_all add: file_ok_def file_head_def stored_def)
    moreover from this have "full sz z 1" using full_mono [of sz z "length log" 1] \<open>log \<noteq> []\<close> by (simp add: Suc_le_eq)
    ultimately show False using True by (simp add: full_def WAL_FRAME_HDRSIZE_def)
  qed
  then show ?thesis using True by (simp add: file_log_def)
next
  case False
  note dd = d [unfolded dur_rel_def prod.case]
  have len: "WAL_HDRSIZE \<le> length z" "WAL_HDRSIZE < length z" using False by simp_all
  have sz: "sz \<le> 65536" using dd by (simp add: page_size_ok_def)
  have g8: "get4 z 8 = of_nat sz" using dd len(2) by simp
  define N where "N = (length z - WAL_HDRSIZE) div (sz + WAL_FRAME_HDRSIZE)"
  have fl: "file_log z = committed (scan_log (take 8 (drop 16 z)) (get4 z 0 AND 1 = 0) (head_cksum z) (slots sz z N))"
    using False file_frames_slots [OF g8 sz] by (simp add: file_log_def N_def head_cksum_def)
  show ?thesis
  proof (cases "log = []")
    case True
    then have "tail_ok sz z 0" using dd by simp
    then have "\<forall>(p, n, c) \<in> set (scan_log (take 8 (drop 16 z)) (get4 z 0 AND 1 = 0) (head_cksum z) (slots sz z N)). n = 0"
      using scan_tail [OF _ len(1) N_def, of 0] by (simp add: slots_def)
    then show ?thesis using committed_uncommitted [of _ "[]"] True by (simp add: fl)
  next
    case ne: False
    then have ok: "file_ok sz w z P log" using dd by simp
    have PL: "P \<le> length log" using dd by (simp add: wal_rel_def)
    have h: "take 8 (drop 16 z) = aSalt (hdr w)" "get4 z 0 AND 1 = 0" using ok by (simp_all add: file_ok_def file_head_def WAL_MAGIC_def)
    have st: "stored sz z log" using ok by (simp add: file_ok_def)
    have PN: "P \<le> N" using full_div [OF len(1), of sz P] full_mono [of sz z "length log" P] st PL by (simp add: N_def stored_def)
    define es where "es = scan_log (aSalt (hdr w)) True (head_cksum z) (slots sz z P)"
    define rest where "rest = scan_log (aSalt (hdr w)) True (last_cksum (head_cksum z) es) (map (slot sz z) [P + 1..<N + 1])"
    have ch: "length es = P" using chain_published [OF ok PL] by (simp add: frame_chain_def es_def slots_def)
    have "[1..<N + 1] = [1..<P + 1] @ [P + 1..<N + 1]" using upt_add_eq_append [of 1 "P + 1" "N - P"] PN by simp
    then have "slots sz z N = slots sz z P @ map (slot sz z) [P + 1..<N + 1]" by (simp add: slots_def del: upt_Suc)
    then have "scan_log (aSalt (hdr w)) True (head_cksum z) (slots sz z N) = es @ rest"
      using ch by (simp add: scan_append es_def [symmetric] rest_def Let_def) (simp add: slots_def)
    then have fl2: "file_log z = committed (es @ rest)" using fl h by simp
    have "tail_ok sz z P" using tail_published [OF st] ok dd by (simp add: file_ok_def)
    then have "\<forall>(p, n, c) \<in> set rest. n = 0" unfolding rest_def by (rule scan_tail [OF _ len(1) N_def])
    then have fl3: "file_log z = committed es" using fl2 committed_uncommitted by simp
    have ent: "fst (es ! i) = fst (log ! i) \<and> fst (snd (es ! i)) = fst (snd (log ! i))" if "i < P" for i
    proof -
      have "slots sz z P ! i = slot sz z (i + 1)" using that by (simp add: slots_def del: upt_Suc)
      moreover have "(get4 (slot sz z (i + 1)) 0, get4 (slot sz z (i + 1)) 4, drop WAL_FRAME_HDRSIZE (slot sz z (i + 1))) = log ! i"
        using st that PL by (simp add: stored_def)
      moreover have "i < length es" using that ch by simp
      ultimately show ?thesis using scan_entry [of i "aSalt (hdr w)" True "head_cksum z" "slots sz z P"] unfolding es_def [symmetric]
        by (metis fst_conv snd_conv)
    qed
    have "es = [] \<or> fst (snd (last es)) \<noteq> 0"
    proof (cases "P = 0")
      case False
      then have "last es = es ! (P - 1)" using ch last_conv_nth [of es] by auto
      then show ?thesis using ent [of "P - 1"] dd False by simp
    qed (use ch in simp)
    then have "file_log z = es" using fl3 committed_all by simp
    moreover have "map (\<lambda>(p, n, c). (p, n)) es = map (\<lambda>(p, n, d). (p, n)) (take P log)"
      by (rule nth_equalityI) (use ent ch PL in \<open>auto simp: split_beta\<close>)
    ultimately show ?thesis by simp
  qed
qed

text \<open>A connection in front of its first write; the log file is empty.\<close>

definition fresh_log :: "nat \<Rightarrow> Wal \<Rightarrow> bool" where
  "fresh_log sz w \<longleftrightarrow> page_size_ok sz \<and> wal_start w \<and> iReCksum w = 0 \<and> length (aSalt (hdr w)) = 8 \<and> length (aSalt (fst (aHdr w))) = 8 \<and>
    readLock w \<noteq> 0 \<and> unat (minFrame w) \<le> 1"

lemma fresh_rel: "fresh_log sz w \<Longrightarrow> dur_rel sz (w, []) ([], 0)"
  using start_rel [of w] by (simp add: fresh_log_def dur_rel_def wal_start_def empty_log_def tail_ok_def full_def WAL_HDRSIZE_def file_limit_def)

lemma stored_bytes:
  assumes "stored sz z log" "i < length log"
  shows "take sz (drop (walFrameOffset (i + 1) sz + WAL_FRAME_HDRSIZE) z) = snd (snd (log ! i))"
proof -
  have "drop WAL_FRAME_HDRSIZE (slot sz z (i + 1)) = snd (snd (log ! i))" using assms unfolding stored_def by (metis snd_conv)
  then show ?thesis by (simp add: slot_def drop_take add.commute)
qed

lemma crash_recovery_rel:
  assumes d: "dur_rel sz (w, z) (log, P)" and good: "recover_good renv z" and v: "writeLock v" "apWiData v = []"
  obtains v' where "walIndexRecover renv v = (SQLITE_OK, v')"
    "wal_rel v' \<lparr>frames = map fst (take P log), published = P, generation = nCkpt v'\<rparr>" "hdr v' = fst (aHdr v')"
    "nPage (hdr v') = (if P = 0 then 0 else fst (snd (log ! (P - 1))))" "\<forall>i < P. take sz (drop (walFrameOffset (i + 1) sz + WAL_FRAME_HDRSIZE) z) = snd (snd (log ! i))"
proof -
  note dd = d [unfolded dur_rel_def prod.case]
  have PL: "P \<le> length log" using dd by (simp add: wal_rel_def)
  have fl: "map (\<lambda>(p, n, c). (p, n)) (file_log z) = map (\<lambda>(p, n, d). (p, n)) (take P log)" by (rule file_log_durable [OF d])
  have lf: "length (file_log z) = P" using arg_cong [OF fl, of length] PL by simp
  have f1: "map fst (file_log z) = map fst (take P log)" "map (\<lambda>e. fst (snd e)) (file_log z) = map (\<lambda>e. fst (snd e)) (take P log)"
    using arg_cong [OF fl, of "map fst"] arg_cong [OF fl, of "map snd"] by (simp_all add: split_beta o_def)
  have "wal_inv v []" using v(2) by (simp add: wal_inv_def mapped_def ents_def)
  moreover have "header_ok z \<Longrightarrow> get4 z 4 = WAL_MAX_VERSION" if "WAL_HDRSIZE < length z" using dd that by simp
  moreover have "(length z - WAL_HDRSIZE) div (unat (get4 z 8) + WAL_FRAME_HDRSIZE) < 2 ^ 31"
  proof (cases "WAL_HDRSIZE < length z")
    case True
    then have "unat (get4 z 8) = sz" using dd by (simp add: page_size_ok_def unat_u32)
    moreover have "length z < WAL_HDRSIZE + 2 ^ 31 * (sz + WAL_FRAME_HDRSIZE)" using dd by (simp only: file_limit_def)
    then have "length z - WAL_HDRSIZE < 2 ^ 31 * (sz + WAL_FRAME_HDRSIZE)" using True by linarith
    ultimately show ?thesis by (simp only: less_mult_imp_div_less)
  qed simp
  ultimately obtain v' where v': "walIndexRecover renv v = (SQLITE_OK, v')"
    "wal_rel v' \<lparr>frames = map fst (file_log z), published = length (file_log z), generation = nCkpt v'\<rparr>" "hdr v' = fst (aHdr v')"
    "nPage (hdr v') = (if file_log z = [] then 0 else fst (snd (last (file_log z))))"
    using recover_log [OF good v(1)] by blast
  have "file_log z \<noteq> [] \<Longrightarrow> fst (snd (last (file_log z))) = fst (snd (log ! (P - 1)))"
    using arg_cong [OF f1(2), of "\<lambda>x. x ! (P - 1)"] lf PL by (auto simp: last_conv_nth)
  then have np: "nPage (hdr v') = (if P = 0 then 0 else fst (snd (log ! (P - 1))))" using v'(4) lf by auto
  have "\<forall>i < P. take sz (drop (walFrameOffset (i + 1) sz + WAL_FRAME_HDRSIZE) z) = snd (snd (log ! i))"
  proof (cases "log = []")
    case False
    then show ?thesis using dd stored_bytes [of sz z log] PL by (auto simp: file_ok_def)
  qed (use PL in simp)
  then show thesis using that v' np f1(1) lf by simp
qed

section \<open>A sample history\<close>

text \<open>
  A commit of two pages, two pages written by the next transaction, the first of them once more; then a crash.
\<close>

definition file_env :: write_env where
  "file_env = \<lparr>windex = fresh_env, xWrite = \<lambda>z c off. (0, write_at z c off), xSync = \<lambda>fl. 0, xRead = \<lambda>z n off. (0, take n (drop off z)),
    xFileSize = \<lambda>z. (0, length z), xTruncate = \<lambda>z n. (0, take n z), xSectorSize = 512, random_salt = [8, 7, 6, 5, 4, 3, 2, 1], alloc_buf = True\<rparr>"

definition crash_env :: "u8 list \<Rightarrow> recover_env" where
  "crash_env z = \<lparr>index = fresh_env, shm_lock = \<lambda>i n. 0, file_size = (0, length z), read_at = \<lambda>n off. (0, take n (drop off z)),
    alloc_frame = True, private_page = \<lambda>p. \<lparr>aPgno = replicate (cap p) 7, aHash = replicate HASHTABLE_NSLOT 9\<rparr>\<rparr>"

definition filled :: "u8 \<Rightarrow> u8 list" where "filled b = replicate 512 b"

definition sample_writes :: "(write_env \<times> write_op) list" where
  "sample_writes = [(file_env, Write [(1, filled 1), (2, filled 2)] 2 True 0),
    (file_env, Write [(2, filled 3), (3, filled 4)] 0 False 0), (file_env, Write [(2, filled 5)] 0 False 0)]"

lemma fresh_env_good: "env_good fresh_env"
  using fresh_env_ok by (auto simp: env_good_def)

lemma file_env_good: "write_good file_env"
  by (simp add: write_good_def file_env_def fresh_env_good SQLITE_OK_def)

lemma crash_env_good: "recover_good (crash_env z) z"
  by (simp add: recover_good_def crash_env_def fresh_env_good SQLITE_OK_def page_sizes_def)

lemma new_wal_fresh: "fresh_log 512 new_wal"
  using new_wal_start by (simp add: fresh_log_def page_size_ok_def new_wal_def new_hdr_def)

lemma write_result:
  assumes "dur_rel sz s (log, P)" "write_good env" "write_ok sz (log, P) (Write ps n c 0)" "log' = put_pages P (length log) c n ps log"
  obtains s' where "write_do sz env (Write ps n c 0) s = ((SQLITE_OK, length log'), s')" "dur_rel sz s' (log', if c then length log' else P)"
proof -
  obtain w z where s: "s = (w, z)" by force
  obtain rc w' z' where f: "walFrames (\<lambda>s. (SQLITE_OK, s)) env sz ps n c 0 (w, z) = (rc, w', z')" by (metis prod_cases3)
  have "WAL_SYNC_FLAGS 0 = 0" by (simp add: WAL_SYNC_FLAGS_def)
  then have r: "rc = SQLITE_OK" "unat (mxFrame (hdr w')) = length log'" "dur_rel sz (w', z') (log_write (rc, length log') (Write ps n c 0) (log, P))"
    using write_rel [OF assms(1) [unfolded s] assms(2,3) f] assms(4) by auto
  have "log_write (rc, length log') (Write ps n c 0) (log, P) = (log', if c then length log' else P)"
    by (simp add: assms(4) [symmetric] Let_def)
  then show thesis using that [of "(w', z')"] f r by (simp add: s)
qed

definition sample_log :: "u8 \<Rightarrow> flog" where
  "sample_log b = [(1, 0, filled 1), (2, 2, filled 2), (2, 0, filled b), (3, 0, filled 4)]"

lemma sample_logs:
  "put_pages 0 0 True 2 [(1, filled 1), (2, filled 2)] [] = [(1, 0, filled 1), (2, 2, filled 2)]"
  "put_pages 2 2 False 0 [(2, filled 3), (3, filled 4)] [(1, 0, filled 1), (2, 2, filled 2)] = sample_log 3"
  "put_pages 2 4 False 0 [(2, filled 5)] (sample_log 3) = sample_log 5"
  by (simp_all add: find_written_def sample_log_def)

lemma filled_length: "length (filled b) = 512"
  by (simp add: filled_def)

lemma sample_steps:
  "[(1, 0, filled 1), (2, 2, filled 2)] = put_pages 0 (length []) True 2 [(1, filled 1), (2, filled 2)] []"
  "sample_log 3 = put_pages 2 (length [(1, 0, filled 1), (2, 2, filled 2)]) False 0 [(2, filled 3), (3, filled 4)] [(1, 0, filled 1), (2, 2, filled 2)]"
  "sample_log 5 = put_pages 2 (length (sample_log 3)) False 0 [(2, filled 5)] (sample_log 3)"
  using sample_logs(1,2) by (simp_all only: list.size sample_logs(3) [symmetric] sample_log_def) (simp_all add: find_written_def)

lemma sample_written:
  obtains w' z where "run_ops (write_do 512) sample_writes (new_wal, []) = ([(0, 2), (0, 4), (0, 4)], w', z)" "dur_rel 512 (w', z) (sample_log 5, 2)"
proof -
  have l: "length (sample_log b) = 4" for b by (simp add: sample_log_def)
  have "write_ok 512 ([], 0) (Write [(1, filled 1), (2, filled 2)] 2 True 0)" by (simp add: filled_length)
  from write_result [OF fresh_rel [OF new_wal_fresh] file_env_good this sample_steps(1)]
  obtain s1 where s1: "write_do 512 file_env (Write [(1, filled 1), (2, filled 2)] 2 True 0) (new_wal, []) = ((0, 2), s1)"
    "dur_rel 512 s1 ([(1, 0, filled 1), (2, 2, filled 2)], 2)" by (auto simp: SQLITE_OK_def numeral_2_eq_2 [symmetric] simp del: write_do.simps)
  have "write_ok 512 ([(1, 0, filled 1), (2, 2, filled 2)], 2) (Write [(2, filled 3), (3, filled 4)] 0 False 0)" by (simp add: filled_length)
  from write_result [OF s1(2) file_env_good this sample_steps(2)]
  obtain s2 where s2: "write_do 512 file_env (Write [(2, filled 3), (3, filled 4)] 0 False 0) s1 = ((0, 4), s2)" "dur_rel 512 s2 (sample_log 3, 2)"
    by (auto simp: SQLITE_OK_def l simp del: write_do.simps)
  have "write_ok 512 (sample_log 3, 2) (Write [(2, filled 5)] 0 False 0)" by (simp add: filled_length sample_log_def)
  from write_result [OF s2(2) file_env_good this sample_steps(3)]
  obtain s3 where s3: "write_do 512 file_env (Write [(2, filled 5)] 0 False 0) s2 = ((0, 4), s3)" "dur_rel 512 s3 (sample_log 5, 2)"
    by (auto simp: SQLITE_OK_def l simp del: write_do.simps)
  show thesis using that [of "fst s3" "snd s3"] s1(1) s2(1) s3 by (simp add: sample_writes_def del: write_do.simps)
qed

lemma sample_writes_ok:
  "\<forall>(env, p) \<in> set sample_writes. write_good env" "ops_ok log_write (write_ok 512) [(0, 2), (0, 4), (0, 4)] sample_writes ([], 0)"
  "spec_run log_write [(0, 2), (0, 4), (0, 4)] sample_writes ([], 0) = (sample_log 5, 2)"
proof -
  have l: "length (sample_log b) = 4" for b by (simp add: sample_log_def)
  have "log_write (0, 2) (Write [(1, filled 1), (2, filled 2)] 2 True 0) ([], 0) = ([(1, 0, filled 1), (2, 2, filled 2)], 2)"
    using sample_logs(1) by (simp add: Let_def numeral_2_eq_2 [symmetric] del: put_pages.simps)
  moreover have "log_write (0, 4) (Write [(2, filled 3), (3, filled 4)] 0 False 0) ([(1, 0, filled 1), (2, 2, filled 2)], 2) = (sample_log 3, 2)"
    using sample_logs(2) by (simp add: Let_def l numeral_2_eq_2 [symmetric] del: put_pages.simps)
  moreover have "log_write (0, 4) (Write [(2, filled 5)] 0 False 0) (sample_log 3, 2) = (sample_log 5, 2)"
    using sample_logs(3) by (simp add: Let_def l numeral_2_eq_2 [symmetric] del: put_pages.simps)
  ultimately show "\<forall>(env, p) \<in> set sample_writes. write_good env" "ops_ok log_write (write_ok 512) [(0, 2), (0, 4), (0, 4)] sample_writes ([], 0)"
    "spec_run log_write [(0, 2), (0, 4), (0, 4)] sample_writes ([], 0) = (sample_log 5, 2)"
    by (simp_all add: sample_writes_def file_env_good filled_length l del: log_write.simps)
qed

section \<open>Properties\<close>

text \<open>
  C1. A crash loses nothing that was committed and brings back nothing that was not: take any history of page writes,
  commits and rollbacks on an empty log, with pages overwritten inside a transaction, checksums written again, padding and
  cutting of the file.  Recovery from the file as it is between two operations finds exactly the committed
  frames: their number, the size of the database, the page of each and its bytes, and a reader finds the last frame of
  every page.
\<close>

theorem crash_recovery:
  assumes "fresh_log sz w" "\<forall>(env, p) \<in> set ps. write_good env" "run_ops (write_do sz) ps (w, []) = (rs, w', z)"
    and "ops_ok log_write (write_ok sz) rs ps ([], 0)" "spec_run log_write rs ps ([], 0) = (log, P)"
    and "recover_good renv z" "writeLock v" "apWiData v = []"
  shows "\<exists>v'. walIndexRecover renv v = (SQLITE_OK, v') \<and> mxFrame (hdr v') = of_nat P \<and> hdr v' = fst (aHdr v') \<and>
    nPage (hdr v') = (if P = 0 then 0 else fst (snd (log ! (P - 1)))) \<and>
    (\<forall>i < P. walFramePgno v' (of_nat (i + 1)) = fst (log ! i) \<and>
      take sz (drop (walFrameOffset (i + 1) sz + WAL_FRAME_HDRSIZE) z) = snd (snd (log ! i))) \<and>
    (\<forall>env pg. \<exists>r. walFindFrame env (v'\<lparr>readLock := 1, minFrame := 1\<rparr>) pg = (SQLITE_OK, of_nat r, v'\<lparr>readLock := 1, minFrame := 1\<rparr>) \<and>
      last_frame (map fst (take P log)) 1 P pg r)"
proof -
  have d: "dur_rel sz (w', z) (log, P)" using durable_log.history [OF fresh_rel [OF assms(1)] assms(2-4)] assms(5) by simp
  obtain v' where v': "walIndexRecover renv v = (SQLITE_OK, v')"
    "wal_rel v' \<lparr>frames = map fst (take P log), published = P, generation = nCkpt v'\<rparr>" "hdr v' = fst (aHdr v')"
    "nPage (hdr v') = (if P = 0 then 0 else fst (snd (log ! (P - 1))))" "\<forall>i < P. take sz (drop (walFrameOffset (i + 1) sz + WAL_FRAME_HDRSIZE) z) = snd (snd (log ! i))"
    using crash_recovery_rel [OF d assms(6-8)] .
  have i: "wal_inv v' (map fst (take P log))" using v'(2) by (simp add: wal_rel_def)
  have PL: "P \<le> length log" using d by (simp add: dur_rel_def wal_rel_def)
  then have m: "mxFrame (hdr v') = of_nat P" using v'(2) by (simp add: wal_rel_def min_def)
  have pgno: "walFramePgno v' (of_nat (i + 1)) = fst (log ! i)" if "i < P" for i
    using pgno_of_frame [OF i, of "i + 1"] that PL by (simp add: min_def)
  define r where "r = v'\<lparr>readLock := 1, minFrame := 1\<rparr>"
  have "wal_inv r (map fst (take P log))" using i inv_cong [of r v'] by (simp add: r_def)
  then have "\<exists>k. walFindFrame env r pg = (SQLITE_OK, of_nat k, r) \<and> last_frame (map fst (take P log)) 1 P pg k" for env pg
    using m PL by (intro find_frame) (simp_all add: r_def)
  then show ?thesis using v'(1,3-5) m pgno by (simp add: r_def)
qed

lemma crash_recovery_witness:
  "\<exists>w' z v'. run_ops (write_do 512) sample_writes (new_wal, []) = ([(0, 2), (0, 4), (0, 4)], w', z) \<and>
    walIndexRecover (crash_env z) new_wal = (SQLITE_OK, v') \<and> mxFrame (hdr v') = 2 \<and> nPage (hdr v') = 2 \<and> walFramePgno v' 2 = 2 \<and>
    take 512 (drop (walFrameOffset 2 512 + WAL_FRAME_HDRSIZE) z) = filled 2"
proof -
  obtain w' z where r: "run_ops (write_do 512) sample_writes (new_wal, []) = ([(0, 2), (0, 4), (0, 4)], w', z)"
    using sample_written by blast
  have v: "writeLock new_wal" "apWiData new_wal = []" by (simp_all add: new_wal_def)
  obtain v' where v': "walIndexRecover (crash_env z) new_wal = (SQLITE_OK, v')" "mxFrame (hdr v') = of_nat 2" "nPage (hdr v') = 2"
    "\<forall>i < 2. walFramePgno v' (of_nat (i + 1)) = fst (sample_log 5 ! i) \<and>
      take 512 (drop (walFrameOffset (i + 1) 512 + WAL_FRAME_HDRSIZE) z) = snd (snd (sample_log 5 ! i))"
    using crash_recovery [OF new_wal_fresh sample_writes_ok(1) r sample_writes_ok(2,3) crash_env_good v]
    by (elim exE conjE) (simp add: sample_log_def)
  have "walFramePgno v' 2 = 2" "take 512 (drop (walFrameOffset 2 512 + WAL_FRAME_HDRSIZE) z) = filled 2"
    using spec [OF v'(4), of 1] by (simp_all add: sample_log_def numeral_2_eq_2 [symmetric])
  then show ?thesis using r v'(1-3) by simp
qed

text \<open>
  C5. After any history of page writes, commits and rollbacks on an empty log, in which every call of the VFS
  succeeds, each further write succeeds, and the file holds the abstract log: frame by frame its page number, the size of a
  commit and the bytes.
\<close>

theorem write_history:
  assumes "fresh_log sz w" "\<forall>(env, p) \<in> set ps. write_good env" "run_ops (write_do sz) ps (w, []) = (rs, w', z)"
    and "ops_ok log_write (write_ok sz) rs ps ([], 0)" "spec_run log_write rs ps ([], 0) = (log, P)"
  shows "mxFrame (hdr w') = of_nat (length log) \<and> mxFrame (fst (aHdr w')) = of_nat P \<and> P \<le> length log \<and>
    (\<forall>i < length log. walFramePgno w' (of_nat (i + 1)) = fst (log ! i) \<and> get4 (slot sz z (i + 1)) 0 = fst (log ! i) \<and>
      get4 (slot sz z (i + 1)) 4 = fst (snd (log ! i)) \<and> drop WAL_FRAME_HDRSIZE (slot sz z (i + 1)) = snd (snd (log ! i))) \<and>
    (\<forall>env pgs n c fl. write_good env \<longrightarrow> write_ok sz (log, P) (Write pgs n c fl) \<longrightarrow>
      fst (fst (write_do sz env (Write pgs n c fl) (w', z))) = SQLITE_OK)"
proof -
  have d: "dur_rel sz (w', z) (log, P)" using durable_log.history [OF fresh_rel [OF assms(1)] assms(2-4)] assms(5) by simp
  have i: "wal_inv w' (map fst log)" using d by (simp add: dur_rel_def wal_rel_def)
  have pgno: "walFramePgno w' (of_nat (k + 1)) = fst (log ! k)" if "k < length log" for k
    using pgno_of_frame [OF i, of "k + 1"] that by simp
  have entry: "get4 (slot sz z (k + 1)) 0 = fst (log ! k) \<and> get4 (slot sz z (k + 1)) 4 = fst (snd (log ! k)) \<and>
    drop WAL_FRAME_HDRSIZE (slot sz z (k + 1)) = snd (snd (log ! k))" if "k < length log" for k
  proof -
    have "stored sz z log" using d that by (cases "log = []") (simp_all add: dur_rel_def file_ok_def)
    then show ?thesis using that unfolding stored_def by (metis fst_conv snd_conv)
  qed
  have next_ok: "fst (fst (write_do sz env (Write pgs n c fl) (w', z))) = SQLITE_OK"
    if "write_good env" "write_ok sz (log, P) (Write pgs n c fl)" for env pgs n c fl
  proof -
    obtain rc w2 z2 where f: "walFrames (\<lambda>s. (SQLITE_OK, s)) env sz pgs n c fl (w', z) = (rc, w2, z2)" by (metis prod_cases3)
    then show ?thesis using write_rel [OF d that f] by simp
  qed
  show ?thesis using d pgno entry next_ok by (simp add: dur_rel_def wal_rel_def)
qed

lemma write_history_witness:
  "\<exists>w' z. run_ops (write_do 512) sample_writes (new_wal, []) = ([(0, 2), (0, 4), (0, 4)], w', z) \<and> mxFrame (hdr w') = 4 \<and>
    drop WAL_FRAME_HDRSIZE (slot 512 z 3) = filled 5"
proof -
  obtain w' z where r: "run_ops (write_do 512) sample_writes (new_wal, []) = ([(0, 2), (0, 4), (0, 4)], w', z)"
    using sample_written by blast
  have l: "length (sample_log 5) = 4" "snd (snd (sample_log 5 ! 2)) = filled 5" by (simp_all add: sample_log_def)
  have m: "mxFrame (hdr w') = of_nat 4" "\<forall>i < 4. drop WAL_FRAME_HDRSIZE (slot 512 z (i + 1)) = snd (snd (sample_log 5 ! i))"
    using write_history [OF new_wal_fresh sample_writes_ok(1) r sample_writes_ok(2,3)] by (simp_all add: l)
  then have "mxFrame (hdr w') = 4" "drop WAL_FRAME_HDRSIZE (slot 512 z 3) = filled 5"
    using spec [OF m(2), of 2] l by simp_all
  then show ?thesis using r by blast
qed

text \<open>
  C6. From any log file, whatever it holds, recovery takes the frames that are valid one after another up to the
  last commit, and publishes a header for them; a file without a good header gives the empty log.
\<close>

theorem recover_exact:
  assumes "recover_good env z" "writeLock w" "wal_inv w []" "WAL_HDRSIZE < length z \<Longrightarrow> header_ok z \<Longrightarrow> get4 z 4 = WAL_MAX_VERSION"
    and "(length z - WAL_HDRSIZE) div (unat (get4 z 8) + WAL_FRAME_HDRSIZE) < 2 ^ 31"
  shows "\<exists>w'. walIndexRecover env w = (SQLITE_OK, w') \<and> mxFrame (hdr w') = of_nat (length (file_log z)) \<and>
    (\<forall>i < length (file_log z). walFramePgno w' (of_nat (i + 1)) = fst (file_log z ! i)) \<and>
    hdr w' = fst (aHdr w') \<and> aFrameCksum (hdr w') = last_cksum (0, 0) (file_log z) \<and>
    nPage (hdr w') = (if file_log z = [] then 0 else fst (snd (last (file_log z))))"
proof -
  obtain w' where w': "walIndexRecover env w = (SQLITE_OK, w')"
    "wal_rel w' \<lparr>frames = map fst (file_log z), published = length (file_log z), generation = nCkpt w'\<rparr>"
    "hdr w' = fst (aHdr w')" "aFrameCksum (hdr w') = last_cksum (0, 0) (file_log z)"
    "nPage (hdr w') = (if file_log z = [] then 0 else fst (snd (last (file_log z))))"
    using recover_log [OF assms] by blast
  have i: "wal_inv w' (map fst (file_log z))" using w'(2) by (simp add: wal_rel_def)
  have "walFramePgno w' (of_nat (k + 1)) = fst (file_log z ! k)" if "k < length (file_log z)" for k
    using pgno_of_frame [OF i, of "k + 1"] that by simp
  then show ?thesis using w' by (simp add: wal_rel_def)
qed

lemma recover_exact_witness:
  "\<exists>w' z v'. run_ops (write_do 512) sample_writes (new_wal, []) = ([(0, 2), (0, 4), (0, 4)], w', z) \<and>
    walIndexRecover (crash_env z) new_wal = (SQLITE_OK, v') \<and> length (file_log z) = 2 \<and> mxFrame (hdr v') = 2"
proof -
  obtain w' z where r: "run_ops (write_do 512) sample_writes (new_wal, []) = ([(0, 2), (0, 4), (0, 4)], w', z)"
    and d: "dur_rel 512 (w', z) (sample_log 5, 2)"
    using sample_written by blast
  have v: "writeLock new_wal" "wal_inv new_wal []" by (simp_all add: new_wal_def wal_inv_def mapped_def ents_def)
  have n: "length (file_log z) = 2" using arg_cong [OF file_log_durable [OF d], of length] by (simp add: sample_log_def)
  have h: "WAL_HDRSIZE < length z \<longrightarrow> get4 z 8 = 512 \<and> get4 z 4 = WAL_MAX_VERSION" "length z < file_limit 512"
    using d by (simp_all add: dur_rel_def)
  have "(length z - WAL_HDRSIZE) div (unat (get4 z 8) + WAL_FRAME_HDRSIZE) < 2 ^ 31"
  proof (cases "WAL_HDRSIZE < length z")
    case True
    then have "length z - WAL_HDRSIZE < 2 ^ 31 * (512 + WAL_FRAME_HDRSIZE)" using h(2) unfolding file_limit_def by linarith
    then show ?thesis using h(1) True by (simp add: less_mult_imp_div_less)
  qed simp
  then obtain v' where "walIndexRecover (crash_env z) new_wal = (SQLITE_OK, v')" "mxFrame (hdr v') = of_nat (length (file_log z))"
    using recover_exact [OF crash_env_good v] h(1) by blast
  then show ?thesis using n r by simp
qed

end
