(* ===== verification/Spec2Isabelle.thy ===== *)
theory Spec2Isabelle
  imports Varint Printf_Entry Bitvec RowSet HashTab Lookahead Dequote Complete Pattern WalCrash
begin

text \<open>
  Verification of the C code of isar_plus.

  \<^bold>\<open>The program.\<close>  isar_plus is a database for Dart programs.  Its core is written in Rust; on the web it
  stores its data through \<open>packages/sqlite-wasm-rs\<close>, which compiles two C sources to wasm32: the engine
  SQLite 3.50.4 (\<open>sqlite3/sqlite3.c\<close>, cited below by the names of the files it amalgamates) and a small
  \<open>printf\<close> (\<open>shim/printf/printf.c\<close>) that stands for the missing C library.  This development models the
  printf completely and, of the engine, the components that everything above them relies on: the number
  formats of the file, the containers, the arithmetic and the text functions, the way from a text to
  its tokens, and the write-ahead log, which makes transactions atomic and durable.

  \<^bold>\<open>The target.\<close>  The options of \<open>build.rs\<close> and the macros of clang for wasm32 select the branches that are
  modelled: pointers and \<open>long\<close> have 32 bits, the byte order is little-endian, there are no threads, and
  \<open>GCC_VERSION\<close> is below the bound for the overflow intrinsics, so the generic branches are compiled.

  \<^bold>\<open>How the code is translated.\<close>  Unsigned integers are words of their width (\<open>u8\<close> to \<open>u64\<close> of \<open>Prelude\<close>);
  where signed overflow would be undefined behaviour, signed integers are integers with a checked result,
  \<open>None\<close> being the overflow.  Memory that is written through pointers is a function from offsets to
  bytes, a buffer of known size a list, and reading or writing outside it is \<open>None\<close>; a zero-terminated
  text that is only read is the list of its characters, reading at its end gives the terminator and no loop
  passes it.  Structures are records, loops are recursions on the loop variable, and the answers of the
  allocator are an argument (a list or a record of functions), so that every theorem holds for every pattern of
  failing allocations.  Results that the code returns together are a tuple.

  \<^bold>\<open>The theories and the code they model.\<close>

  \<^item> \<open>Prelude\<close>: integer types, memory, result codes and the lemmas on lists, maps and words that all
    components share.  \<open>Interfaces\<close>: the locales \<open>index_set\<close> (a set of numbered items), \<open>finite_map\<close> (a map
    with keys up to an equivalence) and \<open>implementation\<close> (steps that match the steps of an abstract machine) with what
    follows from their laws for every history of operations.  \<open>Bitvec\<close>, \<open>HashTab\<close>, \<open>WalLog\<close> and \<open>WalCrash\<close>
    interpret them; \<open>Varint\<close> has its own locale \<open>varint_codec\<close>.
  \<^item> \<open>Varint\<close> (\<open>util.c\<close>): \<open>sqlite3PutVarint\<close>, \<open>sqlite3GetVarint\<close>, \<open>sqlite3GetVarint32\<close>, \<open>sqlite3VarintLen\<close>, the
    macros over them and the four-byte words.  A reader takes the memory at its pointer.  Shown: the
    unrolled reader is the reader of the file format, write and read are inverse, no byte behind the
    varint is read, and the lengths are right up to one documented corner.
  \<^item> \<open>Bitvec\<close> (\<open>bitvec.c\<close>): the three representations of a bitmap as the constructors of a datatype.  Shown:
    a set takes effect, stays in bounds and ends for every failing allocation, and every history of
    operations behaves as on a set of indices.  The loop that probes for a free slot runs on the number
    of slots as fuel; the invariant that one slot stays free makes this enough.
  \<^item> \<open>RowSet\<close> (\<open>rowset.c\<close>): the list of entries, the sorted merge, the forest of balanced trees.  Shown: the
    rowids come out sorted and without duplicates, tests refine a machine with a pending and a visible
    set, and trees are balanced.
  \<^item> \<open>HashTab\<close> (\<open>hash.c\<close>): the global list of elements, the buckets that point into it, and rehashing.  Shown:
    the structural invariant, and that the table refines a map up to the case of the keys.
  \<^item> \<open>Ctype\<close> (\<open>global.c\<close>, \<open>util.c\<close>): the tables of character classes and case, and the case-insensitive comparisons
    and hash.  \<open>Arith\<close> (\<open>util.c\<close>): overflow-checked 64-bit arithmetic and the logarithmic estimates of the
    planner.  \<open>Numtext\<close> (\<open>util.c\<close>): numbers to text and back, in UTF-8 and both byte orders of UTF-16.
  \<^item> \<open>Tokens\<close>, \<open>Keywords\<close> (\<open>parse.h\<close>, \<open>keywordhash.h\<close>), \<open>Tokenize\<close>, \<open>Lookahead\<close> (\<open>tokenize.c\<close>), \<open>Dequote\<close> (\<open>util.c\<close>),
    \<open>Complete\<close> (\<open>complete.c\<close>): from the text to its tokens.  Shown: the generated perfect hash recognises
    exactly the 147 keywords (its loop has fuel 148, one more than the longest chain can be; each chain of the
    table ends), every token lies inside the text and is not empty, quoting and removing quotes
    are inverse, looking ahead is blind to blanks and comments, and a text is complete exactly when it
    consists of whole statements.
  \<^item> \<open>Utf\<close> (\<open>utf.c\<close>): characters in UTF-8 and UTF-16 and the translation of a memory cell.  Shown: reading
    inverts writing, the output buffer is always large enough, and the translations are exact.
  \<^item> \<open>Pattern\<close> (\<open>func.c\<close>): LIKE and GLOB.  Shown: the backtracking comparison with its early exit decides the
    meaning of the pattern.
  \<^item> \<open>WalFrame\<close>, \<open>WalIndex\<close>, \<open>WalRecover\<close>, \<open>WalWrite\<close> (\<open>wal.c\<close>): the write-ahead log.  The state is the connection
    (\<open>Wal\<close>, with the mapped pages of the index and the two copies of the shared header) and the log file, a
    list of bytes; the answers of the VFS are a record of functions.  Modelled are the checksums and frames, the hash
    tables of the index, \<open>walFindFrame\<close>, \<open>walFrames\<close> with everything it calls but \<open>walRestartLog\<close>, rollback, savepoints,
    \<open>walRestartHdr\<close> and \<open>walIndexRecover\<close>.
  \<^item> \<open>WalTable\<close>, \<open>WalLog\<close>: the index stands for the list of the frames' pages after every history, whatever calls fail;
    a reader finds the last frame of a page in its snapshot, no table runs full.  The loops that probe have the
    bounds of the code (\<open>nCollide\<close>) as fuel; that half of the slots stay free makes them enough.
  \<^item> \<open>WalFile\<close>, \<open>WalCommit\<close>, \<open>WalCrash\<close>: the writer implements an abstract durable log (frames with their bytes, and
    how many are committed); recovery from its file gives back exactly the committed frames.
  \<^item> \<open>Printf_Int\<close>, \<open>Double\<close>, \<open>Printf_Float\<close>, \<open>Printf\<close>, \<open>Printf_Entry\<close> (\<open>shim/printf/printf.c\<close>): the output functions, the
    integer and the floating-point conversions over IEEE-754 binary64, the formatter and its entry
    points.  Shown: \<open>snprintf\<close> writes exactly the first characters of the text that \<open>vprintf\<close> prints, and the
    integer conversions print what the C standard says within stated bounds.

  \<^bold>\<open>How the parts interact.\<close>  The tokenizer uses the character classes and the keyword recogniser; names and
  strings it finds go through the removal of quotes and into the symbol tables, whose hash and
  comparison are those of \<open>Ctype\<close>; numbers go through \<open>Numtext\<close>, which uses \<open>Arith\<close>.  LIKE reads characters with
  \<open>Utf\<close>.  The pager keeps journalled pages in a \<open>Bitvec\<close> and hands dirty pages to the write-ahead log, whose
  frames are made of the four-byte words of \<open>Varint\<close>; the virtual machine keeps rowids in a \<open>RowSet\<close>, and records are
  built of varints.

  \<^bold>\<open>Not modelled.\<close>  The virtual machine, the query planner and code generator, the generated
  parser, B-tree, pager, page cache, the memory allocators, JSON, date and time, the
  extensions (full-text search, R-tree, sessions) and the encrypted variant of the engine
  (\<open>sqlite3mc\<close>): each rests on the parts modelled here, and their code is larger than what is
  modelled by orders of magnitude.  The Rust and Dart code, the VFS (Rust) and the runners of the example
  applications are glue or other languages.  Within the modelled components, what is left out is named by
  the notes of the project's manifest: of the write-ahead log the locks of read transactions and the
  checkpoint, else releasing memory, self-tests and code that the options above do not
  compile.
\<close>

end
